(* ===== verification/Prelude.thy ===== *)
theory Prelude
  imports Main "HOL-Library.Word" "HOL-Library.Signed_Division" "HOL-Library.Monad_Syntax"
begin

text \<open>
  Shared vocabulary of the development.

  \<^item> Names for the Go types the program uses: \<open>byte\<close>, \<open>int16\<close>, \<open>uint32\<close>, \<open>uint64\<close> are
    words of their width (\<open>sint\<close> reads an \<open>int16\<close> as two's complement); Go's 64-bit \<open>int\<close> and
    \<open>int64\<close> are \<open>int\<close>, with \<open>i64\<close> written out where an addition can leave the 64-bit range.
  \<^item> The errors of the source as one datatype \<open>go_error\<close>; a function that returns a Go
    \<open>error\<close> returns a \<open>go_error option\<close> or a sum.
  \<^item> A Go run-time panic (index or slice bounds out of range) is the value \<open>None\<close> of the
    \<open>option\<close> monad; \<open>go_nth\<close> is the checked index expression.
  \<^item> The little-endian codec used by \<open>encoding/binary\<close> and by the atomic loads and stores
    (the program supports amd64 and arm64 only, both little-endian).
  \<^item> The collections \<open>wf_intros\<close>, \<open>mem_simps\<close> and \<open>layout_simps\<close> carry the component proofs.
\<close>

unbundle bit_operations_syntax

named_theorems wf_intros \<open>introduction rules for the well-formedness invariants\<close>
named_theorems mem_simps \<open>reads and writes of the shared memory\<close>
named_theorems layout_simps \<open>constants and offsets of the control region\<close>

subsection \<open>Types, errors and panics\<close>

type_synonym byte = "8 word"
type_synonym int16 = "16 word"
type_synonym uint16 = "16 word"
type_synonym uint32 = "32 word"
type_synonym uint64 = "64 word"

datatype go_error =
    NegativeOffset                \<comment> \<open>\<open>errors.New("negative offset")\<close>\<close>
  | EOF                           \<comment> \<open>\<open>io.EOF\<close>\<close>
  | CapacityExceeded              \<comment> \<open>\<open>errors.New("stripe capacity exceeded")\<close>\<close>
  | OutOfBounds                   \<comment> \<open>\<open>errors.New("out of bounds")\<close>\<close>
  | FirstChunkNil                 \<comment> \<open>\<open>firstChunk cannot be nil\<close>\<close>
  | CallbackNil                   \<comment> \<open>\<open>onChunkAppended cannot be nil\<close>\<close>
  | AllocFailed int               \<comment> \<open>\<open>failed to allocate %d blocks\<close>, with the number it prints\<close>
  | ChunkNotFound int             \<comment> \<open>\<open>chunk %d not found\<close>\<close>
  | Errno nat                     \<comment> \<open>an error of a system call\<close>
  | EventfdFailed nat             \<comment> \<open>\<open>eventfd creation/notify/wait failed\<close>, wrapping an error of a system call\<close>
  | ShortHeader int               \<comment> \<open>\<open>short header: got %d bytes, want 7\<close>\<close>
  | InvalidHeader "8 word list"   \<comment> \<open>\<open>Invalid handshake header: %s\<close>\<close>
  | UnsupportedVersion "8 word"   \<comment> \<open>\<open>Unsupported version: %d\<close>\<close>
  | InvalidNodeID int             \<comment> \<open>\<open>invalid nodeID %d\<close>\<close>
  | TooFewFds int                 \<comment> \<open>\<open>expected at least 3 fds, got %d\<close>\<close>
  | MaxNodesReached               \<comment> \<open>\<open>max nodes reached\<close>\<close>
  | NodeClosed                    \<comment> \<open>\<open>node closed\<close>\<close>
  | NodeDisconnected              \<comment> \<open>\<open>node disconnected while request queue full\<close>\<close>
  | NoSlots                       \<comment> \<open>\<open>no slots available\<close>\<close>
  | TargetNotFound                \<comment> \<open>\<open>target node not found\<close>\<close>
  | SlotTimeout                   \<comment> \<open>\<open>timed out waiting for previous owner to finish slot %d\<close>\<close>
  | NoActiveRequest               \<comment> \<open>\<open>no active request\<close>\<close>
  | NotOwner                      \<comment> \<open>\<open>Hub: Node %d requested expand for Slot %d but is not the owner\<close>\<close>
  | ExpandPushFailed              \<comment> \<open>\<open>failed to push expand request\<close>\<close>
  | ExpandFailed                  \<comment> \<open>\<open>failed to expand stripe\<close>\<close>
  | LimitReached                  \<comment> \<open>\<open>stripe block count limit reached, cannot expand further\<close>\<close>

definition go_nth :: "'a list \<Rightarrow> int \<Rightarrow> 'a option" where
  "go_nth xs i = (if 0 \<le> i \<and> i < int (length xs) then Some (xs ! nat i) else None)"

lemma go_nth_Some [simp]: "0 \<le> i \<Longrightarrow> i < int (length xs) \<Longrightarrow> go_nth xs i = Some (xs ! nat i)"
  by (simp add: go_nth_def)

lemma go_nth_None_iff: "go_nth xs i = None \<longleftrightarrow> i < 0 \<or> int (length xs) \<le> i"
  by (auto simp: go_nth_def)

lemma go_nth_of_nat [simp]: "i < length xs \<Longrightarrow> go_nth xs (int i) = Some (xs ! i)"
  by (simp add: go_nth_def)

lemma nat_1_add_int [simp]: "nat (1 + int k) = Suc k"
  by simp

text \<open>Two's complement wrap-around of a 64-bit signed addition.\<close>

definition i64 :: "int \<Rightarrow> int" where
  "i64 x = signed_take_bit 63 x"

lemma i64_id: "- (2 ^ 63) \<le> x \<Longrightarrow> x < 2 ^ 63 \<Longrightarrow> i64 x = x"
  by (simp add: i64_def signed_take_bit_int_eq_self)

lemma i64_wrap_up:
  assumes "2 ^ 63 \<le> x" "x < 2 ^ 64"
  shows "i64 x = x - 2 ^ 64"
proof -
  have "i64 x = (x + 2 ^ 63) mod 2 ^ 64 - 2 ^ 63"
    by (simp add: i64_def signed_take_bit_eq_take_bit_shift take_bit_eq_mod)
  also have "(x + 2 ^ 63) mod 2 ^ 64 = (x + 2 ^ 63 - 2 ^ 64) mod 2 ^ 64" by (rule minus_mod_self2[symmetric])
  also have "\<dots> = x + 2 ^ 63 - 2 ^ 64" using assms by (intro mod_pos_pos_trivial) simp_all
  finally show ?thesis by simp
qed

lemma sdiv_nonneg [simp]: "0 \<le> a \<Longrightarrow> 0 < b \<Longrightarrow> (a::int) sdiv b = a div b"
  by (cases "a = 0") (simp_all add: signed_divide_int_def)

lemma smod_nonneg [simp]: "0 \<le> a \<Longrightarrow> 0 < b \<Longrightarrow> (a::int) smod b = a mod b"
  by (cases "a = 0") (simp_all add: signed_modulo_int_def)

lemma int_less_uint: "int n < uint w \<longleftrightarrow> n < unat w"
  using of_nat_less_iff[of n "unat w", where 'a = int] by (simp del: of_nat_less_iff)

lemma uint_le_int: "uint w \<le> int n \<longleftrightarrow> unat w \<le> n"
  using int_less_uint[of n w] by linarith

subsection \<open>Little-endian codec\<close>

fun le_bytes :: "nat \<Rightarrow> nat \<Rightarrow> byte list" where
  "le_bytes 0 v = []"
| "le_bytes (Suc n) v = of_nat v # le_bytes n (v div 256)"

fun le_val :: "byte list \<Rightarrow> nat" where
  "le_val [] = 0"
| "le_val (b # bs) = unat b + 256 * le_val bs"

lemma length_le_bytes [simp]: "length (le_bytes n v) = n"
  by (induction n arbitrary: v) auto

lemma le_val_le_bytes: "le_val (le_bytes n v) = v mod 256 ^ n"
proof (induction n arbitrary: v)
  case (Suc n)
  have "unat (of_nat v :: byte) = v mod 256"
    by (simp add: unat_of_nat)
  with Suc show ?case
    by (simp add: mod_mult2_eq)
qed simp

lemma le_val_less: "le_val bs < 256 ^ length bs"
proof (induction bs)
  case (Cons b bs)
  have "unat b < 256" using unsigned_less[of b] by simp
  moreover have "256 * le_val bs + 256 \<le> 256 * 256 ^ length bs"
    using Cons by simp
  ultimately show ?case by simp
qed simp

lemma le_word_roundtrip:
  fixes w :: "'a::len word"
  assumes "2 ^ LENGTH('a) = (256::nat) ^ n"
  shows "(of_nat (le_val (le_bytes n (unat w))) :: 'a word) = w"
proof -
  have "unat w < 2 ^ LENGTH('a)" by (rule unsigned_less)
  then have "unat w < 256 ^ n" using assms by simp
  then show ?thesis by (simp add: le_val_le_bytes)
qed

lemma le_bytes_inj:
  "le_bytes n v = le_bytes n v' \<Longrightarrow> v < 256 ^ n \<Longrightarrow> v' < 256 ^ n \<Longrightarrow> v = v'"
  by (metis le_val_le_bytes mod_less)

subsection \<open>Lists\<close>

lemma map_upt_append:
  "i \<le> j \<Longrightarrow> j \<le> k \<Longrightarrow> map f [i..<j] @ map f [j..<k] = map f [i..<k]"
  by (metis le_Suc_ex map_append upt_add_eq_append)

lemma upt_split: "i \<le> j \<Longrightarrow> j \<le> k \<Longrightarrow> [i..<k] = [i..<j] @ [j..<k]"
  by (metis le_Suc_ex upt_add_eq_append)

lemma map_nth_upt: "a + n \<le> length xs \<Longrightarrow> map (\<lambda>i. xs ! (a + i)) [0..<n] = take n (drop a xs)"
  by (rule nth_equalityI) auto

subsection \<open>Rotations\<close>

lemma rot_inj: "inj_on (\<lambda>j. (start + j) mod n) {..<n :: nat}"
proof (rule inj_onI)
  fix x y assume x: "x \<in> {..<n}" and y: "y \<in> {..<n}" and eq: "(start + x) mod n = (start + y) mod n"
  then have "(int start + int x) mod int n = (int start + int y) mod int n" by (metis of_nat_add zmod_int)
  then have "int n dvd int x - int y" by (simp add: mod_eq_dvd_iff)
  moreover have "\<bar>int x - int y\<bar> < int n" using x y by auto
  ultimately have "int x - int y = 0" by (metis dvd_imp_le_int linorder_not_less abs_of_nat)
  then show "x = y" by simp
qed

lemma rot_surj: "(\<lambda>j. (start + j) mod n) ` {..<n} = {..<n :: nat}"
  by (rule endo_inj_surj[OF _ _ rot_inj]) auto

end
