(* ===== verification/Layout.thy ===== *)
theory Layout
  imports Prelude
begin

text \<open>
  \<^verbatim>\<open>go/shm/layout.go\<close>: the sizes of chunks, blocks and queues, the command and status
  codes, and the offsets of the control region.

  Offsets are \<open>uintptr\<close> in the source (64 bits). All of them stay below \<open>2 ^ 37\<close> (the
  largest is the entry of the out-of-range slot 0), so they are \<open>nat\<close> here; the 32-bit
  subtraction \<open>slotID - 1\<close> of \<open>GetStripeEntryOffset\<close> does wrap and is done on \<open>uint32\<close>.
\<close>

subsection \<open>Design constants\<close>

definition ChunkSize :: nat where "ChunkSize = 4194304"
definition BlockSize :: nat where "BlockSize = 4096"
definition BlocksPerChunk :: nat where "BlocksPerChunk = 1024"
definition MaxNodes :: nat where "MaxNodes = 64"
definition MaxChunks :: nat where "MaxChunks = 64"
definition QueueSize :: nat where "QueueSize = 510"
definition MaxTotalSlots :: nat where "MaxTotalSlots = 4096"
definition ControlStripeSize :: nat where "ControlStripeSize = 256 * BlockSize"
definition StripeDataSizeLimit :: nat where "StripeDataSizeLimit = 512 * BlockSize"

subsection \<open>Control region offsets\<close>

definition OFF_RESP_QUEUE :: nat where "OFF_RESP_QUEUE = 4096"
definition RESP_QUEUE_SIZE :: nat where "RESP_QUEUE_SIZE = 4096"
definition OFF_STRIPE_REGISTRY :: nat where "OFF_STRIPE_REGISTRY = 524288"

definition Q_OFF_HEAD :: nat where "Q_OFF_HEAD = 0"
definition Q_OFF_TAIL :: nat where "Q_OFF_TAIL = 4"
definition Q_OFF_ENTRIES :: nat where "Q_OFF_ENTRIES = 16"
definition Q_READY_BIT :: uint32 where "Q_READY_BIT = 0x80000000"

definition STRIPE_ENTRY_SIZE :: nat where "STRIPE_ENTRY_SIZE = 16"
definition STRIPE_OFF_STATUS :: nat where "STRIPE_OFF_STATUS = 0"
definition STRIPE_OFF_HEADER :: nat where "STRIPE_OFF_HEADER = 4"
definition STRIPE_OFF_OWNER :: nat where "STRIPE_OFF_OWNER = 8"

definition HEADER_DATA_LEN_OFF :: nat where "HEADER_DATA_LEN_OFF = 0"
definition HEADER_BLK_CNT_OFF :: nat where "HEADER_BLK_CNT_OFF = 4"
definition HEADER_SEQ_LEN_OFF :: nat where "HEADER_SEQ_LEN_OFF = 6"
definition HEADER_SEQ_START_OFF :: nat where "HEADER_SEQ_START_OFF = 8"

lemmas size_consts =
  ChunkSize_def BlockSize_def BlocksPerChunk_def MaxNodes_def MaxChunks_def QueueSize_def
  MaxTotalSlots_def ControlStripeSize_def StripeDataSizeLimit_def

lemmas offset_consts =
  OFF_RESP_QUEUE_def RESP_QUEUE_SIZE_def OFF_STRIPE_REGISTRY_def Q_OFF_HEAD_def Q_OFF_TAIL_def
  Q_OFF_ENTRIES_def STRIPE_ENTRY_SIZE_def STRIPE_OFF_STATUS_def STRIPE_OFF_HEADER_def
  STRIPE_OFF_OWNER_def HEADER_DATA_LEN_OFF_def HEADER_BLK_CNT_OFF_def HEADER_SEQ_LEN_OFF_def
  HEADER_SEQ_START_OFF_def

declare size_consts [layout_simps] offset_consts [layout_simps]

subsection \<open>Commands and stripe states\<close>

definition CMD_PROCESS :: uint32 where "CMD_PROCESS = 1"
definition CMD_RELEASE :: uint32 where "CMD_RELEASE = 2"
definition CMD_REQUEST_EXPAND :: uint32 where "CMD_REQUEST_EXPAND = 3"
definition CMD_EXPAND_READY :: uint32 where "CMD_EXPAND_READY = 4"
definition CMD_EXPAND_ERROR :: uint32 where "CMD_EXPAND_ERROR = 5"

definition StripeStatusIdle :: uint32 where "StripeStatusIdle = 0"
definition StripeStatusBusy :: uint32 where "StripeStatusBusy = 1"
definition StripeStatusReady :: uint32 where "StripeStatusReady = 2"
definition StripeStatusDone :: uint32 where "StripeStatusDone = 3"

lemmas cmd_consts =
  CMD_PROCESS_def CMD_RELEASE_def CMD_REQUEST_EXPAND_def CMD_EXPAND_READY_def CMD_EXPAND_ERROR_def

lemmas status_consts =
  StripeStatusIdle_def StripeStatusBusy_def StripeStatusReady_def StripeStatusDone_def

subsection \<open>Offset computations\<close>

definition GetNodeReqQueueOffset :: "nat \<Rightarrow> nat" where
  "GetNodeReqQueueOffset nodeID = OFF_RESP_QUEUE + nodeID * RESP_QUEUE_SIZE"

definition GetStripeEntryOffset :: "uint32 \<Rightarrow> nat" where
  "GetStripeEntryOffset slotID = OFF_STRIPE_REGISTRY + unat (slotID - 1) * STRIPE_ENTRY_SIZE"

text \<open>The offset of ring entry number \<open>i\<close> (already reduced modulo \<^const>\<open>QueueSize\<close>) of a queue.\<close>

abbreviation queue_entry_off :: "nat \<Rightarrow> nat \<Rightarrow> nat" where
  "queue_entry_off qOffset i \<equiv> qOffset + Q_OFF_ENTRIES + i * 8"

abbreviation valid_slot :: "uint32 \<Rightarrow> bool" where
  "valid_slot slotID \<equiv> 1 \<le> slotID \<and> slotID \<le> 4096"

lemma unat_slot_minus_1: "1 \<le> slotID \<Longrightarrow> unat (slotID - 1 :: uint32) = unat slotID - 1"
  by (simp add: unat_sub)

lemma entry_offset_valid:
  "valid_slot slotID \<Longrightarrow> GetStripeEntryOffset slotID = 524288 + (unat slotID - 1) * 16"
  by (simp add: GetStripeEntryOffset_def unat_slot_minus_1 layout_simps)

lemma valid_slot_unat: "valid_slot slotID \<longleftrightarrow> 1 \<le> unat slotID \<and> unat slotID \<le> 4096"
  by (simp add: word_le_nat_alt)

lemma entry_offset_zero: "GetStripeEntryOffset 0 = 524288 + 0xFFFFFFFF * 16"
  by (simp add: GetStripeEntryOffset_def layout_simps unsigned_minus_1_eq_mask mask_eq_exp_minus_1)

subsection \<open>The fields of the control region\<close>

text \<open>
  The control stripe holds 64 queues (number 0 is the response queue of the hub) and the
  registry of 4096 stripe slots. A \<open>ctl_field\<close> names one word of it.
\<close>

datatype ctl_field =
    QHead nat
  | QTail nat
  | QEntry nat nat
  | SlotStatus uint32
  | SlotHeader uint32
  | SlotOwner uint32

fun field_off :: "ctl_field \<Rightarrow> nat" where
  "field_off (QHead q) = GetNodeReqQueueOffset q + Q_OFF_HEAD"
| "field_off (QTail q) = GetNodeReqQueueOffset q + Q_OFF_TAIL"
| "field_off (QEntry q i) = queue_entry_off (GetNodeReqQueueOffset q) i"
| "field_off (SlotStatus s) = GetStripeEntryOffset s + STRIPE_OFF_STATUS"
| "field_off (SlotHeader s) = GetStripeEntryOffset s + STRIPE_OFF_HEADER"
| "field_off (SlotOwner s) = GetStripeEntryOffset s + STRIPE_OFF_OWNER"

fun field_width :: "ctl_field \<Rightarrow> nat" where
  "field_width (QEntry q i) = 8"
| "field_width _ = 4"

fun field_valid :: "ctl_field \<Rightarrow> bool" where
  "field_valid (QHead q) = (q < MaxNodes)"
| "field_valid (QTail q) = (q < MaxNodes)"
| "field_valid (QEntry q i) = (q < MaxNodes \<and> i < QueueSize)"
| "field_valid (SlotStatus s) = valid_slot s"
| "field_valid (SlotHeader s) = valid_slot s"
| "field_valid (SlotOwner s) = valid_slot s"

lemma field_off_queue:
  "field_off (QHead q) = 4096 + 4096 * q"
  "field_off (QTail q) = 4100 + 4096 * q"
  "field_off (QEntry q i) = 4112 + 4096 * q + 8 * i"
  by (simp_all add: GetNodeReqQueueOffset_def layout_simps)

lemma field_off_slot:
  assumes "valid_slot s"
  obtains k where "k < 4096" "unat s = Suc k" "field_off (SlotStatus s) = 524288 + 16 * k"
    "field_off (SlotHeader s) = 524292 + 16 * k" "field_off (SlotOwner s) = 524296 + 16 * k"
proof -
  have "1 \<le> unat s" "unat s \<le> 4096" using assms by (simp_all add: valid_slot_unat)
  then show ?thesis
    by (intro that[of "unat s - 1"]) (simp_all add: entry_offset_valid[OF assms] layout_simps)
qed

lemma aligned_in_block: "0 < w \<Longrightarrow> w dvd B \<Longrightarrow> w dvd off \<Longrightarrow> 0 < B \<Longrightarrow> off mod B + w \<le> (B::nat)"
proof (elim dvdE)
  fix n k assume "0 < w" "0 < B" "B = w * n" "off = w * k"
  then have "off mod B = w * (k mod n)" and "k mod n < n" by simp_all
  then have "w * (k mod n) + w \<le> w * n" using mult_le_mono2[of "Suc (k mod n)" n w] by simp
  with \<open>off mod B = _\<close> \<open>B = _\<close> show ?thesis by simp
qed

lemma field_off_bounds:
  assumes "field_valid f"
  shows "BlockSize \<le> field_off f \<and> field_off f + field_width f \<le> ControlStripeSize"
proof (cases f)
  case (SlotStatus s)
  with assms have "valid_slot s" by simp
  then show ?thesis by (rule field_off_slot) (simp add: SlotStatus layout_simps)
next
  case (SlotHeader s)
  with assms have "valid_slot s" by simp
  then show ?thesis by (rule field_off_slot) (simp add: SlotHeader layout_simps)
next
  case (SlotOwner s)
  with assms have "valid_slot s" by simp
  then show ?thesis by (rule field_off_slot) (simp add: SlotOwner layout_simps)
qed (use assms in \<open>simp_all add: field_off_queue size_consts del: field_off.simps\<close>)

lemma field_aligned: "field_width f dvd field_off f"
proof (cases f)
  case (QHead q)
  have "4 dvd 4096 + 4096 * q" by (rule dvdI[of _ _ "1024 + 1024 * q"]) simp
  with QHead show ?thesis by (simp add: field_off_queue del: field_off.simps)
next
  case (QTail q)
  have "4 dvd 4100 + 4096 * q" by (rule dvdI[of _ _ "1025 + 1024 * q"]) simp
  with QTail show ?thesis by (simp add: field_off_queue del: field_off.simps)
next
  case (QEntry q i)
  have "8 dvd 4112 + 4096 * q + 8 * i" by (rule dvdI[of _ _ "514 + 512 * q + i"]) simp
  with QEntry show ?thesis by (simp add: field_off_queue del: field_off.simps)
next
  case (SlotStatus s)
  have "4 dvd 524288 + unat (s - 1) * 16" by (rule dvdI[of _ _ "131072 + unat (s - 1) * 4"]) simp
  with SlotStatus show ?thesis by (simp add: GetStripeEntryOffset_def layout_simps)
next
  case (SlotHeader s)
  have "4 dvd 524292 + unat (s - 1) * 16" by (rule dvdI[of _ _ "131073 + unat (s - 1) * 4"]) simp
  with SlotHeader show ?thesis by (simp add: GetStripeEntryOffset_def layout_simps)
next
  case (SlotOwner s)
  have "4 dvd 524296 + unat (s - 1) * 16" by (rule dvdI[of _ _ "131074 + unat (s - 1) * 4"]) simp
  with SlotOwner show ?thesis by (simp add: GetStripeEntryOffset_def layout_simps)
qed

lemma field_in_block: "field_off f mod BlockSize + field_width f \<le> BlockSize"
proof (rule aligned_in_block)
  show "0 < field_width f" and "field_width f dvd BlockSize"
    by (cases f; simp add: BlockSize_def)+
qed (simp_all add: field_aligned BlockSize_def)

lemma field_in_queue:
  assumes "field_valid f" and "\<forall>s. f \<notin> {SlotStatus s, SlotHeader s, SlotOwner s}"
  obtains q d where "q < 64" "field_off f = 4096 + 4096 * q + d" "d + field_width f \<le> 4096"
    "f = QHead q \<and> d = 0 \<or> f = QTail q \<and> d = 4 \<or> (\<exists>i. f = QEntry q i \<and> d = 16 + 8 * i)"
proof (cases f)
  case (QHead q)
  with assms show ?thesis
    by (intro that[of q 0]) (auto simp: field_off_queue size_consts simp del: field_off.simps)
next
  case (QTail q)
  with assms show ?thesis
    by (intro that[of q 4]) (auto simp: field_off_queue size_consts simp del: field_off.simps)
next
  case (QEntry q i)
  with assms show ?thesis
    by (intro that[of q "16 + 8 * i"]) (auto simp: field_off_queue size_consts simp del: field_off.simps)
qed (use assms in auto)

lemma field_in_slot:
  assumes "f \<in> {SlotStatus s, SlotHeader s, SlotOwner s}" and "field_valid f"
  obtains k d where "k < 4096" "unat s = Suc k" "field_off f = 524288 + 16 * k + d" "field_width f = 4"
    "f = SlotStatus s \<and> d = 0 \<or> f = SlotHeader s \<and> d = 4 \<or> f = SlotOwner s \<and> d = 8"
proof -
  have "valid_slot s" using assms by auto
  then show ?thesis by (rule field_off_slot) (use assms in \<open>auto intro: that\<close>)
qed

lemma queue_fields_disjoint:
  assumes "field_valid f" "\<forall>s. f \<notin> {SlotStatus s, SlotHeader s, SlotOwner s}"
    and "field_valid g" "\<forall>s. g \<notin> {SlotStatus s, SlotHeader s, SlotOwner s}" and "f \<noteq> g"
  shows "field_off f + field_width f \<le> field_off g \<or> field_off g + field_width g \<le> field_off f"
proof -
  from assms(1,2) obtain q d where f: "q < 64" "field_off f = 4096 + 4096 * q + d" "d + field_width f \<le> 4096"
    "f = QHead q \<and> d = 0 \<or> f = QTail q \<and> d = 4 \<or> (\<exists>i. f = QEntry q i \<and> d = 16 + 8 * i)"
    by (rule field_in_queue)
  from assms(3,4) obtain q' e where g: "q' < 64" "field_off g = 4096 + 4096 * q' + e" "e + field_width g \<le> 4096"
    "g = QHead q' \<and> e = 0 \<or> g = QTail q' \<and> e = 4 \<or> (\<exists>i. g = QEntry q' i \<and> e = 16 + 8 * i)"
    by (rule field_in_queue)
  show ?thesis
  proof (cases "q = q'")
    case True
    have "d + field_width f \<le> e \<or> e + field_width g \<le> d"
      using f(4) g(4) True \<open>f \<noteq> g\<close> by (auto simp: field_width.simps)
    with f(2) g(2) True show ?thesis by linarith
  next
    case False
    with f g show ?thesis by linarith
  qed
qed

lemma slot_fields_disjoint:
  assumes "f \<in> {SlotStatus s, SlotHeader s, SlotOwner s}" "field_valid f"
    and "g \<in> {SlotStatus t, SlotHeader t, SlotOwner t}" "field_valid g" and "f \<noteq> g"
  shows "field_off f + field_width f \<le> field_off g \<or> field_off g + field_width g \<le> field_off f"
proof -
  from assms(1,2) obtain k d where f: "unat s = Suc k" "field_off f = 524288 + 16 * k + d" "field_width f = 4"
    "f = SlotStatus s \<and> d = 0 \<or> f = SlotHeader s \<and> d = 4 \<or> f = SlotOwner s \<and> d = 8"
    by (rule field_in_slot)
  from assms(3,4) obtain l e where g: "unat t = Suc l" "field_off g = 524288 + 16 * l + e" "field_width g = 4"
    "g = SlotStatus t \<and> e = 0 \<or> g = SlotHeader t \<and> e = 4 \<or> g = SlotOwner t \<and> e = 8"
    by (rule field_in_slot)
  show ?thesis
  proof (cases "s = t")
    case True
    with f(1) g(1) have "k = l" by simp
    moreover have "d + 4 \<le> e \<or> e + 4 \<le> d"
      using f(4) g(4) True \<open>f \<noteq> g\<close> by auto
    ultimately show ?thesis using f g by linarith
  next
    case False
    then have "k \<noteq> l" using f(1) g(1) by (metis word_unat_eq_iff)
    moreover have "d \<le> 8" "e \<le> 8" using f(4) g(4) by auto
    ultimately show ?thesis using f g by linarith
  qed
qed

text \<open>Distinct fields never share a byte.\<close>

lemma fields_disjoint:
  assumes "field_valid f" and "field_valid g" and "f \<noteq> g"
  shows "field_off f + field_width f \<le> field_off g \<or> field_off g + field_width g \<le> field_off f"
proof -
  have cross: "field_off f' + field_width f' \<le> field_off g'"
    if "field_valid f'" "\<forall>s. f' \<notin> {SlotStatus s, SlotHeader s, SlotOwner s}"
      "g' \<in> {SlotStatus t, SlotHeader t, SlotOwner t}" "field_valid g'" for f' g' t
    using that(1,2) by (rule field_in_queue) (use that(3,4) in \<open>rule field_in_slot, linarith\<close>)
  consider (qq) "\<forall>s. f \<notin> {SlotStatus s, SlotHeader s, SlotOwner s}" "\<forall>s. g \<notin> {SlotStatus s, SlotHeader s, SlotOwner s}"
    | (qs) t where "\<forall>s. f \<notin> {SlotStatus s, SlotHeader s, SlotOwner s}" "g \<in> {SlotStatus t, SlotHeader t, SlotOwner t}"
    | (sq) t where "\<forall>s. g \<notin> {SlotStatus s, SlotHeader s, SlotOwner s}" "f \<in> {SlotStatus t, SlotHeader t, SlotOwner t}"
    | (ss) s t where "f \<in> {SlotStatus s, SlotHeader s, SlotOwner s}" "g \<in> {SlotStatus t, SlotHeader t, SlotOwner t}"
    by blast
  then show ?thesis
    by cases (use assms cross queue_fields_disjoint slot_fields_disjoint in blast)+
qed

subsection \<open>Properties\<close>

text \<open>C27: The control region is laid out without overlap. Every word of it (the head, tail and the 510
  entries of each of the 64 queues, and status, header and owner of each of the 4096 registry
  slots) lies behind the header block, inside the 1 MB control stripe and inside a single 4 KB block,
  is aligned to its width, and shares no byte with any other word.\<close>

theorem control_region_layout:
  assumes "field_valid f"
  shows "BlockSize \<le> field_off f \<and> field_off f + field_width f \<le> ControlStripeSize
    \<and> field_off f mod BlockSize + field_width f \<le> BlockSize \<and> field_width f dvd field_off f
    \<and> (\<forall>g. field_valid g \<longrightarrow> g \<noteq> f \<longrightarrow>
          field_off f + field_width f \<le> field_off g \<or> field_off g + field_width g \<le> field_off f)"
  using assms field_off_bounds field_in_block field_aligned fields_disjoint by blast

theorem control_region_layout_witness:
  "field_valid (QEntry 63 509) \<and> field_off (QEntry 63 509) = 266232
    \<and> field_off (QEntry 63 509) + 8 \<le> field_off (SlotStatus 1)"
  using control_region_layout[of "QEntry 63 509"]
  by (simp add: GetNodeReqQueueOffset_def GetStripeEntryOffset_def layout_simps)

end
