(* ===== verification/Chunk_Memory.thy ===== *)
theory Chunk_Memory
  imports Layout
begin

text \<open>
  \<^verbatim>\<open>go/shm/chunk.go\<close> and the shared memory below it.

  \<^item> A chunk is a 4 MB \<open>memfd\<close>; its contents are shared by every process that maps it. The
    memory is one store \<open>mem\<close> from (region, offset) to bytes, a region being one \<open>memfd\<close>.
    A Go slice of a mapped chunk is a reference (region, start, length), so that all aliases of
    a block see the same bytes.
  \<^item> \<open>kernel\<close> records the open descriptors and live mappings of the process. The results of the
    system calls \<open>memfd_create\<close>, \<open>ftruncate\<close>, \<open>mmap\<close> and \<open>close\<close> are arguments.
\<close>

subsection \<open>The store\<close>

type_synonym mem = "nat \<Rightarrow> nat \<Rightarrow> byte"
type_synonym pointer = "nat \<times> nat"

record slice =
  sl_region :: nat
  sl_off :: nat
  sl_len :: nat

definition mem_read :: "mem \<Rightarrow> nat \<Rightarrow> nat \<Rightarrow> nat \<Rightarrow> byte list" where
  "mem_read m r a n = map (\<lambda>i. m r (a + i)) [0..<n]"

definition mem_write :: "mem \<Rightarrow> nat \<Rightarrow> nat \<Rightarrow> byte list \<Rightarrow> mem" where
  "mem_write m r a bs =
     (\<lambda>r' i. if r' = r \<and> a \<le> i \<and> i < a + length bs then bs ! (i - a) else m r' i)"

lemma length_mem_read [simp]: "length (mem_read m r a n) = n"
  by (simp add: mem_read_def)

lemma mem_read_0 [simp]: "mem_read m r a 0 = []"
  by (simp add: mem_read_def)

lemma mem_write_Nil [simp]: "mem_write m r a [] = m"
  by (auto simp: mem_write_def fun_eq_iff)

lemma nth_mem_read [simp]: "i < n \<Longrightarrow> mem_read m r a n ! i = m r (a + i)"
  by (simp add: mem_read_def)

lemma mem_write_at: "a \<le> i \<Longrightarrow> i < a + length bs \<Longrightarrow> mem_write m r a bs r i = bs ! (i - a)"
  by (simp add: mem_write_def)

lemma mem_write_other:
  "r' \<noteq> r \<or> i < a \<or> a + length bs \<le> i \<Longrightarrow> mem_write m r a bs r' i = m r' i"
  by (auto simp: mem_write_def)

lemma mem_read_write_same [mem_simps]:
  "n = length bs \<Longrightarrow> mem_read (mem_write m r a bs) r a n = bs"
  by (rule nth_equalityI) (simp_all add: mem_write_at)

lemma mem_read_write_disj [mem_simps]:
  "r' \<noteq> r \<or> b + n \<le> a \<or> a + length bs \<le> b \<Longrightarrow> mem_read (mem_write m r a bs) r' b n = mem_read m r' b n"
  by (rule nth_equalityI) (auto simp: mem_write_other)

lemma mem_read_append: "mem_read m r a (j + k) = mem_read m r a j @ mem_read m r (a + j) k"
  by (rule nth_equalityI) (auto simp: nth_append)

subsection \<open>Fixed-width little-endian accesses\<close>

definition load16 :: "mem \<Rightarrow> pointer \<Rightarrow> uint16" where
  "load16 m p = of_nat (le_val (mem_read m (fst p) (snd p) 2))"

definition load32 :: "mem \<Rightarrow> pointer \<Rightarrow> uint32" where
  "load32 m p = of_nat (le_val (mem_read m (fst p) (snd p) 4))"

definition load64 :: "mem \<Rightarrow> pointer \<Rightarrow> uint64" where
  "load64 m p = of_nat (le_val (mem_read m (fst p) (snd p) 8))"

definition store16 :: "mem \<Rightarrow> pointer \<Rightarrow> uint16 \<Rightarrow> mem" where
  "store16 m p v = mem_write m (fst p) (snd p) (le_bytes 2 (unat v))"

definition store32 :: "mem \<Rightarrow> pointer \<Rightarrow> uint32 \<Rightarrow> mem" where
  "store32 m p v = mem_write m (fst p) (snd p) (le_bytes 4 (unat v))"

definition store64 :: "mem \<Rightarrow> pointer \<Rightarrow> uint64 \<Rightarrow> mem" where
  "store64 m p v = mem_write m (fst p) (snd p) (le_bytes 8 (unat v))"

lemmas access_defs = load16_def load32_def load64_def store16_def store32_def store64_def

lemma load16_store16 [mem_simps]: "load16 (store16 m p v) p = v"
  by (simp add: access_defs mem_read_write_same le_word_roundtrip)

lemma load32_store32 [mem_simps]: "load32 (store32 m p v) p = v"
  by (simp add: access_defs mem_read_write_same le_word_roundtrip)

lemma load64_store64 [mem_simps]: "load64 (store64 m p v) p = v"
  by (simp add: access_defs mem_read_write_same le_word_roundtrip)

text \<open>The byte range \<open>[snd p, snd p + n)\<close> of \<open>p\<close> does not meet that of \<open>q\<close>.\<close>

definition apart :: "pointer \<Rightarrow> nat \<Rightarrow> pointer \<Rightarrow> nat \<Rightarrow> bool" where
  "apart p n q k \<longleftrightarrow> fst p \<noteq> fst q \<or> snd p + n \<le> snd q \<or> snd q + k \<le> snd p"

lemma apart_sym: "apart p n q k \<longleftrightarrow> apart q k p n"
  by (auto simp: apart_def)

lemma load_store_apart:
  shows "apart p 2 q 2 \<Longrightarrow> load16 (store16 m p v16) q = load16 m q"
    and "apart p 2 q 4 \<Longrightarrow> load32 (store16 m p v16) q = load32 m q"
    and "apart p 4 q 2 \<Longrightarrow> load16 (store32 m p v32) q = load16 m q"
    and "apart p 4 q 4 \<Longrightarrow> load32 (store32 m p v32) q = load32 m q"
    and "apart p 4 q 8 \<Longrightarrow> load64 (store32 m p v32) q = load64 m q"
    and "apart p 8 q 4 \<Longrightarrow> load32 (store64 m p v64) q = load32 m q"
    and "apart p 8 q 8 \<Longrightarrow> load64 (store64 m p v64) q = load64 m q"
  by (auto simp: apart_def access_defs intro!: arg_cong[where f = le_val] mem_read_write_disj
      intro: arg_cong[where f = of_nat])

subsection \<open>Slices\<close>

text \<open>
  \<open>s[lo:hi]\<close>. Go also accepts \<open>hi\<close> between the length and the capacity of the slice; the
  program never asks for more than the length of a block or chunk, which is what is checked.
\<close>

definition go_slice :: "slice \<Rightarrow> int \<Rightarrow> int \<Rightarrow> slice option" where
  "go_slice s lo hi =
     (if 0 \<le> lo \<and> lo \<le> hi \<and> hi \<le> int (sl_len s)
      then Some \<lparr>sl_region = sl_region s, sl_off = sl_off s + nat lo, sl_len = nat (hi - lo)\<rparr>
      else None)"

definition slice_bytes :: "mem \<Rightarrow> slice \<Rightarrow> byte list" where
  "slice_bytes m s = mem_read m (sl_region s) (sl_off s) (sl_len s)"

text \<open>\<open>copy(dst, src)\<close> between a slice of the shared memory and a private buffer of the same length.\<close>

definition slice_store :: "mem \<Rightarrow> slice \<Rightarrow> byte list \<Rightarrow> mem" where
  "slice_store m s bs = mem_write m (sl_region s) (sl_off s) (take (sl_len s) bs)"

lemma length_slice_bytes [simp]: "length (slice_bytes m s) = sl_len s"
  by (simp add: slice_bytes_def)

lemma slice_store_load:
  "length bs = sl_len s \<Longrightarrow> slice_bytes (slice_store m s bs) s = bs"
  by (simp add: slice_bytes_def slice_store_def mem_read_write_same)

text \<open>Byte \<open>i\<close> of a slice: \<open>s[i]\<close> and \<open>s[i] = b\<close>.\<close>

definition slice_get :: "mem \<Rightarrow> slice \<Rightarrow> int \<Rightarrow> byte option" where
  "slice_get m s i =
     (if 0 \<le> i \<and> i < int (sl_len s) then Some (m (sl_region s) (sl_off s + nat i)) else None)"

definition slice_set :: "mem \<Rightarrow> slice \<Rightarrow> int \<Rightarrow> byte \<Rightarrow> mem option" where
  "slice_set m s i b =
     (if 0 \<le> i \<and> i < int (sl_len s) then Some (mem_write m (sl_region s) (sl_off s + nat i) [b]) else None)"

subsection \<open>Chunks\<close>

record chunk =
  ck_Data :: "slice option"  \<comment> \<open>\<open>Data []byte\<close>; \<open>None\<close> is the nil slice\<close>
  ck_Fd :: int

record kernel =
  open_fds :: "int set"
  mapped :: "nat list"

record chunk_sys =
  sys_memfd :: "string \<Rightarrow> nat + int"  \<comment> \<open>\<open>unix.MemfdCreate\<close>: errno or the new descriptor\<close>
  sys_ftruncate :: "nat option"       \<comment> \<open>\<open>unix.Ftruncate\<close>: errno or nil\<close>
  sys_mmap :: "nat + nat"             \<comment> \<open>\<open>unix.Mmap\<close>: errno or the region that was mapped\<close>

definition sys_close :: "int \<Rightarrow> kernel \<Rightarrow> kernel" where
  "sys_close fd k = k\<lparr>open_fds := open_fds k - {fd}\<rparr>"

definition AttachChunk :: "nat + nat \<Rightarrow> int \<Rightarrow> kernel \<Rightarrow> (go_error + chunk) \<times> kernel" where
  "AttachChunk mmap fd k =
     (case mmap of
        Inl e \<Rightarrow> (Inl (Errno e), k)
      | Inr r \<Rightarrow> (Inr \<lparr>ck_Data = Some \<lparr>sl_region = r, sl_off = 0, sl_len = ChunkSize\<rparr>, ck_Fd = fd\<rparr>,
                 k\<lparr>mapped := r # mapped k\<rparr>))"

definition NewChunk :: "chunk_sys \<Rightarrow> string \<Rightarrow> kernel \<Rightarrow> (go_error + chunk) \<times> kernel" where
  "NewChunk os name k =
     (case sys_memfd os name of
        Inl e \<Rightarrow> (Inl (Errno e), k)
      | Inr fd \<Rightarrow>
          (let k1 = k\<lparr>open_fds := insert fd (open_fds k)\<rparr> in
           case sys_ftruncate os of
             Some e \<Rightarrow> (Inl (Errno e), sys_close fd k1)
           | None \<Rightarrow>
               (case AttachChunk (sys_mmap os) fd k1 of
                  (Inl err, k2) \<Rightarrow> (Inl err, sys_close fd k2)
                | (Inr chunk, k2) \<Rightarrow> (Inr chunk, k2))))"

definition Chunk_Close :: "nat option \<Rightarrow> chunk option \<Rightarrow> kernel \<Rightarrow> go_error option \<times> chunk option \<times> kernel" where
  "Chunk_Close close_err c k =
     (case c of
        None \<Rightarrow> (None, None, k)
      | Some c \<Rightarrow>
          (let (c1, k1) = (case ck_Data c of
                             None \<Rightarrow> (c, k)
                           | Some s \<Rightarrow> (c\<lparr>ck_Data := None\<rparr>, k\<lparr>mapped := remove1 (sl_region s) (mapped k)\<rparr>))
           in if 0 \<le> ck_Fd c1
              then (map_option Errno close_err, Some (c1\<lparr>ck_Fd := -1\<rparr>), sys_close (ck_Fd c1) k1)
              else (None, Some c1, k1)))"

text \<open>\<open>chunk.Data[lo:hi]\<close>.\<close>

definition chunk_slice :: "chunk \<Rightarrow> int \<Rightarrow> int \<Rightarrow> slice option" where
  "chunk_slice c lo hi =
     (case ck_Data c of
        None \<Rightarrow> if lo = 0 \<and> hi = 0 then Some \<lparr>sl_region = 0, sl_off = 0, sl_len = 0\<rparr> else None
      | Some s \<Rightarrow> go_slice s lo hi)"

lemma AttachChunk_cases:
  "AttachChunk mmap fd k = (res, k') \<Longrightarrow>
     (\<exists>e. mmap = Inl e \<and> res = Inl (Errno e) \<and> k' = k)
   \<or> (\<exists>r. mmap = Inr r \<and> k' = k\<lparr>mapped := r # mapped k\<rparr>
        \<and> res = Inr \<lparr>ck_Data = Some \<lparr>sl_region = r, sl_off = 0, sl_len = ChunkSize\<rparr>, ck_Fd = fd\<rparr>)"
  by (auto simp: AttachChunk_def split: sum.splits)

lemma NewChunk_cases:
  assumes "NewChunk os name k = (res, k')" and "\<forall>fd. sys_memfd os name = Inr fd \<longrightarrow> fd \<notin> open_fds k"
  shows "(\<exists>e. res = Inl (Errno e) \<and> k' = k)
   \<or> (\<exists>fd r. sys_memfd os name = Inr fd
        \<and> res = Inr \<lparr>ck_Data = Some \<lparr>sl_region = r, sl_off = 0, sl_len = ChunkSize\<rparr>, ck_Fd = fd\<rparr>
        \<and> k' = k\<lparr>open_fds := insert fd (open_fds k), mapped := r # mapped k\<rparr>)"
  using assms
  by (auto simp: NewChunk_def AttachChunk_def sys_close_def Let_def split: sum.splits option.splits)

subsection \<open>Properties\<close>

text \<open>C26: No descriptor and no mapping is leaked over the life of a chunk. When a system call fails
  \<open>NewChunk\<close> leaves the descriptor table and the mappings as they were; when it succeeds it adds
  exactly one of each, \<open>Close\<close> gives both back, and closing again changes nothing. (The kernel
  returns a non-negative descriptor that was not open.)\<close>

theorem chunk_lifecycle:
  assumes "\<forall>fd. sys_memfd os name = Inr fd \<longrightarrow> 0 \<le> fd \<and> fd \<notin> open_fds k"
  shows "case NewChunk os name k of
      (Inl err, k') \<Rightarrow> k' = k
    | (Inr c, k') \<Rightarrow>
        open_fds k' = insert (ck_Fd c) (open_fds k) \<and> ck_Fd c \<notin> open_fds k
        \<and> length (mapped k') = Suc (length (mapped k))
        \<and> (case Chunk_Close ce (Some c) k' of
             (err, c', k'') \<Rightarrow> k'' = k \<and> Chunk_Close ce' c' k'' = (None, c', k''))"
proof -
  obtain res k' where n: "NewChunk os name k = (res, k')" by (cases "NewChunk os name k")
  have fresh: "\<forall>fd. sys_memfd os name = Inr fd \<longrightarrow> fd \<notin> open_fds k" using assms by blast
  from NewChunk_cases[OF n fresh] show ?thesis
    using assms n by (auto simp: Chunk_Close_def sys_close_def)
qed

theorem chunk_lifecycle_witness:
  "case NewChunk \<lparr>sys_memfd = \<lambda>_. Inr 7, sys_ftruncate = None, sys_mmap = Inr 0\<rparr> ''mmfg_chunk0''
      \<lparr>open_fds = {0, 1, 2}, mapped = []\<rparr> of
      (Inl err, k') \<Rightarrow> False
    | (Inr c, k') \<Rightarrow> open_fds k' = {0, 1, 2, 7} \<and> mapped k' = [0]
        \<and> snd (snd (Chunk_Close None (Some c) k')) = \<lparr>open_fds = {0, 1, 2}, mapped = []\<rparr>"
  using chunk_lifecycle[of "\<lparr>sys_memfd = \<lambda>_. Inr 7, sys_ftruncate = None, sys_mmap = Inr 0\<rparr>" "''mmfg_chunk0''"
      "\<lparr>open_fds = {0, 1, 2}, mapped = []\<rparr>" None None]
  by (auto simp: NewChunk_def AttachChunk_def)

end
