(* ===== verification/Protocol.thy ===== *)
theory Protocol
  imports Chunk_Memory
begin

text \<open>
  \<^verbatim>\<open>go/shm/protocol.go\<close>: the header block of a stripe and block addresses, with the types
  \<open>Block\<close> and \<open>Stripe\<close> of \<^verbatim>\<open>go/shm/stripe.go\<close>.

  A header block starts with the data length (4 bytes), the block count (2 bytes), the sequence
  length (2 bytes) and then the sequence itself, 2 bytes an entry. A sequence lists the blocks
  of a stripe: a negative entry switches to the chunk whose number is its complement, a
  non-negative entry is a block of the current chunk.
\<close>

subsection \<open>Blocks and stripes\<close>

record block =
  bk_ChunkID :: int16
  bk_BlockIdx :: int16
  bk_Data :: slice

record stripe =
  Sequence :: "int16 list"
  BlockCount :: int
  Blocks :: "slice list"
  DataLen :: uint32

abbreviation slice_ptr :: "slice \<Rightarrow> nat \<Rightarrow> pointer" where
  "slice_ptr s i \<equiv> (sl_region s, sl_off s + i)"

text \<open>\<open>binary.LittleEndian\<close>: the accesses panic when the slice is too short.\<close>

definition PutUint32 :: "mem \<Rightarrow> slice \<Rightarrow> nat \<Rightarrow> uint32 \<Rightarrow> mem option" where
  "PutUint32 m s i v = (if i + 4 \<le> sl_len s then Some (store32 m (slice_ptr s i) v) else None)"

definition PutUint16 :: "mem \<Rightarrow> slice \<Rightarrow> nat \<Rightarrow> uint16 \<Rightarrow> mem option" where
  "PutUint16 m s i v = (if i + 2 \<le> sl_len s then Some (store16 m (slice_ptr s i) v) else None)"

definition Uint32_at :: "mem \<Rightarrow> slice \<Rightarrow> nat \<Rightarrow> uint32 option" where
  "Uint32_at m s i = (if i + 4 \<le> sl_len s then Some (load32 m (slice_ptr s i)) else None)"

definition Uint16_at :: "mem \<Rightarrow> slice \<Rightarrow> nat \<Rightarrow> uint16 option" where
  "Uint16_at m s i = (if i + 2 \<le> sl_len s then Some (load16 m (slice_ptr s i)) else None)"

subsection \<open>Writing and reading the header\<close>

text \<open>The loop \<open>for i, val := range stripe.Sequence\<close>, which stops at the end of the block.\<close>

fun put_sequence :: "mem \<Rightarrow> slice \<Rightarrow> nat \<Rightarrow> int16 list \<Rightarrow> mem" where
  "put_sequence m h i [] = m"
| "put_sequence m h i (val # vals) =
     (let off = HEADER_SEQ_START_OFF + i * 2 in
      if off + 2 > sl_len h then m
      else put_sequence (store16 m (slice_ptr h off) val) h (Suc i) vals)"

definition UpdateStripeHeader :: "mem \<Rightarrow> stripe \<Rightarrow> mem option" where
  "UpdateStripeHeader m s = do {
     headerData \<leftarrow> go_nth (Blocks s) 0;
     m \<leftarrow> PutUint32 m headerData HEADER_DATA_LEN_OFF (DataLen s);
     m \<leftarrow> PutUint16 m headerData HEADER_BLK_CNT_OFF (word_of_int (BlockCount s));
     m \<leftarrow> PutUint16 m headerData HEADER_SEQ_LEN_OFF (of_nat (length (Sequence s)));
     Some (put_sequence m headerData 0 (Sequence s))
   }"

text \<open>The loop of \<open>DecodeHeader\<close>: entry \<open>i\<close> and the \<open>n\<close> entries left; after the \<open>break\<close> the rest of
  \<open>make([]int16, seqLen)\<close> keeps its zeros.\<close>

fun get_sequence :: "mem \<Rightarrow> slice \<Rightarrow> nat \<Rightarrow> nat \<Rightarrow> int16 list" where
  "get_sequence m h i 0 = []"
| "get_sequence m h i (Suc n) =
     (let off = HEADER_SEQ_START_OFF + i * 2 in
      if off + 2 > sl_len h then replicate (Suc n) 0
      else load16 m (slice_ptr h off) # get_sequence m h (Suc i) n)"

definition DecodeHeader :: "mem \<Rightarrow> slice \<Rightarrow> (uint32 \<times> int \<times> int16 list) option" where
  "DecodeHeader m headerData = do {
     dataLen \<leftarrow> Uint32_at m headerData HEADER_DATA_LEN_OFF;
     blkCnt \<leftarrow> Uint16_at m headerData HEADER_BLK_CNT_OFF;
     seqLen \<leftarrow> Uint16_at m headerData HEADER_SEQ_LEN_OFF;
     Some (dataLen, uint blkCnt, get_sequence m headerData 0 (unat seqLen))
   }"

subsection \<open>Block addresses\<close>

definition GetBlockAddress :: "int16 \<Rightarrow> int16 \<Rightarrow> int" where
  "GetBlockAddress chunkID blockIdx =
     (let readCID = NOT chunkID in sint readCID * int BlocksPerChunk + sint blockIdx)"

definition ParseBlockAddress :: "uint64 \<Rightarrow> int16 \<times> int16" where
  "ParseBlockAddress address =
     (NOT (ucast (address div 1024)), ucast (address mod 1024))"

subsection \<open>The header codec\<close>

text \<open>The entries that fit in a header block.\<close>

definition seq_capacity :: nat where
  "seq_capacity = (BlockSize - HEADER_SEQ_START_OFF) div 2"

lemma seq_capacity_eq: "seq_capacity = 2044"
  by (simp add: seq_capacity_def layout_simps)

lemma put_sequence_frame:
  assumes "apart q n (slice_ptr h (8 + 2 * i)) (sl_len h - (8 + 2 * i))"
  shows "mem_read (put_sequence m h i vals) (fst q) (snd q) n = mem_read m (fst q) (snd q) n"
  using assms
proof (induction m h i vals rule: put_sequence.induct)
  case (2 m h i val vals)
  show ?case
  proof (cases "HEADER_SEQ_START_OFF + i * 2 + 2 > sl_len h")
    case False
    let ?m = "store16 m (slice_ptr h (HEADER_SEQ_START_OFF + i * 2)) val"
    have "apart q n (slice_ptr h (8 + 2 * Suc i)) (sl_len h - (8 + 2 * Suc i))"
      using "2.prems" False by (auto simp: apart_def offset_consts)
    with "2.IH" False
    have "mem_read (put_sequence ?m h (Suc i) vals) (fst q) (snd q) n = mem_read ?m (fst q) (snd q) n"
      by simp
    also have "\<dots> = mem_read m (fst q) (snd q) n"
      using "2.prems" False
      by (auto simp: access_defs apart_def offset_consts intro!: mem_read_write_disj)
    finally show ?thesis using False by simp
  qed simp
qed simp

lemma get_put_sequence:
  "get_sequence (put_sequence m h i vals) h i (length vals) =
    (let k = (sl_len h - HEADER_SEQ_START_OFF) div 2 - i
     in take k vals @ replicate (length vals - k) 0)"
proof (induction m h i vals rule: put_sequence.induct)
  case (2 m h i val vals)
  show ?case
  proof (cases "HEADER_SEQ_START_OFF + i * 2 + 2 > sl_len h")
    case True
    then have "(sl_len h - HEADER_SEQ_START_OFF) div 2 - i = 0" by (simp add: offset_consts)
    with True show ?thesis by simp
  next
    case False
    let ?p = "slice_ptr h (HEADER_SEQ_START_OFF + i * 2)"
    let ?m = "store16 m ?p val"
    have "mem_read (put_sequence ?m h (Suc i) vals) (fst ?p) (snd ?p) 2 = mem_read ?m (fst ?p) (snd ?p) 2"
      by (rule put_sequence_frame) (simp add: apart_def offset_consts)
    then have "load16 (put_sequence ?m h (Suc i) vals) ?p = val"
      by (simp add: load16_def store16_def mem_read_write_same le_word_roundtrip)
    moreover have "(sl_len h - HEADER_SEQ_START_OFF) div 2 - i
        = Suc ((sl_len h - HEADER_SEQ_START_OFF) div 2 - Suc i)"
      using False by (simp add: offset_consts)
    ultimately show ?thesis using "2.IH" False by simp
  qed
qed simp

lemma UpdateStripeHeader_Some:
  assumes "Blocks s \<noteq> []" and "8 \<le> sl_len (hd (Blocks s))"
  shows "UpdateStripeHeader m s =
    (let h = hd (Blocks s);
         m1 = store32 m (slice_ptr h 0) (DataLen s);
         m2 = store16 m1 (slice_ptr h 4) (word_of_int (BlockCount s));
         m3 = store16 m2 (slice_ptr h 6) (of_nat (length (Sequence s)))
     in Some (put_sequence m3 h 0 (Sequence s)))"
  using assms
  by (simp add: UpdateStripeHeader_def hd_conv_nth PutUint32_def PutUint16_def offset_consts Let_def)

lemma UpdateStripeHeader_frame:
  assumes "UpdateStripeHeader m s = Some m'"
    and "r \<noteq> sl_region (hd (Blocks s)) \<or> i < sl_off (hd (Blocks s))
      \<or> sl_off (hd (Blocks s)) + sl_len (hd (Blocks s)) \<le> i"
  shows "m' r i = m r i"
proof -
  let ?h = "hd (Blocks s)"
  have ne: "Blocks s \<noteq> []" and len: "8 \<le> sl_len ?h"
    using assms(1) by (cases "Blocks s",
      auto simp: UpdateStripeHeader_def go_nth_def PutUint32_def PutUint16_def offset_consts split: if_splits)+
  define m3 where "m3 = store16 (store16 (store32 m (slice_ptr ?h 0) (DataLen s))
    (slice_ptr ?h 4) (word_of_int (BlockCount s))) (slice_ptr ?h 6) (of_nat (length (Sequence s)))"
  have "m' = put_sequence m3 ?h 0 (Sequence s)"
    using assms(1) UpdateStripeHeader_Some[OF ne len, of m] by (simp add: m3_def Let_def)
  moreover have "mem_read (put_sequence m3 ?h 0 (Sequence s)) (fst (r, i)) (snd (r, i)) 1
      = mem_read m3 (fst (r, i)) (snd (r, i)) 1"
    by (rule put_sequence_frame) (use assms(2) len in \<open>auto simp: apart_def\<close>)
  moreover have "m3 r i = m r i"
    using assms(2) len by (auto simp: m3_def access_defs mem_write_other)
  ultimately show ?thesis by (simp add: mem_read_def)
qed

lemma UpdateStripeHeader_dataLen:
  assumes "Blocks s \<noteq> []" and "8 \<le> sl_len (hd (Blocks s))" and "UpdateStripeHeader m s = Some m'"
  shows "load32 m' (slice_ptr (hd (Blocks s)) 0) = DataLen s"
proof -
  let ?h = "hd (Blocks s)"
  define m3 where "m3 = store16 (store16 (store32 m (slice_ptr ?h 0) (DataLen s)) (slice_ptr ?h 4) (word_of_int (BlockCount s)))
    (slice_ptr ?h 6) (of_nat (length (Sequence s)))"
  have "m' = put_sequence m3 ?h 0 (Sequence s)"
    using assms UpdateStripeHeader_Some[OF assms(1,2), of m] by (simp add: m3_def Let_def)
  then have "mem_read m' (sl_region ?h) (sl_off ?h) 4 = mem_read m3 (sl_region ?h) (sl_off ?h) 4"
    using put_sequence_frame[of "slice_ptr ?h 0" 4 ?h 0 m3 "Sequence s"] by (simp add: apart_def)
  then show ?thesis
    by (simp add: load32_def m3_def store16_def store32_def mem_read_write_disj mem_read_write_same le_word_roundtrip)
qed

lemma DecodeHeader_UpdateStripeHeader:
  assumes "Blocks s \<noteq> []" and "sl_len (hd (Blocks s)) = BlockSize"
    and "0 \<le> BlockCount s" and "BlockCount s < 65536" and "length (Sequence s) < 65536"
  obtains m' where "UpdateStripeHeader m s = Some m'"
    and "DecodeHeader m' (hd (Blocks s)) = Some (DataLen s, BlockCount s,
      take seq_capacity (Sequence s) @ replicate (length (Sequence s) - seq_capacity) 0)"
proof -
  let ?h = "hd (Blocks s)" and ?seq = "Sequence s"
  define m1 where "m1 = store32 m (slice_ptr ?h 0) (DataLen s)"
  define m2 where "m2 = store16 m1 (slice_ptr ?h 4) (word_of_int (BlockCount s))"
  define m3 where "m3 = store16 m2 (slice_ptr ?h 6) (of_nat (length ?seq))"
  let ?m' = "put_sequence m3 ?h 0 ?seq"
  have upd: "UpdateStripeHeader m s = Some ?m'"
    using assms by (simp add: UpdateStripeHeader_Some m1_def m2_def m3_def size_consts Let_def)
  have keep: "mem_read ?m' (sl_region ?h) (sl_off ?h + i) n = mem_read m3 (sl_region ?h) (sl_off ?h + i) n"
    if "i + n \<le> 8" for i n
    using put_sequence_frame[of "slice_ptr ?h i" n ?h 0 m3 ?seq] that by (simp add: apart_def)
  have dl: "load32 ?m' (slice_ptr ?h 0) = DataLen s"
    using keep[of 0 4] by (simp add: load32_def m3_def m2_def m1_def store16_def store32_def
        mem_read_write_disj mem_read_write_same le_word_roundtrip)
  have bc: "load16 ?m' (slice_ptr ?h 4) = word_of_int (BlockCount s)"
    using keep[of 4 2] by (simp add: load16_def m3_def m2_def store16_def
        mem_read_write_disj mem_read_write_same le_word_roundtrip)
  have sl: "load16 ?m' (slice_ptr ?h 6) = of_nat (length ?seq)"
    using keep[of 6 2] by (simp add: load16_def m3_def store16_def mem_read_write_same le_word_roundtrip)
  have "uint (word_of_int (BlockCount s) :: uint16) = BlockCount s"
    using assms(3,4) by (simp add: uint_word_of_int)
  moreover have "unat (of_nat (length ?seq) :: uint16) = length ?seq"
    using assms(5) by (simp add: unat_of_nat)
  ultimately have "DecodeHeader ?m' ?h = Some (DataLen s, BlockCount s,
      take seq_capacity ?seq @ replicate (length ?seq - seq_capacity) 0)"
    using dl bc sl assms(2) get_put_sequence[of m3 ?h 0 ?seq]
    by (simp add: DecodeHeader_def Uint32_at_def Uint16_at_def offset_consts BlockSize_def
        seq_capacity_def Let_def)
  with upd show ?thesis by (rule that)
qed

subsection \<open>Address arithmetic\<close>

lemma sint_small: "n < 32768 \<Longrightarrow> sint (of_nat n :: int16) = int n"
  by (simp add: signed_of_nat signed_take_bit_int_eq_self)

lemma sint_not16: "sint (NOT (w :: int16)) = - 1 - sint w"
proof -
  have "- 32768 \<le> sint w" "sint w < 32768" using sint_ge[of w] sint_lt[of w] by simp_all
  then have "signed_take_bit 16 (- 1 - sint w) = - 1 - sint w" by (intro signed_take_bit_int_eq_self) simp_all
  moreover have "NOT (sint w) = - 1 - sint w" by (simp add: not_eq_complement)
  ultimately show ?thesis by (simp only: signed_not_eq) simp
qed

lemma ucast_of_nat16: "n < 2 ^ 64 \<Longrightarrow> (ucast (of_nat n :: uint64) :: int16) = of_nat n"
  by (simp add: unsigned_of_nat take_bit_nat_eq_self)

lemma ParseBlockAddress_of_nat:
  assumes "a < 33554432"
  shows "ParseBlockAddress (of_nat a) = (NOT (of_nat (a div 1024)), of_nat (a mod 1024))"
proof -
  have "unat (of_nat a :: uint64) = a" using assms by (simp add: unat_of_nat)
  then have "(of_nat a :: uint64) div 1024 = of_nat (a div 1024)" "(of_nat a :: uint64) mod 1024 = of_nat (a mod 1024)"
    by (simp_all add: word_unat_eq_iff unat_div unat_mod unat_of_nat)
  then show ?thesis using assms by (simp add: ParseBlockAddress_def ucast_of_nat16)
qed

lemma GetBlockAddress_of_nat:
  "c < 32768 \<Longrightarrow> b < 32768 \<Longrightarrow> GetBlockAddress (NOT (of_nat c)) (of_nat b) = int (c * 1024 + b)"
  by (simp add: GetBlockAddress_def sint_small BlocksPerChunk_def)

lemma int16_nonneg_of_nat:
  assumes "0 \<le> sint (w :: int16)"
  obtains n where "n < 32768" "w = of_nat n" "sint w = int n"
proof -
  have "sint w < 32768" using sint_lt[of w] by simp
  moreover have "w = word_of_int (sint w)" by simp
  ultimately show ?thesis using assms by (intro that[of "nat (sint w)"]) auto
qed

subsection \<open>Properties\<close>

text \<open>C28: The header block is a faithful carrier of the stripe's metadata. After \<open>UpdateStripeHeader\<close>,
  \<open>DecodeHeader\<close> of the header block returns the data length, the block count and the sequence,
  provided the sequence fits the block (2044 entries), and no byte outside the header block has
  changed.\<close>

theorem header_roundtrip:
  assumes "Blocks s \<noteq> []" and "sl_len (hd (Blocks s)) = BlockSize"
    and "0 \<le> BlockCount s" and "BlockCount s < 65536" and "length (Sequence s) \<le> seq_capacity"
  shows "\<exists>m'. UpdateStripeHeader m s = Some m'
    \<and> DecodeHeader m' (hd (Blocks s)) = Some (DataLen s, BlockCount s, Sequence s)
    \<and> (\<forall>r i. r \<noteq> sl_region (hd (Blocks s)) \<or> i < sl_off (hd (Blocks s)) \<or> sl_off (hd (Blocks s)) + BlockSize \<le> i
          \<longrightarrow> m' r i = m r i)"
proof -
  have "length (Sequence s) < 65536" using assms(5) by (simp add: seq_capacity_eq)
  then obtain m' where m': "UpdateStripeHeader m s = Some m'"
    "DecodeHeader m' (hd (Blocks s)) = Some (DataLen s, BlockCount s,
      take seq_capacity (Sequence s) @ replicate (length (Sequence s) - seq_capacity) 0)"
    by (rule DecodeHeader_UpdateStripeHeader[OF assms(1-4)])
  then show ?thesis
    using assms(2,5) UpdateStripeHeader_frame[OF m'(1)] by (intro exI[of _ m']) simp
qed

definition ex_header :: stripe where
  "ex_header = \<lparr>Sequence = [NOT 0, 3, 5], BlockCount = 2,
     Blocks = [\<lparr>sl_region = 0, sl_off = 12288, sl_len = 4096\<rparr>, \<lparr>sl_region = 0, sl_off = 20480, sl_len = 4096\<rparr>],
     DataLen = 77\<rparr>"

theorem header_roundtrip_witness:
  "\<exists>m'. UpdateStripeHeader (\<lambda>r i. 0) ex_header = Some m'
    \<and> DecodeHeader m' (hd (Blocks ex_header)) = Some (77, 2, [NOT 0, 3, 5])"
  using header_roundtrip[of ex_header "\<lambda>r i. 0"] by (auto simp: ex_header_def BlockSize_def seq_capacity_eq)

text \<open>C29: A sequence that does not fit the header block is not detected: the entries past the 2044th
  are silently dropped by \<open>UpdateStripeHeader\<close>, while the stored length still counts them, and
  \<open>DecodeHeader\<close> returns zeros in their place, that is, block 0 of the last chunk again and again.\<close>

theorem header_overflow_reads_zero:
  assumes "Blocks s \<noteq> []" and "sl_len (hd (Blocks s)) = BlockSize"
    and "0 \<le> BlockCount s" and "BlockCount s < 65536"
    and "seq_capacity < length (Sequence s)" and "length (Sequence s) < 65536"
  shows "\<exists>m' seq. UpdateStripeHeader m s = Some m'
    \<and> DecodeHeader m' (hd (Blocks s)) = Some (DataLen s, BlockCount s, seq)
    \<and> length seq = length (Sequence s) \<and> take seq_capacity seq = take seq_capacity (Sequence s)
    \<and> (\<forall>i. seq_capacity \<le> i \<longrightarrow> i < length seq \<longrightarrow> seq ! i = 0)"
proof -
  obtain m' where "UpdateStripeHeader m s = Some m'"
    "DecodeHeader m' (hd (Blocks s)) = Some (DataLen s, BlockCount s,
      take seq_capacity (Sequence s) @ replicate (length (Sequence s) - seq_capacity) 0)"
    by (rule DecodeHeader_UpdateStripeHeader[OF assms(1-4,6)])
  then show ?thesis using assms(5) by (auto simp: nth_append intro!: exI[of _ m'])
qed

theorem header_overflow_reads_zero_witness:
  "\<exists>m' seq. UpdateStripeHeader (\<lambda>r i. 0) (ex_header\<lparr>Sequence := replicate 2045 9, BlockCount := 2044\<rparr>) = Some m'
    \<and> DecodeHeader m' (hd (Blocks ex_header)) = Some (77, 2044, seq) \<and> seq ! 2044 = 0"
  using header_overflow_reads_zero[of "ex_header\<lparr>Sequence := replicate 2045 9, BlockCount := 2044\<rparr>" "\<lambda>r i. 0"]
  by (auto simp: ex_header_def BlockSize_def seq_capacity_eq)

text \<open>Block addresses and (chunk ID, block index) pairs are in one-to-one correspondence: parsing an
  address and recomputing it gives it back, for every address the bus can have, and so does the
  converse for every negative chunk ID and block index below 1024.\<close>

theorem block_address_roundtrip:
  "(a < 33554432 \<longrightarrow> (case ParseBlockAddress (of_nat a) of (c, b) \<Rightarrow> GetBlockAddress c b = int a \<and> sint c < 0))
   \<and> (sint cid < 0 \<longrightarrow> 0 \<le> sint bidx \<longrightarrow> sint bidx < 1024 \<longrightarrow>
        ParseBlockAddress (word_of_int (GetBlockAddress cid bidx)) = (cid, bidx))"
proof (intro conjI impI)
  assume a: "a < 33554432"
  then have "a div 1024 < 32768" "a mod 1024 < 32768" by (simp, simp add: less_trans[of _ 1024])
  then show "case ParseBlockAddress (of_nat a) of (c, b) \<Rightarrow> GetBlockAddress c b = int a \<and> sint c < 0"
    using sint_small[of "a div 1024"] by (simp add: ParseBlockAddress_of_nat[OF a] GetBlockAddress_of_nat sint_not16)
next
  assume c: "sint cid < 0" and b: "0 \<le> sint bidx" "sint bidx < 1024"
  have "0 \<le> sint (NOT cid)" using c by (simp add: sint_not16)
  then obtain n where n: "n < 32768" "NOT cid = of_nat n" by (rule int16_nonneg_of_nat)
  from b(1) obtain k where k: "bidx = of_nat k" "sint bidx = int k" "k < 32768" by (metis int16_nonneg_of_nat)
  have cid: "cid = NOT (of_nat n)" using n(2) by (metis bit.double_compl)
  have "ParseBlockAddress (of_nat (n * 1024 + k)) = (cid, bidx)"
    using n(1) b(2) k by (subst ParseBlockAddress_of_nat) (simp_all add: cid)
  then show "ParseBlockAddress (word_of_int (GetBlockAddress cid bidx)) = (cid, bidx)"
    using GetBlockAddress_of_nat[OF n(1) k(3)] cid k(1) by simp
qed

theorem block_address_roundtrip_witness:
  "GetBlockAddress (fst (ParseBlockAddress 5000)) (snd (ParseBlockAddress 5000)) = 5000
   \<and> ParseBlockAddress (word_of_int (GetBlockAddress (NOT 3) 7)) = (NOT 3, 7)"
  using block_address_roundtrip[of 5000 "NOT 3" 7] by (simp add: case_prod_beta)

end
