(* ===== verification/Stripe_IO.thy ===== *)
theory Stripe_IO
  imports Protocol
begin

text \<open>
  \<^verbatim>\<open>go/shm/stripe.go\<close>, the part of it that reads and writes the data of a stripe.

  A stripe is a list of 4 KB blocks; block 0 is the header, the data starts at block 1. The
  operations take the shared memory and the stripe and return both updated; the outer
  \<open>option\<close> is a Go panic. \<open>cell\<close> reads byte \<open>i\<close> of the concatenated blocks and \<open>contents\<close> is
  the data of the stripe; the lemmas relate every operation to them.
\<close>

subsection \<open>Operations\<close>

text \<open>\<open>GetPointer\<close>: the outer \<open>None\<close> is the panic of indexing an empty block, the inner one is \<open>nil\<close>.\<close>

definition GetPointer :: "stripe \<Rightarrow> nat \<Rightarrow> pointer option option" where
  "GetPointer s offset =
     (let bIdx = offset div BlockSize in
      if length (Blocks s) \<le> bIdx then Some None
      else let innerOff = offset mod BlockSize; b = Blocks s ! bIdx in
        if innerOff < sl_len b then Some (Some (slice_ptr b innerOff)) else None)"

definition updateDataLen :: "mem \<Rightarrow> stripe \<Rightarrow> uint32 \<Rightarrow> (mem \<times> stripe) option" where
  "updateDataLen m s newLen = do {
     b \<leftarrow> go_nth (Blocks s) 0;
     if sl_len b \<le> HEADER_DATA_LEN_OFF then None
     else Some (store32 m (slice_ptr b HEADER_DATA_LEN_OFF) newLen, s\<lparr>DataLen := newLen\<rparr>)
   }"

definition Truncate :: "mem \<Rightarrow> stripe \<Rightarrow> uint32 \<Rightarrow> (mem \<times> stripe) option" where
  "Truncate m s newLen =
     (if newLen > DataLen s then Some (m, s) else updateDataLen m s newLen)"

text \<open>\<open>copy(p[n:n+len], src)\<close> into a private buffer.\<close>

definition buf_copy :: "byte list \<Rightarrow> int \<Rightarrow> byte list \<Rightarrow> byte list option" where
  "buf_copy p n src =
     (if 0 \<le> n \<and> n + int (length src) \<le> int (length p)
      then Some (take (nat n) p @ src @ drop (nat n + length src) p) else None)"

lemma smod_lt: "0 < b \<Longrightarrow> (a::int) smod b < b"
proof (cases "0 \<le> a")
  case False
  assume "0 < b"
  with False have "a smod b = - ((- a) mod b)"
    by (simp add: signed_modulo_int_def minus_div_mult_eq_mod[symmetric])
  moreover have "0 \<le> (- a) mod b" using \<open>0 < b\<close> by simp
  ultimately show ?thesis using \<open>0 < b\<close> by linarith
qed simp

function read_loop ::
  "mem \<Rightarrow> slice list \<Rightarrow> byte list \<Rightarrow> int \<Rightarrow> int \<Rightarrow> int \<Rightarrow> (byte list \<times> int \<times> go_error option) option" where
  "read_loop m blks p n off remaining =
     (if remaining > 0 then
        let bIdx = off sdiv int BlockSize in
        if bIdx \<ge> int (length blks) then Some (p, n, Some EOF)
        else
          let innerOff = off smod int BlockSize;
              avail = int BlockSize - innerOff;
              copyLen = (if avail > remaining then remaining else avail)
          in do {
            blk \<leftarrow> go_nth blks bIdx;
            src \<leftarrow> go_slice blk innerOff (innerOff + copyLen);
            p' \<leftarrow> buf_copy p n (slice_bytes m src);
            read_loop m blks p' (n + copyLen) (off + copyLen) (remaining - copyLen)
          }
      else Some (p, n, None))"
  by pat_completeness auto
termination
  by (relation "measure (\<lambda>(m, blks, p, n, off, remaining). nat remaining)")
     (use smod_lt[of "int BlockSize"] in \<open>auto simp: BlockSize_def\<close>)

definition ReadAt :: "mem \<Rightarrow> stripe \<Rightarrow> byte list \<Rightarrow> int \<Rightarrow> (byte list \<times> int \<times> go_error option) option" where
  "ReadAt m s p off =
     (if off < 0 then Some (p, 0, Some NegativeOffset)
      else if off \<ge> uint (DataLen s) then Some (p, 0, Some EOF)
      else
        let remaining = int (length p);
            remaining = (if off + remaining > uint (DataLen s) then uint (DataLen s) - off else remaining)
        in read_loop m (Blocks s) p 0 (off + int BlockSize) remaining)"

definition ReadByteAt :: "mem \<Rightarrow> stripe \<Rightarrow> int \<Rightarrow> (byte \<times> go_error option) option" where
  "ReadByteAt m s off =
     (if off < 0 \<or> off \<ge> uint (DataLen s) then
        (if off < 0 then Some (0, Some NegativeOffset) else Some (0, Some EOF))
      else
        let off = off + int BlockSize; bIdx = off sdiv int BlockSize in
        if bIdx \<ge> int (length (Blocks s)) then Some (0, Some EOF)
        else do {
          blk \<leftarrow> go_nth (Blocks s) bIdx;
          b \<leftarrow> slice_get m blk (off smod int BlockSize);
          Some (b, None)
        })"

function write_loop ::
  "mem \<Rightarrow> slice list \<Rightarrow> byte list \<Rightarrow> int \<Rightarrow> int \<Rightarrow> int \<Rightarrow> (mem \<times> int \<times> int \<times> go_error option) option" where
  "write_loop m blks p n off remaining =
     (if remaining > 0 then
        let bIdx = off sdiv int BlockSize in
        if bIdx \<ge> int (length blks) then Some (m, n, off, Some CapacityExceeded)
        else
          let innerOff = off smod int BlockSize;
              avail = int BlockSize - innerOff;
              copyLen = (if avail > remaining then remaining else avail)
          in do {
            blk \<leftarrow> go_nth blks bIdx;
            dst \<leftarrow> go_slice blk innerOff (innerOff + copyLen);
            write_loop (slice_store m dst (take (nat copyLen) (drop (nat n) p))) blks p
              (n + copyLen) (off + copyLen) (remaining - copyLen)
          }
      else Some (m, n, off, None))"
  by pat_completeness auto
termination
  by (relation "measure (\<lambda>(m, blks, p, n, off, remaining). nat remaining)")
     (use smod_lt[of "int BlockSize"] in \<open>auto simp: BlockSize_def\<close>)

text \<open>The deferred function of \<open>WriteAt\<close> sees the advanced \<open>off\<close>.\<close>

definition WriteAt :: "mem \<Rightarrow> stripe \<Rightarrow> byte list \<Rightarrow> int \<Rightarrow> (mem \<times> stripe \<times> int \<times> go_error option) option" where
  "WriteAt m s p off =
     (if off < 0 then Some (m, s, 0, Some NegativeOffset)
      else do {
        (m, n, off, err) \<leftarrow> write_loop m (Blocks s) p 0 (i64 (off + int BlockSize)) (int (length p));
        (m, s) \<leftarrow>
          (if n > 0 then
             let newEnd = word_of_int (off - int BlockSize) :: uint32 in
             if newEnd > DataLen s then updateDataLen m s newEnd else Some (m, s)
           else Some (m, s));
        Some (m, s, n, err)
      })"

definition WriteByteAt :: "mem \<Rightarrow> stripe \<Rightarrow> byte \<Rightarrow> int \<Rightarrow> (mem \<times> stripe \<times> go_error option) option" where
  "WriteByteAt m s b off =
     (if off < 0 then Some (m, s, Some NegativeOffset)
      else
        let off = i64 (off + int BlockSize); bIdxInt = off sdiv int BlockSize in
        if bIdxInt \<ge> int (length (Blocks s)) then Some (m, s, Some CapacityExceeded)
        else do {
          blk \<leftarrow> go_nth (Blocks s) bIdxInt;
          m \<leftarrow> slice_set m blk (off smod int BlockSize) b;
          (m, s) \<leftarrow>
            (let newEnd = word_of_int (off - int BlockSize + 1) :: uint32 in
             if newEnd > DataLen s then updateDataLen m s newEnd else Some (m, s));
          Some (m, s, None)
        })"

declare read_loop.simps [simp del] write_loop.simps [simp del]

subsection \<open>Bytes of a block list\<close>

definition block_ok :: "slice \<Rightarrow> bool" where
  "block_ok b \<longleftrightarrow> sl_len b = BlockSize \<and> BlockSize dvd sl_off b"

definition blocks_wf :: "slice list \<Rightarrow> bool" where
  "blocks_wf blks \<longleftrightarrow> list_all block_ok blks \<and> distinct blks"

definition span :: "slice list \<Rightarrow> nat" where
  "span blks = BlockSize * length blks"

definition cell :: "mem \<Rightarrow> slice list \<Rightarrow> nat \<Rightarrow> byte" where
  "cell m blks i =
     m (sl_region (blks ! (i div BlockSize))) (sl_off (blks ! (i div BlockSize)) + i mod BlockSize)"

text \<open>The address \<open>(r, i)\<close> belongs to one of the blocks.\<close>

definition covers :: "slice list \<Rightarrow> nat \<Rightarrow> nat \<Rightarrow> bool" where
  "covers blks r i \<longleftrightarrow> list_ex (\<lambda>b. sl_region b = r \<and> sl_off b \<le> i \<and> i < sl_off b + sl_len b) blks"

lemma blocks_wf_nth: "blocks_wf blks \<Longrightarrow> k < length blks \<Longrightarrow> block_ok (blks ! k)"
  by (simp add: blocks_wf_def list_all_length)

lemma block_ok_len [simp]: "block_ok b \<Longrightarrow> sl_len b = BlockSize"
  by (simp add: block_ok_def)

lemma span_div: "i < span blks \<Longrightarrow> i div BlockSize < length blks"
  by (simp add: span_def less_mult_imp_div_less mult.commute)

text \<open>Two distinct aligned blocks do not overlap.\<close>

lemma blocks_apart:
  assumes "block_ok b" "block_ok c" "b \<noteq> c"
  shows "sl_region b \<noteq> sl_region c \<or> sl_off b + BlockSize \<le> sl_off c \<or> sl_off c + BlockSize \<le> sl_off b"
proof -
  obtain j k where "sl_off b = BlockSize * j" "sl_off c = BlockSize * k"
    using assms by (auto simp: block_ok_def elim!: dvdE)
  moreover have "sl_region b \<noteq> sl_region c \<or> sl_off b \<noteq> sl_off c"
    using assms by (auto simp: block_ok_def)
  ultimately show ?thesis by (auto simp: BlockSize_def)
qed

lemma blocks_wf_apart:
  assumes "blocks_wf blks" "j < length blks" "k < length blks" "j \<noteq> k"
  shows "sl_region (blks ! j) \<noteq> sl_region (blks ! k)
    \<or> sl_off (blks ! j) + BlockSize \<le> sl_off (blks ! k) \<or> sl_off (blks ! k) + BlockSize \<le> sl_off (blks ! j)"
proof (rule blocks_apart)
  show "blks ! j \<noteq> blks ! k" using assms by (simp add: blocks_wf_def nth_eq_iff_index_eq)
qed (use assms blocks_wf_nth in auto)

lemma block_index_cases:
  fixes i k lo n :: nat
  assumes "lo + n \<le> B" "0 < B"
  shows "B * k + lo \<le> i \<and> i < B * k + lo + n \<longleftrightarrow> i div B = k \<and> lo \<le> i mod B \<and> i mod B < lo + n"
proof
  assume a: "B * k + lo \<le> i \<and> i < B * k + lo + n"
  then obtain d where d: "i = B * k + d" "lo \<le> d" "d < lo + n"
    by (metis add_le_cancel_left group_cancel.add1 le_add1 le_iff_add le_trans nat_add_left_cancel_less)
  with assms have "d < B" by simp
  with d assms show "i div B = k \<and> lo \<le> i mod B \<and> i mod B < lo + n" by simp
next
  assume "i div B = k \<and> lo \<le> i mod B \<and> i mod B < lo + n"
  moreover have "i = B * (i div B) + i mod B" by simp
  ultimately show "B * k + lo \<le> i \<and> i < B * k + lo + n" by (metis add.assoc nat_add_left_cancel_le nat_add_left_cancel_less)
qed

lemma cell_write_block:
  assumes wf: "blocks_wf blks" and k: "k < length blks" and len: "lo + length bs \<le> BlockSize"
    and i: "i < span blks"
  shows "cell (mem_write m (sl_region (blks ! k)) (sl_off (blks ! k) + lo) bs) blks i =
    (if BlockSize * k + lo \<le> i \<and> i < BlockSize * k + lo + length bs
     then bs ! (i - (BlockSize * k + lo)) else cell m blks i)"
proof (cases "i div BlockSize = k")
  case True
  then have eq: "i = BlockSize * k + i mod BlockSize" by (metis mult_div_mod_eq)
  then have "i - (BlockSize * k + lo) = i mod BlockSize - lo"
    by (metis add_diff_cancel_left' diff_diff_left)
  with True show ?thesis
    using block_index_cases[OF len, of k i] by (auto simp: cell_def mem_write_def BlockSize_def Let_def)
next
  case False
  have "i div BlockSize < length blks" using i by (rule span_div)
  from blocks_wf_apart[OF wf this k False] False len
  show ?thesis
    using block_index_cases[OF len, of k i]
    by (auto simp: cell_def mem_write_def BlockSize_def Let_def)
qed

lemma covers_cell: "blocks_wf blks \<Longrightarrow> covers blks r i \<Longrightarrow>
  \<exists>j < span blks. r = sl_region (blks ! (j div BlockSize)) \<and> i = sl_off (blks ! (j div BlockSize)) + j mod BlockSize"
proof -
  assume wf: "blocks_wf blks" and "covers blks r i"
  then obtain k where k: "k < length blks" "sl_region (blks ! k) = r" "sl_off (blks ! k) \<le> i"
    "i < sl_off (blks ! k) + BlockSize"
    by (auto simp: covers_def list_ex_length dest: blocks_wf_nth)
  then obtain d where d: "i = sl_off (blks ! k) + d" "d < BlockSize"
    by (metis le_iff_add nat_add_left_cancel_less)
  let ?j = "BlockSize * k + d"
  have "?j div BlockSize = k" "?j mod BlockSize = d"
    using d by (simp_all add: BlockSize_def)
  moreover have "?j < span blks" using k d by (simp add: span_def BlockSize_def)
  ultimately show ?thesis using k d by (intro exI[of _ ?j]) auto
qed

lemma write_block_frame:
  assumes "blocks_wf blks" "k < length blks" "lo + length bs \<le> BlockSize" "\<not> covers blks r i"
  shows "mem_write m (sl_region (blks ! k)) (sl_off (blks ! k) + lo) bs r i = m r i"
proof (rule mem_write_other, rule ccontr)
  assume "\<not> (r \<noteq> sl_region (blks ! k) \<or> i < sl_off (blks ! k) + lo \<or> sl_off (blks ! k) + lo + length bs \<le> i)"
  then have "sl_region (blks ! k) = r \<and> sl_off (blks ! k) \<le> i \<and> i < sl_off (blks ! k) + sl_len (blks ! k)"
    using assms(3) blocks_wf_nth[OF assms(1,2)] by auto
  with assms(2,4) show False by (auto simp: covers_def list_ex_length)
qed

subsection \<open>The loops\<close>

lemma div_mod_run:
  fixes off i B :: nat
  assumes "off mod B + i < B"
  shows "(off + i) div B = off div B" "(off + i) mod B = off mod B + i"
proof -
  have "i < B" using assms by simp
  then show "(off + i) div B = off div B" using assms by (simp add: div_add1_eq[of off i B])
  show "(off + i) mod B = off mod B + i" using assms by (metis mod_add_left_eq mod_less)
qed

lemma cell_run:
  assumes "off mod BlockSize + c \<le> BlockSize"
  shows "mem_read m (sl_region (blks ! (off div BlockSize))) (sl_off (blks ! (off div BlockSize)) + off mod BlockSize) c
    = map (cell m blks) [off..<off + c]"
proof (rule nth_equalityI)
  fix i assume "i < length (mem_read m (sl_region (blks ! (off div BlockSize)))
    (sl_off (blks ! (off div BlockSize)) + off mod BlockSize) c)"
  then have "i < c" by simp
  moreover from this have "(off + i) div BlockSize = off div BlockSize" "(off + i) mod BlockSize = off mod BlockSize + i"
    using assms by (simp_all add: div_mod_run)
  ultimately show "mem_read m (sl_region (blks ! (off div BlockSize)))
    (sl_off (blks ! (off div BlockSize)) + off mod BlockSize) c ! i = map (cell m blks) [off..<off + c] ! i"
    by (simp add: cell_def add.assoc)
qed simp

definition step_len :: "nat \<Rightarrow> nat \<Rightarrow> nat" where
  "step_len off rem = min rem (BlockSize - off mod BlockSize)"

lemma step_len_bounds:
  "0 < rem \<Longrightarrow> 0 < step_len off rem" "step_len off rem \<le> rem"
  "off mod BlockSize + step_len off rem \<le> BlockSize"
  by (auto simp: step_len_def BlockSize_def)

lemma step_len_span: "off < span blks \<Longrightarrow> off + step_len off rem \<le> span blks"
proof -
  assume "off < span blks"
  then have "Suc (off div BlockSize) \<le> length blks" using span_div[of off blks] by simp
  then have "BlockSize * (off div BlockSize) + BlockSize \<le> span blks"
    using mult_le_mono2[of "Suc (off div BlockSize)" "length blks" BlockSize] by (simp add: span_def)
  moreover have "BlockSize * (off div BlockSize) + off mod BlockSize = off" by simp
  moreover have "off mod BlockSize + step_len off rem \<le> BlockSize" by (rule step_len_bounds)
  ultimately show ?thesis by linarith
qed

lemma off_split:
  "int off sdiv int BlockSize = int (off div BlockSize)"
  "int off smod int BlockSize = int (off mod BlockSize)"
  by (simp_all add: BlockSize_def zdiv_int zmod_int)

lemma copyLen_eq:
  "(if int rem < int BlockSize - int (off mod BlockSize) then int rem
    else int BlockSize - int (off mod BlockSize)) = int (step_len off rem)"
proof -
  have "off mod BlockSize < BlockSize" by (simp add: BlockSize_def)
  then show ?thesis by (auto simp: step_len_def min_def of_nat_diff)
qed

lemma read_loop_end: "span blks \<le> off \<Longrightarrow> read_loop m blks p n (int off) (int rem) =
    Some (p, n, if rem = 0 then None else Some EOF)"
  by (auto simp: read_loop.simps[of m blks p n] span_def BlockSize_def Let_def)

lemma read_loop_step:
  assumes "blocks_wf blks" "off < span blks" "0 < rem" "n + rem \<le> length p"
  defines "c \<equiv> step_len off rem"
  shows "read_loop m blks p (int n) (int off) (int rem) =
    read_loop m blks (take n p @ map (cell m blks) [off..<off + c] @ drop (n + c) p)
      (int (n + c)) (int (off + c)) (int (rem - c))"
proof -
  have k: "off div BlockSize < length blks" using assms(2) by (rule span_div)
  have c: "0 < c" "c \<le> rem" "off mod BlockSize + c \<le> BlockSize"
    using assms(3) by (simp_all add: c_def step_len_bounds)
  have bs: "slice_bytes m \<lparr>sl_region = sl_region (blks ! (off div BlockSize)),
      sl_off = sl_off (blks ! (off div BlockSize)) + off mod BlockSize, sl_len = c\<rparr> = map (cell m blks) [off..<off + c]"
    using cell_run[OF c(3)] by (simp add: slice_bytes_def)
  show ?thesis
    using assms(3,4) k c blocks_wf_nth[OF assms(1) k]
    by (subst read_loop.simps)
       (simp add: Let_def off_split copyLen_eq c_def[symmetric] go_slice_def bs buf_copy_def nat_add_distrib
          of_nat_diff)
qed

lemma read_loop_spec:
  assumes "blocks_wf blks" "n + rem \<le> length p"
  shows "read_loop m blks p (int n) (int off) (int rem) =
    (let k = min rem (span blks - off) in
     Some (take n p @ map (cell m blks) [off..<off + k] @ drop (n + k) p, int (n + k),
       if k < rem then Some EOF else None))"
  using assms(2)
proof (induction rem arbitrary: n off p rule: less_induct)
  case (less rem)
  show ?case
  proof (cases "off < span blks \<and> 0 < rem")
    case False
    then show ?thesis
      using read_loop_end[of blks off m p "int n" rem] read_loop.simps[of m blks p "int n" "int off" "int rem"]
      by (auto simp: Let_def)
  next
    case True
    let ?c = "step_len off rem"
    let ?p = "take n p @ map (cell m blks) [off..<off + ?c] @ drop (n + ?c) p"
    have c: "0 < ?c" "?c \<le> rem" "off + ?c \<le> span blks"
      using True by (simp_all add: step_len_bounds step_len_span)
    let ?k = "min (rem - ?c) (span blks - (off + ?c))"
    have p: "n + ?c + (rem - ?c) \<le> length ?p" "take (n + ?c) ?p = take n p @ map (cell m blks) [off..<off + ?c]"
      "drop (n + ?c + ?k) ?p = drop (n + ?c + ?k) p"
      using less.prems c by (simp, simp, simp add: ac_simps)
    have runs: "map (cell m blks) [off..<off + (?c + ?k)] =
        map (cell m blks) [off..<off + ?c] @ map (cell m blks) [off + ?c..<off + (?c + ?k)]"
      by (simp add: map_upt_append)
    have flag: "?k < rem - ?c \<longleftrightarrow> ?c + ?k < rem" by linarith
    have "read_loop m blks ?p (int (n + ?c)) (int (off + ?c)) (int (rem - ?c)) =
       Some (take (n + ?c) ?p @ map (cell m blks) [off + ?c..<off + ?c + ?k] @ drop (n + ?c + ?k) ?p, int (n + ?c + ?k),
         if ?k < rem - ?c then Some EOF else None)"
      using less.IH[of "rem - ?c" "n + ?c" ?p "off + ?c"] p(1) c True by (simp add: Let_def)
    then have "read_loop m blks p (int n) (int off) (int rem) =
       Some (take n p @ map (cell m blks) [off..<off + (?c + ?k)] @ drop (n + (?c + ?k)) p, int (n + (?c + ?k)),
         if ?c + ?k < rem then Some EOF else None)"
      using read_loop_step[OF assms(1), of off rem n p m] True less.prems runs flag
      unfolding p(2,3) by (simp only: append_assoc add.assoc simp_thms)
    moreover have "min rem (span blks - off) = ?c + ?k" using c by simp
    ultimately show ?thesis by (simp only: Let_def)
  qed
qed

lemma write_loop_end: "span blks \<le> off \<Longrightarrow> write_loop m blks p n (int off) (int rem) =
    Some (m, n, int off, if rem = 0 then None else Some CapacityExceeded)"
  by (auto simp: write_loop.simps[of m blks p n] span_def BlockSize_def Let_def)

lemma write_loop_step:
  assumes "blocks_wf blks" "off < span blks" "0 < rem" "n + rem \<le> length p"
  defines "c \<equiv> step_len off rem" and "b \<equiv> blks ! (off div BlockSize)"
  shows "write_loop m blks p (int n) (int off) (int rem) =
    write_loop (mem_write m (sl_region b) (sl_off b + off mod BlockSize) (take c (drop n p))) blks p
      (int (n + c)) (int (off + c)) (int (rem - c))"
proof -
  have k: "off div BlockSize < length blks" using assms(2) by (rule span_div)
  have c: "0 < c" "c \<le> rem" "off mod BlockSize + c \<le> BlockSize"
    using assms(3) by (simp_all add: c_def step_len_bounds)
  show ?thesis
    using assms(3,4) k c blocks_wf_nth[OF assms(1) k]
    by (subst write_loop.simps)
       (simp add: Let_def off_split copyLen_eq c_def[symmetric] b_def[symmetric] go_slice_def slice_store_def
          nat_add_distrib of_nat_diff)
qed

text \<open>What a write of \<open>k\<close> bytes of \<open>p\<close> (from \<open>n\<close>) at \<open>off\<close> does to the memory.\<close>

definition wrote :: "mem \<Rightarrow> mem \<Rightarrow> slice list \<Rightarrow> nat \<Rightarrow> byte list \<Rightarrow> bool" where
  "wrote m m' blks off bs \<longleftrightarrow>
     (\<forall>i < span blks. cell m' blks i = (if off \<le> i \<and> i < off + length bs then bs ! (i - off) else cell m blks i))
     \<and> (\<forall>r i. \<not> covers blks r i \<longrightarrow> m' r i = m r i)"

lemma wrote_refl: "wrote m m blks off []"
  by (auto simp: wrote_def)

lemma wrote_append:
  "wrote m m1 blks off bs \<Longrightarrow> wrote m1 m2 blks (off + length bs) cs \<Longrightarrow> wrote m m2 blks off (bs @ cs)"
  by (auto simp: wrote_def nth_append)

lemma wrote_block:
  assumes "blocks_wf blks" "off < span blks" "off mod BlockSize + length bs \<le> BlockSize"
  shows "wrote m (mem_write m (sl_region (blks ! (off div BlockSize)))
    (sl_off (blks ! (off div BlockSize)) + off mod BlockSize) bs) blks off bs"
  unfolding wrote_def
  using cell_write_block[OF assms(1) span_div[OF assms(2)] assms(3)]
    write_block_frame[OF assms(1) span_div[OF assms(2)] assms(3)]
  by (simp add: mult_div_mod_eq)

lemma write_loop_spec:
  fixes off :: nat
  assumes "blocks_wf blks" "n + rem \<le> length p"
  defines "k \<equiv> min rem (span blks - off)"
  obtains m' where "write_loop m blks p (int n) (int off) (int rem) =
      Some (m', int (n + k), int (off + k), if k < rem then Some CapacityExceeded else None)"
    and "wrote m m' blks off (take k (drop n p))"
proof -
  have "\<exists>m'. write_loop m blks p (int n) (int off) (int rem) =
      Some (m', int (n + min rem (span blks - off)), int (off + min rem (span blks - off)),
        if min rem (span blks - off) < rem then Some CapacityExceeded else None)
    \<and> wrote m m' blks off (take (min rem (span blks - off)) (drop n p))"
    using assms(2)
  proof (induction rem arbitrary: m n off rule: less_induct)
    case (less rem)
    show ?case
    proof (cases "off < span blks \<and> 0 < rem")
      case False
      then show ?thesis
        using write_loop_end[of blks off m p "int n" rem] write_loop.simps[of m blks p "int n" "int off" "int rem"]
        by (auto simp: wrote_refl)
    next
      case True
      let ?c = "step_len off rem" and ?b = "blks ! (off div BlockSize)"
      let ?m = "mem_write m (sl_region ?b) (sl_off ?b + off mod BlockSize) (take ?c (drop n p))"
      let ?k = "min (rem - ?c) (span blks - (off + ?c))"
      have c: "0 < ?c" "?c \<le> rem" "off + ?c \<le> span blks" "off mod BlockSize + ?c \<le> BlockSize"
        using True by (simp_all add: step_len_bounds step_len_span)
      obtain m' where m': "write_loop ?m blks p (int (n + ?c)) (int (off + ?c)) (int (rem - ?c)) =
          Some (m', int (n + ?c + ?k), int (off + ?c + ?k), if ?k < rem - ?c then Some CapacityExceeded else None)"
        "wrote ?m m' blks (off + ?c) (take ?k (drop (n + ?c) p))"
        using less.IH[of "rem - ?c" "n + ?c" ?m "off + ?c"] True c less.prems by auto
      have "wrote m ?m blks off (take ?c (drop n p))"
        using assms(1) True less.prems c by (intro wrote_block) auto
      then have "wrote m m' blks off (take ?c (drop n p) @ take ?k (drop (n + ?c) p))"
        by (rule wrote_append) (use m'(2) less.prems c in simp)
      moreover have "take ?c (drop n p) @ take ?k (drop (n + ?c) p) = take (?c + ?k) (drop n p)"
        by (simp add: take_add add.commute)
      moreover have "min rem (span blks - off) = ?c + ?k" using c by simp
      moreover have "?k < rem - ?c \<longleftrightarrow> ?c + ?k < rem" by linarith
      ultimately show ?thesis
        using write_loop_step[OF assms(1), of off rem n p m] True less.prems m'(1)
        by (intro exI[of _ m']) (simp add: add.assoc)
    qed
  qed
  then show ?thesis using that by (auto simp: k_def)
qed

end
