(* ===== verification/Stripe_Spec.thy ===== *)
theory Stripe_Spec
  imports Stripe_IO
begin

text \<open>
  What the stripe operations of \<^verbatim>\<open>go/shm/stripe.go\<close> promise.

  The abstract value of a stripe is a byte store: its \<open>region\<close> (all bytes of the data blocks)
  and the number of valid bytes. \<open>stripe_ok\<close> is the invariant: aligned, pairwise distinct
  blocks, valid bytes within the capacity, and a header word that agrees with \<open>DataLen\<close>.
  The locale \<open>byte_store\<close> states the laws of reading and writing at offsets over that value; its
  lemmas (reading back, disjoint accesses, appending) hold for every provider, and the stripe is
  one. They are not the contract of \<open>io.ReaderAt\<close>, which wants an error with every short read:
  \<open>ReadAt\<close> of a stripe returns none when the offset lies inside the data.
\<close>

subsection \<open>The contract of a byte store\<close>

definition overlay :: "'a list \<Rightarrow> nat \<Rightarrow> 'a list \<Rightarrow> 'a list" where
  "overlay xs off bs = take off xs @ bs @ drop (off + length bs) xs"

lemma length_overlay: "off + length bs \<le> length xs \<Longrightarrow> length (overlay xs off bs) = length xs"
  by (simp add: overlay_def)

lemma nth_overlay:
  "off + length bs \<le> length xs \<Longrightarrow> i < length xs \<Longrightarrow>
   overlay xs off bs ! i = (if off \<le> i \<and> i < off + length bs then bs ! (i - off) else xs ! i)"
  by (auto simp: overlay_def nth_append)

lemma overlay_inside: "off + length bs \<le> length xs \<Longrightarrow> take (length bs) (drop off (overlay xs off bs)) = bs"
  by (simp add: overlay_def)

lemma overlay_outside:
  assumes "off + length bs \<le> length xs" "a + n \<le> off \<or> off + length bs \<le> a" "a + n \<le> length xs"
  shows "take n (drop a (overlay xs off bs)) = take n (drop a xs)"
  using assms by (intro nth_equalityI) (auto simp: length_overlay nth_overlay)

locale byte_store =
  fixes inv :: "'s \<Rightarrow> bool"
    and region :: "'s \<Rightarrow> byte list"
    and size :: "'s \<Rightarrow> nat"
    and read_at :: "'s \<Rightarrow> byte list \<Rightarrow> int \<Rightarrow> (byte list \<times> int \<times> go_error option) option"
    and write_at :: "'s \<Rightarrow> byte list \<Rightarrow> int \<Rightarrow> ('s \<times> int \<times> go_error option) option"
  assumes size_le: "inv s \<Longrightarrow> size s \<le> length (region s)"
    and read_valid: "inv s \<Longrightarrow> off < size s \<Longrightarrow>
      read_at s p (int off) =
        (let k = min (length p) (size s - off) in Some (take k (drop off (region s)) @ drop k p, int k, None))"
    and read_eof: "inv s \<Longrightarrow> size s \<le> off \<Longrightarrow> read_at s p (int off) = Some (p, 0, Some EOF)"
    and write_valid: "inv s \<Longrightarrow> off + length p \<le> length (region s) \<Longrightarrow>
      \<exists>s'. write_at s p (int off) = Some (s', int (length p), None) \<and> inv s'
         \<and> region s' = overlay (region s) off p
         \<and> size s' = (if p = [] then size s else max (size s) (off + length p))"
begin

lemma read_back:
  assumes "inv s" "off + length p \<le> length (region s)" "p \<noteq> []" "length q = length p"
  obtains s' where "write_at s p (int off) = Some (s', int (length p), None)" "inv s'"
    "read_at s' q (int off) = Some (p, int (length p), None)"
proof -
  obtain s' where s': "write_at s p (int off) = Some (s', int (length p), None)" "inv s'"
    "region s' = overlay (region s) off p" "size s' = max (size s) (off + length p)"
    using write_valid[OF assms(1,2)] assms(3) by auto
  have "off < size s'" and k: "min (length q) (size s' - off) = length p"
    using s'(4) assms(3,4) by (auto simp: less_max_iff_disj)
  then have "read_at s' q (int off) = Some (p, int (length p), None)"
    using read_valid[OF s'(2), of off q] assms by (simp add: s'(3) overlay_inside)
  with s' show ?thesis using that by blast
qed

lemma write_keeps_disjoint:
  assumes "inv s" "off + length p \<le> length (region s)" "a + length q \<le> size s"
    and "a + length q \<le> off \<or> off + length p \<le> a" "q \<noteq> []"
  obtains s' where "write_at s p (int off) = Some (s', int (length p), None)"
    "read_at s' q (int a) = read_at s q (int a)"
proof -
  obtain s' where s': "write_at s p (int off) = Some (s', int (length p), None)" "inv s'"
    "region s' = overlay (region s) off p" "size s \<le> size s'"
    using write_valid[OF assms(1,2)] by (auto split: if_splits)
  have a: "a < size s" "a < size s'" using assms(3,5) s'(4) by (auto simp: length_greater_0_conv[symmetric] simp del: length_greater_0_conv)
  have k: "min (length q) (size s - a) = length q" "min (length q) (size s' - a) = length q"
    using assms(3) s'(4) by auto
  have "a + length q \<le> length (region s)" using assms(3) size_le[OF assms(1)] by simp
  then have "read_at s' q (int a) = read_at s q (int a)"
    using read_valid[OF assms(1) a(1), of q] read_valid[OF s'(2) a(2), of q] assms(2,4)
    by (simp add: k s'(3) overlay_outside)
  with s'(1) show ?thesis by (rule that)
qed

lemma write_appends:
  assumes "inv s" "size s + length p \<le> length (region s)"
  obtains s' where "write_at s p (int (size s)) = Some (s', int (length p), None)" "inv s'"
    "take (size s') (region s') = take (size s) (region s) @ p"
proof -
  obtain s' where s': "write_at s p (int (size s)) = Some (s', int (length p), None)" "inv s'"
    "region s' = overlay (region s) (size s) p" "size s' = size s + length p"
    using write_valid[OF assms] by (auto split: if_splits)
  have "take (size s') (region s') = take (size s) (region s) @ p"
    using s'(3,4) assms(2) size_le[OF assms(1)] by (simp add: overlay_def)
  with s' show ?thesis using that by blast
qed

end

subsection \<open>The stripe as a byte store\<close>

definition capacity :: "stripe \<Rightarrow> nat" where
  "capacity s = BlockSize * (length (Blocks s) - 1)"

definition data_region :: "mem \<Rightarrow> stripe \<Rightarrow> byte list" where
  "data_region m s = map (cell m (Blocks s)) [BlockSize..<span (Blocks s)]"

definition contents :: "mem \<Rightarrow> stripe \<Rightarrow> byte list" where
  "contents m s = take (unat (DataLen s)) (data_region m s)"

text \<open>
  The bus has at most 64 chunks of 1024 blocks, so a stripe has at most 65536 blocks and its
  offsets stay far below the 32-bit range.
\<close>

definition stripe_ok :: "mem \<Rightarrow> stripe \<Rightarrow> bool" where
  "stripe_ok m s \<longleftrightarrow> Blocks s \<noteq> [] \<and> blocks_wf (Blocks s) \<and> length (Blocks s) \<le> 65536
     \<and> unat (DataLen s) \<le> capacity s
     \<and> load32 m (slice_ptr (Blocks s ! 0) HEADER_DATA_LEN_OFF) = DataLen s"

text \<open>The header fields after the data length: block count and sequence.\<close>

definition header_rest :: "mem \<Rightarrow> stripe \<Rightarrow> byte list" where
  "header_rest m s = map (cell m (Blocks s)) [4..<BlockSize]"

definition same_elsewhere :: "mem \<Rightarrow> mem \<Rightarrow> stripe \<Rightarrow> bool" where
  "same_elsewhere m m' s \<longleftrightarrow> (\<forall>r i. \<not> covers (Blocks s) r i \<longrightarrow> m' r i = m r i)"

lemma stripe_okD:
  assumes "stripe_ok m s"
  shows "Blocks s \<noteq> []" "blocks_wf (Blocks s)" "length (Blocks s) \<le> 65536" "unat (DataLen s) \<le> capacity s"
    "load32 m (slice_ptr (Blocks s ! 0) HEADER_DATA_LEN_OFF) = DataLen s"
  using assms by (simp_all add: stripe_ok_def)

lemma span_capacity: "Blocks s \<noteq> [] \<Longrightarrow> span (Blocks s) = BlockSize + capacity s"
  by (cases "Blocks s") (simp_all add: span_def capacity_def)

lemma length_data_region [simp]: "Blocks s \<noteq> [] \<Longrightarrow> length (data_region m s) = capacity s"
  by (simp add: data_region_def span_capacity)

lemma data_region_len [simp]: "data_region m (s\<lparr>DataLen := n\<rparr>) = data_region m s"
  and header_rest_len [simp]: "header_rest m (s\<lparr>DataLen := n\<rparr>) = header_rest m s"
  by (simp_all add: data_region_def header_rest_def)

lemma length_contents: "stripe_ok m s \<Longrightarrow> length (contents m s) = unat (DataLen s)"
  by (simp add: contents_def stripe_okD)

lemma nth_contents:
  assumes "stripe_ok m s" "i < unat (DataLen s)"
  shows "contents m s ! i = cell m (Blocks s) (BlockSize + i)"
  using assms(2) stripe_okD(1,4)[OF assms(1)] by (simp add: contents_def data_region_def span_capacity)

lemma capacity_bound: "length (Blocks s) \<le> 65536 \<Longrightarrow> capacity s < 2 ^ 28"
  by (simp add: capacity_def BlockSize_def)

lemma region_run:
  assumes "Blocks s \<noteq> []" "off + k \<le> capacity s"
  shows "map (cell m (Blocks s)) [BlockSize + off..<BlockSize + off + k] = take k (drop off (data_region m s))"
  using assms by (intro nth_equalityI) (simp_all add: data_region_def span_capacity add.assoc)

lemma clamp_len:
  assumes "0 \<le> off" "off < int d"
  shows "(if off + int n > int d then int d - off else int n) = int (min n (d - nat off))"
  using assms by (auto simp: min_def nat_less_iff le_nat_iff)

lemma read_guard:
  assumes "0 \<le> off" "off < uint (DataLen s)"
  shows "(if off + int (length p) > uint (DataLen s) then uint (DataLen s) - off else int (length p))
    = int (min (length p) (unat (DataLen s) - nat off))"
  by (rule clamp_len[of off "unat (DataLen s)" "length p", unfolded of_nat_unat, OF assms])

lemma ReadAt_spec:
  assumes ok: "stripe_ok m s" and off: "0 \<le> off" "off < uint (DataLen s)"
  shows "ReadAt m s p off = (let k = min (length p) (unat (DataLen s) - nat off) in
    Some (take k (drop (nat off) (data_region m s)) @ drop k p, int k, None))"
proof -
  let ?k = "min (length p) (unat (DataLen s) - nat off)"
  have "nat off \<le> unat (DataLen s)" using off by (metis nat_le_iff nat_uint_eq order.strict_implies_order uint_nat)
  then have k: "nat off + ?k \<le> capacity s" using stripe_okD(4)[OF ok] by linarith
  have "ReadAt m s p off = read_loop m (Blocks s) p (int 0) (int (BlockSize + nat off)) (int ?k)"
    unfolding ReadAt_def Let_def using off by (simp add: read_guard[OF off] add.commute)
  also have "\<dots> = Some (map (cell m (Blocks s)) [BlockSize + nat off..<BlockSize + nat off + ?k] @ drop ?k p, int ?k, None)"
    using read_loop_spec[OF stripe_okD(2)[OF ok], of 0 ?k p m "BlockSize + nat off"] k
    by (simp add: span_capacity stripe_okD(1)[OF ok] Let_def)
  finally show ?thesis using region_run[OF stripe_okD(1)[OF ok] k, of m] by (simp add: Let_def)
qed

lemma ReadAt_eof: "0 \<le> off \<Longrightarrow> uint (DataLen s) \<le> off \<Longrightarrow> ReadAt m s p off = Some (p, 0, Some EOF)"
  by (simp add: ReadAt_def)

subsection \<open>Writing\<close>

lemma updateDataLen_ok:
  assumes "Blocks s \<noteq> []" "blocks_wf (Blocks s)"
  shows "updateDataLen m s v =
    Some (store32 m (slice_ptr (Blocks s ! 0) HEADER_DATA_LEN_OFF) v, s\<lparr>DataLen := v\<rparr>)"
  using assms blocks_wf_nth[of "Blocks s" 0]
  by (simp add: updateDataLen_def HEADER_DATA_LEN_OFF_def BlockSize_def)

lemma cell_store_len:
  assumes "Blocks s \<noteq> []" "blocks_wf (Blocks s)" "4 \<le> i" "i < span (Blocks s)"
  shows "cell (store32 m (slice_ptr (Blocks s ! 0) HEADER_DATA_LEN_OFF) v) (Blocks s) i = cell m (Blocks s) i"
  using cell_write_block[OF assms(2), of 0 0 "le_bytes 4 (unat v)" i m] assms
  by (simp add: store32_def HEADER_DATA_LEN_OFF_def BlockSize_def)

lemma store_len_elsewhere:
  assumes "Blocks s \<noteq> []" "blocks_wf (Blocks s)" "\<not> covers (Blocks s) r i"
  shows "store32 m (slice_ptr (Blocks s ! 0) HEADER_DATA_LEN_OFF) v r i = m r i"
  using write_block_frame[OF assms(2), of 0 0 "le_bytes 4 (unat v)" r i m] assms
  by (simp add: store32_def HEADER_DATA_LEN_OFF_def BlockSize_def)

text \<open>The header word survives a write that does not touch the header block.\<close>

lemma wrote_keeps_header:
  assumes "wrote m m' blks (BlockSize + off) bs" "blocks_wf blks" "blks \<noteq> []" "k < BlockSize"
  shows "cell m' blks k = cell m blks k"
proof -
  have "k < span blks" using assms(3,4) by (cases blks) (simp_all add: span_def)
  then show ?thesis using assms(1,4) by (simp add: wrote_def)
qed

lemma load32_cells:
  assumes "blks \<noteq> []"
  shows "load32 m (slice_ptr (blks ! 0) HEADER_DATA_LEN_OFF) = of_nat (le_val (map (cell m blks) [0..<4]))"
proof -
  have "mem_read m (sl_region (blks ! 0)) (sl_off (blks ! 0)) 4 = map (cell m blks) [0..<4]"
    using cell_run[of 0 4 m blks] by (simp add: BlockSize_def)
  then show ?thesis by (simp add: load32_def HEADER_DATA_LEN_OFF_def)
qed

lemma wrote_load32:
  assumes "wrote m m' blks (BlockSize + off) bs" "blocks_wf blks" "blks \<noteq> []"
  shows "load32 m' (slice_ptr (blks ! 0) HEADER_DATA_LEN_OFF) = load32 m (slice_ptr (blks ! 0) HEADER_DATA_LEN_OFF)"
proof -
  have "map (cell m' blks) [0..<4] = map (cell m blks) [0..<4]"
    using wrote_keeps_header[OF assms] by (simp add: BlockSize_def)
  then show ?thesis by (simp only: load32_cells[OF assms(3)])
qed

lemma wrote_region:
  assumes "wrote m m' (Blocks s) (BlockSize + off) bs" "Blocks s \<noteq> []" "off + length bs \<le> capacity s"
  shows "data_region m' s = overlay (data_region m s) off bs"
proof (rule nth_equalityI)
  fix i assume "i < length (data_region m' s)"
  then have "i < capacity s" using assms(2) by simp
  moreover have "cell m' (Blocks s) (BlockSize + i) =
    (if off \<le> i \<and> i < off + length bs then bs ! (i - off) else cell m (Blocks s) (BlockSize + i))"
    using assms(1) \<open>i < capacity s\<close> span_capacity[OF assms(2)] by (simp add: wrote_def)
  ultimately show "data_region m' s ! i = overlay (data_region m s) off bs ! i"
    using assms(2,3) by (simp add: nth_overlay) (simp add: data_region_def span_capacity)
qed (use assms in \<open>simp add: length_overlay\<close>)

text \<open>
  The outcome of a write of \<open>bs\<close> at data offset \<open>off\<close>: the region is overlayd, the length grows
  to the end of the write, and nothing else changes (not the rest of the header, not the
  memory outside the stripe).
\<close>

definition written :: "mem \<Rightarrow> stripe \<Rightarrow> nat \<Rightarrow> byte list \<Rightarrow> mem \<Rightarrow> stripe \<Rightarrow> bool" where
  "written m s off bs m' s' \<longleftrightarrow>
     stripe_ok m' s'
     \<and> s' = s\<lparr>DataLen := (if bs = [] then DataLen s else max (DataLen s) (of_nat (off + length bs)))\<rparr>
     \<and> data_region m' s' = overlay (data_region m s) off bs
     \<and> header_rest m' s' = header_rest m s \<and> same_elsewhere m m' s"

lemma written_fields:
  "written m s off bs m' s' \<Longrightarrow> stripe_ok m' s' \<and> Blocks s' = Blocks s \<and> Sequence s' = Sequence s
    \<and> BlockCount s' = BlockCount s \<and> data_region m' s' = overlay (data_region m s) off bs
    \<and> header_rest m' s' = header_rest m s \<and> same_elsewhere m m' s"
  by (auto simp: written_def)

lemma written_finish:
  assumes ok: "stripe_ok m s" and w: "wrote m m1 (Blocks s) (BlockSize + off) bs" and cap: "off + length bs \<le> capacity s"
  shows "\<exists>m' s'. (if bs \<noteq> [] then
             let newEnd = of_nat (off + length bs) :: uint32 in
             if newEnd > DataLen s then updateDataLen m1 s newEnd else Some (m1, s)
           else Some (m1, s)) = Some (m', s') \<and> written m s off bs m' s'"
proof -
  note ok' = stripe_okD[OF ok]
  define e where "e = (of_nat (off + length bs) :: uint32)"
  have e: "unat e = off + length bs"
    using cap capacity_bound[OF ok'(3)] by (simp add: e_def unat_of_nat del: of_nat_add)
  have hdr: "load32 m1 (slice_ptr (Blocks s ! 0) HEADER_DATA_LEN_OFF) = DataLen s"
    using wrote_load32[OF w ok'(2,1)] ok'(5) by simp
  have rest: "header_rest m1 s = header_rest m s"
    using wrote_keeps_header[OF w ok'(2,1)] by (simp add: header_rest_def)
  have reg: "data_region m1 s = overlay (data_region m s) off bs"
    by (rule wrote_region[OF w ok'(1) cap])
  have else1: "same_elsewhere m m1 s" using w by (simp add: wrote_def same_elsewhere_def)
  show ?thesis
  proof (cases "bs \<noteq> [] \<and> e > DataLen s")
    case False
    then have "(if bs = [] then DataLen s else max (DataLen s) e) = DataLen s"
      by (auto simp: max_def)
    then have eq: "s\<lparr>DataLen := (if bs = [] then DataLen s else max (DataLen s) e)\<rparr> = s"
      by (simp only:) simp
    have "written m s off bs m1 s"
      unfolding written_def e_def[symmetric] eq using hdr rest reg else1 ok' by (simp add: stripe_ok_def)
    with False show ?thesis by (auto simp: Let_def simp flip: e_def simp del: of_nat_add)
  next
    case True
    let ?m = "store32 m1 (slice_ptr (Blocks s ! 0) HEADER_DATA_LEN_OFF) e" and ?s = "s\<lparr>DataLen := e\<rparr>"
    have keep: "cell ?m (Blocks s) i = cell m1 (Blocks s) i" if "4 \<le> i" "i < span (Blocks s)" for i
      using cell_store_len[OF ok'(1,2) that] .
    have B: "BlockSize \<le> span (Blocks s)" "4 \<le> BlockSize"
      by (simp_all add: span_capacity ok'(1)) (simp add: BlockSize_def)
    have "data_region ?m ?s = data_region m1 s" "header_rest ?m ?s = header_rest m1 s"
      using keep B by (auto simp: data_region_def header_rest_def)
    moreover have "same_elsewhere m ?m s"
      using else1 store_len_elsewhere[OF ok'(1,2)] by (simp add: same_elsewhere_def)
    moreover have "stripe_ok ?m ?s"
      using e cap ok'(1-3) by (simp add: stripe_ok_def load32_store32 capacity_def)
    moreover have "max (DataLen s) e = e" using True by (simp add: max_absorb2)
    ultimately have "written m s off bs ?m ?s"
      using True reg rest by (simp add: written_def flip: e_def del: of_nat_add)
    with True show ?thesis by (simp add: Let_def updateDataLen_ok[OF ok'(1,2)] flip: e_def del: of_nat_add)
  qed
qed

lemma WriteAt_spec:
  fixes p :: "byte list"
  assumes ok: "stripe_ok m s" and off: "off < 2 ^ 62"
  defines "k \<equiv> min (length p) (capacity s - off)"
  obtains m' s' where "WriteAt m s p (int off) =
      Some (m', s', int k, if k < length p then Some CapacityExceeded else None)"
    and "written m s off (take k p) m' s'"
proof -
  note ok' = stripe_okD[OF ok]
  have i64: "i64 (int off + int BlockSize) = int (BlockSize + off)"
    using off by (simp add: i64_id BlockSize_def)
  have k: "k = min (length p) (span (Blocks s) - (BlockSize + off))"
    by (simp add: k_def span_capacity[OF ok'(1)])
  obtain m1 where m1: "write_loop m (Blocks s) p 0 (int (BlockSize + off)) (int (length p)) =
      Some (m1, int k, int (BlockSize + off + k), if k < length p then Some CapacityExceeded else None)"
    "wrote m m1 (Blocks s) (BlockSize + off) (take k p)"
    by (rule write_loop_spec[OF ok'(2), where n = 0 and rem = "length p" and p = p
          and off = "BlockSize + off" and m = m]) (simp_all add: k)
  show ?thesis
  proof (cases "k = 0")
    case True
    then have "written m s off (take k p) m s"
      using ok by (simp add: written_def same_elsewhere_def overlay_def)
    moreover have "m1 = m"
    proof (cases "p = []")
      case False
      with True have "span (Blocks s) \<le> BlockSize + off"
        by (auto simp: k_def min_def span_capacity[OF ok'(1)] split: if_splits)
      then show ?thesis
        using m1(1) write_loop_end[of "Blocks s" "BlockSize + off" m p 0 "length p"] by simp
    qed (use m1(1) in \<open>simp add: write_loop.simps[of m "Blocks s" "[]"]\<close>)
    ultimately show ?thesis
      using True m1(1) off by (intro that[of m s]) (simp_all add: WriteAt_def i64)
  next
    case False
    then have cap: "off + length (take k p) \<le> capacity s" and len: "length (take k p) = k" "take k p \<noteq> []"
      by (auto simp: k_def)
    obtain m' s' where w: "written m s off (take k p) m' s'"
      "(let newEnd = of_nat (off + k) :: uint32 in
        if newEnd > DataLen s then updateDataLen m1 s newEnd else Some (m1, s)) = Some (m', s')"
      using written_finish[OF ok m1(2) cap] len by auto
    have "word_of_int (int (BlockSize + off + k) - int BlockSize) = (of_nat (off + k) :: uint32)"
      by simp
    then show ?thesis
      using False m1(1) off w
      by (intro that[of m' s']) (simp_all add: WriteAt_def i64 del: of_nat_add)
  qed
qed

interpretation st: byte_store
  "\<lambda>(m, s). stripe_ok m s"
  "\<lambda>(m, s). data_region m s"
  "\<lambda>(m, s). unat (DataLen s)"
  "\<lambda>(m, s) p off. ReadAt m s p off"
  "\<lambda>(m, s) p off. map_option (\<lambda>(m, s, n, err). ((m, s), n, err)) (WriteAt m s p off)"
proof (unfold_locales, goal_cases)
  case (1 ms)
  then show ?case by (auto simp: stripe_okD)
next
  case (2 ms off p)
  then show ?case
  proof (cases ms)
    case (Pair m s)
    with 2 have "stripe_ok m s" "int off < uint (DataLen s)" by (simp_all add: int_less_uint)
    then show ?thesis using Pair ReadAt_spec[of m s "int off" p] by simp
  qed
next
  case (3 ms off p)
  then show ?case by (cases ms) (simp add: ReadAt_eof uint_le_int)
next
  case (4 ms off p)
  then show ?case
  proof (cases ms)
    case (Pair m s)
    with 4 have ok: "stripe_ok m s" and cap: "off + length p \<le> capacity s" by (simp_all add: stripe_okD)
    have bound: "off + length p < 2 ^ 28" using cap capacity_bound[OF stripe_okD(3)[OF ok]] by simp
    then have "off < 2 ^ 62" by simp
    from WriteAt_spec[OF ok this, of p] cap obtain m' s' where
      "WriteAt m s p (int off) = Some (m', s', int (length p), None)" "written m s off p m' s'"
      by auto
    moreover from this(2) have "unat (DataLen s') = (if p = [] then unat (DataLen s) else max (unat (DataLen s)) (off + length p))"
      using bound by (auto simp: written_def max_def word_le_nat_alt unat_of_nat simp del: of_nat_add)
    ultimately show ?thesis using Pair by (auto simp: written_def)
  qed
qed

subsection \<open>Single bytes and truncation\<close>

lemma write_loop_one:
  "write_loop m blks [b] 0 off 1 =
     (if int (length blks) \<le> off sdiv int BlockSize then Some (m, 0, off, Some CapacityExceeded)
      else do {
        blk \<leftarrow> go_nth blks (off sdiv int BlockSize);
        m' \<leftarrow> slice_set m blk (off smod int BlockSize) b;
        Some (m', 1, off + 1, None)
      })"
proof -
  let ?i = "off smod int BlockSize"
  have fin: "write_loop m' blks [b] 1 (off + 1) 0 = Some (m', 1, off + 1, None)" for m'
    by (simp add: write_loop.simps[of m'])
  have c: "(if int BlockSize - ?i > 1 then 1 else int BlockSize - ?i) = 1"
    using smod_lt[of "int BlockSize" off] by (auto simp: BlockSize_def)
  have "go_slice blk ?i (?i + 1) = (if 0 \<le> ?i \<and> ?i < int (sl_len blk)
      then Some \<lparr>sl_region = sl_region blk, sl_off = sl_off blk + nat ?i, sl_len = 1\<rparr> else None)" for blk
    by (auto simp: go_slice_def)
  then show ?thesis
    unfolding write_loop.simps[of m blks "[b]" 0 off 1] Let_def c
    by (auto simp: fin slice_store_def slice_set_def split: bind_splits)
qed

lemma WriteByteAt_eq_WriteAt:
  "WriteByteAt m s b off = map_option (\<lambda>(m, s, n, err). (m, s, err)) (WriteAt m s [b] off)"
  by (auto simp: WriteByteAt_def WriteAt_def Let_def write_loop_one algebra_simps split: bind_splits)

lemma ReadByteAt_eq_ReadAt:
  assumes "blocks_wf (Blocks s)"
  shows "ReadByteAt m s off = map_option (\<lambda>(p, n, err). (hd p, err)) (ReadAt m s [0] off)"
proof (cases "off < 0 \<or> off \<ge> uint (DataLen s)")
  case False
  then obtain o1 where o1: "off = int o1" by (metis not_less nonneg_int_cases)
  have guard: "(if off + int (length [0 :: byte]) > uint (DataLen s) then uint (DataLen s) - off else int (length [0 :: byte])) = int 1"
    using False by auto
  have "ReadAt m s [0] off = read_loop m (Blocks s) [0] (int 0) (int (BlockSize + o1)) (int 1)"
    unfolding ReadAt_def Let_def guard using False o1 by (simp add: add.commute)
  also have "\<dots> = (if BlockSize + o1 < span (Blocks s) then Some ([cell m (Blocks s) (BlockSize + o1)], 1, None)
      else Some ([0], 0, Some EOF))"
    using read_loop_spec[OF assms, of 0 1 "[0]" m "BlockSize + o1"] by (auto simp: Let_def)
  finally have rd: "ReadAt m s [0] off = \<dots>" .
  have off: "off + int BlockSize = int (BlockSize + o1)" using o1 by simp
  have idx: "BlockSize + o1 < span (Blocks s) \<longleftrightarrow> (BlockSize + o1) div BlockSize < length (Blocks s)"
    by (simp add: span_def BlockSize_def div_less_iff_less_mult mult.commute)
  show ?thesis
  proof (cases "BlockSize + o1 < span (Blocks s)")
    case True
    then have k: "(BlockSize + o1) div BlockSize < length (Blocks s)" by (simp only: idx)
    have "(BlockSize + o1) mod BlockSize < BlockSize" by (simp add: BlockSize_def)
    then show ?thesis using False True k blocks_wf_nth[OF assms k]
      by (simp add: ReadByteAt_def rd Let_def off off_split slice_get_def cell_def del: of_nat_add div_add_self1 mod_add_self1)
  next
    case out: False
    with False idx show ?thesis
      by (simp add: ReadByteAt_def rd Let_def off off_split del: of_nat_add div_add_self1)
  qed
qed (auto simp: ReadByteAt_def ReadAt_def)

lemma Truncate_spec:
  assumes ok: "stripe_ok m s"
  obtains m' where "Truncate m s newLen = Some (m', s\<lparr>DataLen := min newLen (DataLen s)\<rparr>)"
    and "stripe_ok m' (s\<lparr>DataLen := min newLen (DataLen s)\<rparr>)"
    and "data_region m' s = data_region m s" and "header_rest m' s = header_rest m s" and "same_elsewhere m m' s"
proof -
  note ok' = stripe_okD[OF ok]
  show ?thesis
  proof (cases "newLen > DataLen s")
    case True
    then have "min newLen (DataLen s) = DataLen s" by simp
    with True ok that show ?thesis by (simp add: Truncate_def same_elsewhere_def)
  next
    case False
    let ?m = "store32 m (slice_ptr (Blocks s ! 0) HEADER_DATA_LEN_OFF) newLen"
    have le: "min newLen (DataLen s) = newLen" "unat newLen \<le> unat (DataLen s)"
      using False by (simp_all add: word_le_nat_alt not_less)
    have keep: "cell ?m (Blocks s) i = cell m (Blocks s) i" if "4 \<le> i" "i < span (Blocks s)" for i
      using cell_store_len[OF ok'(1,2) that] .
    have B: "BlockSize \<le> span (Blocks s)" "4 \<le> BlockSize"
      by (simp_all add: span_capacity ok'(1)) (simp add: BlockSize_def)
    have "stripe_ok ?m (s\<lparr>DataLen := newLen\<rparr>)"
      using ok'(1-4) le by (simp add: stripe_ok_def load32_store32 capacity_def)
    moreover have "data_region ?m s = data_region m s" "header_rest ?m s = header_rest m s"
      using keep B by (auto simp: data_region_def header_rest_def)
    moreover have "same_elsewhere m ?m s"
      using store_len_elsewhere[OF ok'(1,2)] by (simp add: same_elsewhere_def)
    ultimately show ?thesis
      using False le by (intro that[of ?m]) (simp_all add: Truncate_def updateDataLen_ok[OF ok'(1,2)])
  qed
qed

text \<open>
  Close to the largest \<open>int64\<close> the addition that skips the header block wraps around and the
  block index is negative: the write panics.
\<close>

lemma WriteAt_wraps:
  assumes "9223372036854771712 \<le> off" "off < 9223372036854775808" "p \<noteq> []"
  shows "WriteAt m s p off = None"
proof -
  have wrap: "i64 (off + int BlockSize) = off + int BlockSize - 2 ^ 64"
    using assms by (intro i64_wrap_up) (simp_all add: BlockSize_def)
  let ?o = "i64 (off + int BlockSize)"
  have o: "?o \<le> - 4096" using wrap assms(2) by (simp add: BlockSize_def)
  then have "?o sdiv int BlockSize < 0"
    by (simp add: signed_divide_int_def BlockSize_def sgn_if pos_imp_zdiv_pos_iff)
  then have "write_loop m (Blocks s) p 0 ?o (int (length p)) = None"
    using assms(3) by (simp add: write_loop.simps[of m "Blocks s" p 0 ?o] Let_def go_nth_def)
  then show ?thesis using assms by (simp add: WriteAt_def)
qed

subsection \<open>Properties\<close>

text \<open>A stripe of three blocks (a header and two data blocks) holding five bytes, for the witnesses.\<close>

definition ex_mem :: mem where
  "ex_mem = mem_write (mem_write (\<lambda>r i. 0) 0 0 [5]) 0 4096 [11, 12, 13, 14, 15]"

definition ex_stripe :: stripe where
  "ex_stripe = \<lparr>Sequence = [NOT 0, 0, 1, 2], BlockCount = 3,
     Blocks = map (\<lambda>i. \<lparr>sl_region = 0, sl_off = 4096 * i, sl_len = 4096\<rparr>) [0, 1, 2], DataLen = 5\<rparr>"

lemma ex_stripe_ok: "stripe_ok ex_mem ex_stripe"
  by (simp add: stripe_ok_def ex_stripe_def blocks_wf_def block_ok_def capacity_def load32_def mem_read_def
      ex_mem_def mem_write_def BlockSize_def HEADER_DATA_LEN_OFF_def upt_rec)

lemma ex_capacity: "capacity ex_stripe = 8192"
  by (simp add: capacity_def ex_stripe_def BlockSize_def)

lemma ex_data_len: "unat (DataLen ex_stripe) = 5"
  by (simp add: ex_stripe_def)

lemma ex_contents: "contents ex_mem ex_stripe = [11, 12, 13, 14, 15]"
proof (rule nth_equalityI)
  fix i assume "i < length (contents ex_mem ex_stripe)"
  then have i: "i < 5" by (simp add: length_contents[OF ex_stripe_ok] ex_data_len)
  then have "contents ex_mem ex_stripe ! i = cell ex_mem (Blocks ex_stripe) (BlockSize + i)"
    by (intro nth_contents[OF ex_stripe_ok]) (simp add: ex_data_len)
  also from i have "\<dots> = [11, 12, 13, 14, 15] ! i"
    by (auto simp: cell_def ex_stripe_def BlockSize_def ex_mem_def mem_write_def)
  finally show "contents ex_mem ex_stripe ! i = [11, 12, 13, 14, 15] ! i" .
qed (simp add: length_contents[OF ex_stripe_ok] ex_data_len)

text \<open>C22: On a well-formed stripe \<open>ReadAt\<close> returns exactly the stored bytes. A negative offset is an
  error, an offset at or past the data length is \<open>io.EOF\<close>; otherwise the buffer is filled with the
  data from the offset on, cut at the data length, across any number of block boundaries, and
  the rest of the buffer is left alone. A read cut short this way reports no error, unlike the
  \<open>io.ReaderAt\<close> its comment names. It never panics.\<close>

theorem ReadAt_correct:
  assumes "stripe_ok m s"
  shows "ReadAt m s p off = Some (
    if off < 0 then (p, 0, Some NegativeOffset)
    else if length (contents m s) \<le> nat off then (p, 0, Some EOF)
    else let k = min (length p) (length (contents m s) - nat off)
         in (take k (drop (nat off) (contents m s)) @ drop k p, int k, None))"
proof (cases "0 \<le> off \<and> off < uint (DataLen s)")
  case True
  then have "nat off < unat (DataLen s)" by (simp add: int_less_uint[symmetric])
  with True assms ReadAt_spec[OF assms, of off p] show ?thesis
    by (simp add: length_contents Let_def) (simp add: contents_def drop_take min_def)
next
  case False
  then show ?thesis
    using ReadAt_eof[of off s m p] length_contents[OF assms] uint_le_int[of "DataLen s" "nat off"]
    by (auto simp: ReadAt_def)
qed

theorem ReadAt_correct_witness:
  "ReadAt ex_mem ex_stripe [0, 0, 0, 0] 3 = Some ([14, 15, 0, 0], 2, None)"
  using ReadAt_correct[OF ex_stripe_ok, of "[0, 0, 0, 0]" 3] by (simp add: ex_contents)

text \<open>C23: \<open>WriteAt\<close> stores the bytes it is given at the offset, as many as fit, reporting how many and
  \<open>stripe capacity exceeded\<close> when not all fit. The data length grows to the end of the write and
  never shrinks, the header word follows it, the rest of the header (block count and sequence)
  and all memory outside the stripe keep their bytes, and the stripe stays well-formed.\<close>

theorem WriteAt_correct:
  assumes "stripe_ok m s" and "off < 2 ^ 62" and "k = min (length p) (capacity s - off)"
  shows "\<exists>m' s'. WriteAt m s p (int off) = Some (m', s', int k, if k < length p then Some CapacityExceeded else None)
    \<and> stripe_ok m' s' \<and> Blocks s' = Blocks s \<and> Sequence s' = Sequence s \<and> BlockCount s' = BlockCount s
    \<and> unat (DataLen s') = (if k = 0 then unat (DataLen s) else max (unat (DataLen s)) (off + k))
    \<and> data_region m' s' = overlay (data_region m s) off (take k p)
    \<and> header_rest m' s' = header_rest m s \<and> same_elsewhere m m' s"
proof -
  obtain m' s' where w: "WriteAt m s p (int off) = Some (m', s', int k, if k < length p then Some CapacityExceeded else None)"
    "written m s off (take k p) m' s'"
    using WriteAt_spec[OF assms(1,2), of p] assms(3) by auto
  have len: "take k p = [] \<longleftrightarrow> k = 0" "length (take k p) = k" using assms(3) by auto
  have "unat (of_nat (off + k) :: uint32) = off + k" if "k \<noteq> 0"
  proof -
    have "off + k \<le> capacity s" using that assms(3) by linarith
    then have "off + k < 2 ^ 32" using capacity_bound[OF stripe_okD(3)[OF assms(1)]] by simp
    then show ?thesis by (simp add: unat_of_nat del: of_nat_add)
  qed
  then have "unat (DataLen s') = (if k = 0 then unat (DataLen s) else max (unat (DataLen s)) (off + k))"
    using w(2) len by (auto simp: written_def max_def word_le_nat_alt simp del: of_nat_add)
  with w(1) written_fields[OF w(2)] show ?thesis by (intro exI[of _ m'] exI[of _ s']) simp
qed

theorem WriteAt_correct_witness:
  "\<exists>m' s'. WriteAt ex_mem ex_stripe [1, 2, 3] 8190 = Some (m', s', 2, Some CapacityExceeded)
    \<and> unat (DataLen s') = 8192"
proof -
  have k: "2 = min (length [1, 2, 3 :: byte]) (capacity ex_stripe - 8190)" by (simp add: ex_capacity)
  obtain m' s' where "WriteAt ex_mem ex_stripe [1, 2, 3] (int 8190)
      = Some (m', s', int 2, if 2 < length [1, 2, 3 :: byte] then Some CapacityExceeded else None)"
    "unat (DataLen s') = (if (2 :: nat) = 0 then unat (DataLen ex_stripe) else max (unat (DataLen ex_stripe)) (8190 + 2))"
    using WriteAt_correct[OF ex_stripe_ok _ k] by auto
  then show ?thesis by (simp add: ex_data_len)
qed

text \<open>C24: Bytes written to a stripe are read back: after a \<open>WriteAt\<close> within the capacity, a \<open>ReadAt\<close> of the
  same length at the same offset returns exactly those bytes, whatever blocks they span.\<close>

theorem stripe_read_back:
  assumes "stripe_ok m s" and "off + length p \<le> capacity s" and "p \<noteq> []" and "length q = length p"
  shows "\<exists>m' s'. WriteAt m s p (int off) = Some (m', s', int (length p), None)
    \<and> ReadAt m' s' q (int off) = Some (p, int (length p), None)"
proof -
  have "(\<lambda>(m, s). stripe_ok m s) (m, s)" "off + length p \<le> length ((\<lambda>(m, s). data_region m s) (m, s))"
    using assms by (simp_all add: stripe_okD)
  then show ?thesis by (rule st.read_back[OF _ _ assms(3,4)]) auto
qed

theorem stripe_read_back_witness:
  "\<exists>m' s'. WriteAt ex_mem ex_stripe [1, 2, 3] 4094 = Some (m', s', 3, None)
    \<and> ReadAt m' s' [0, 0, 0] 4094 = Some ([1, 2, 3], 3, None)"
  using stripe_read_back[OF ex_stripe_ok, of 4094 "[1, 2, 3]" "[0, 0, 0]"] by (simp add: ex_capacity)

text \<open>A write does not disturb other data: a \<open>ReadAt\<close> of a range of valid bytes that the written
  range does not meet returns the same before and after the write.\<close>

theorem stripe_write_disjoint:
  assumes "stripe_ok m s" and "off + length p \<le> capacity s" and "a + length q \<le> unat (DataLen s)"
    and "a + length q \<le> off \<or> off + length p \<le> a" and "q \<noteq> []"
  shows "\<exists>m' s'. WriteAt m s p (int off) = Some (m', s', int (length p), None)
    \<and> ReadAt m' s' q (int a) = ReadAt m s q (int a)"
proof -
  have "(\<lambda>(m, s). stripe_ok m s) (m, s)" "off + length p \<le> length ((\<lambda>(m, s). data_region m s) (m, s))"
    "a + length q \<le> (\<lambda>(m, s). unat (DataLen s)) (m, s)"
    using assms by (simp_all add: stripe_okD)
  then show ?thesis by (rule st.write_keeps_disjoint[OF _ _ _ assms(4,5)]) auto
qed

theorem stripe_write_disjoint_witness:
  "\<exists>m' s'. WriteAt ex_mem ex_stripe [1, 2] 2 = Some (m', s', 2, None)
    \<and> ReadAt m' s' [0, 0] 0 = ReadAt ex_mem ex_stripe [0, 0] 0"
  using stripe_write_disjoint[OF ex_stripe_ok, of 2 "[1, 2]" 0 "[0, 0]"]
  by (simp add: ex_capacity ex_data_len)

text \<open>The byte-wise operations are the one-byte cases of the block-wise ones: on every stripe
  \<open>WriteByteAt\<close> has the effect and the error of \<open>WriteAt\<close> with a single byte.\<close>

theorem WriteByteAt_is_WriteAt:
  "WriteByteAt m s b off = map_option (\<lambda>(m, s, n, err). (m, s, err)) (WriteAt m s [b] off)"
  by (rule WriteByteAt_eq_WriteAt)

text \<open>C25: \<open>Truncate\<close> only ever shortens: it sets the data length to the smaller of the old and the
  requested length, in the stripe and in the shared header, and keeps every data byte.\<close>

theorem Truncate_correct:
  assumes "stripe_ok m s"
  shows "\<exists>m' s'. Truncate m s newLen = Some (m', s') \<and> stripe_ok m' s'
    \<and> contents m' s' = take (unat newLen) (contents m s) \<and> header_rest m' s' = header_rest m s
    \<and> same_elsewhere m m' s"
proof -
  obtain m' where m': "Truncate m s newLen = Some (m', s\<lparr>DataLen := min newLen (DataLen s)\<rparr>)"
    "stripe_ok m' (s\<lparr>DataLen := min newLen (DataLen s)\<rparr>)" "data_region m' s = data_region m s"
    "header_rest m' s = header_rest m s" "same_elsewhere m m' s"
    by (rule Truncate_spec[OF assms])
  moreover have "unat (min newLen (DataLen s)) = min (unat newLen) (unat (DataLen s))"
    by (simp add: min_def word_le_nat_alt)
  ultimately show ?thesis
    by (intro exI[of _ m'] exI[of _ "s\<lparr>DataLen := min newLen (DataLen s)\<rparr>"])
       (simp add: contents_def)
qed

theorem Truncate_correct_witness:
  "\<exists>m' s'. Truncate ex_mem ex_stripe 2 = Some (m', s') \<and> stripe_ok m' s'"
  using Truncate_correct[OF ex_stripe_ok, of 2] by blast

text \<open>Within the last block size below the largest \<open>int64\<close>, a non-empty \<open>WriteAt\<close> panics (index out of
  range) on every stripe instead of returning \<open>stripe capacity exceeded\<close>: the addition that skips
  the header block wraps around to a negative offset.\<close>

theorem WriteAt_panics_near_max:
  assumes "9223372036854771712 \<le> off" and "off < 9223372036854775808" and "p \<noteq> []"
  shows "WriteAt m s p off = None"
  using assms by (rule WriteAt_wraps)

theorem WriteAt_panics_near_max_witness: "WriteAt ex_mem ex_stripe [1] 9223372036854775807 = None"
  using WriteAt_panics_near_max[of 9223372036854775807 "[1]" ex_mem ex_stripe] by simp

end
