(* ===== verification/Stripe_Viewer.thy ===== *)
theory Stripe_Viewer
  imports Stripe_Spec
begin

text \<open>
  \<^verbatim>\<open>go/shm/stripe.go\<close>, the zero-copy \<open>Viewer\<close>: a window on the data of a stripe as a list of
  slices of its blocks. \<open>vbytes\<close> is the byte string a viewer shows; every method is related to
  it. The outer \<open>option\<close> of a result is a Go panic.
\<close>

subsection \<open>The viewer and its methods\<close>

record viewer =
  Segments :: "slice list"
  offsets :: "int list"
  Length :: int

text \<open>\<open>slices.BinarySearch\<close>: the least index whose element is not below the target.\<close>

function bsearch :: "int list \<Rightarrow> int \<Rightarrow> nat \<Rightarrow> nat \<Rightarrow> nat" where
  "bsearch xs target i j =
     (if i < j then
        let h = (i + j) div 2 in
        if xs ! h < target then bsearch xs target (h + 1) j else bsearch xs target i h
      else i)"
  by pat_completeness auto
termination
  by (relation "measure (\<lambda>(xs, target, i, j). j - i)") auto

declare bsearch.simps [simp del]

definition findSegment :: "viewer \<Rightarrow> int \<Rightarrow> (nat \<times> int) option" where
  "findSegment v offset = do {
     let idx = bsearch (offsets v) offset 0 (length (offsets v));
     let idx = (if idx > 0 \<and> (idx = length (offsets v) \<or> offsets v ! idx > offset) then idx - 1 else idx);
     start \<leftarrow> go_nth (offsets v) (int idx);
     Some (idx, offset - start)
   }"

definition ByteAt :: "mem \<Rightarrow> viewer \<Rightarrow> int \<Rightarrow> (byte \<times> go_error option) option" where
  "ByteAt m v offset =
     (if offset < 0 \<or> offset \<ge> Length v then Some (0, Some OutOfBounds)
      else do {
        (idx, innerOff) \<leftarrow> findSegment v offset;
        seg \<leftarrow> go_nth (Segments v) (int idx);
        b \<leftarrow> slice_get m seg innerOff;
        Some (b, None)
      })"

definition SetByteAt :: "mem \<Rightarrow> viewer \<Rightarrow> int \<Rightarrow> byte \<Rightarrow> (mem \<times> go_error option) option" where
  "SetByteAt m v offset val =
     (if offset < 0 \<or> offset \<ge> Length v then Some (m, Some OutOfBounds)
      else do {
        (idx, innerOff) \<leftarrow> findSegment v offset;
        seg \<leftarrow> go_nth (Segments v) (int idx);
        m \<leftarrow> slice_set m seg innerOff val;
        Some (m, None)
      })"

text \<open>\<open>Iterator\<close>: the closure's variables \<open>(segIdx, innerIdx)\<close> are its state; a call returns a byte and
  whether there was one, and the new state.\<close>

function iter_next :: "mem \<Rightarrow> viewer \<Rightarrow> nat \<times> nat \<Rightarrow> (byte \<times> bool) \<times> nat \<times> nat" where
  "iter_next m v (segIdx, innerIdx) =
     (if segIdx < length (Segments v) then
        let seg = Segments v ! segIdx in
        if innerIdx < sl_len seg then
          ((m (sl_region seg) (sl_off seg + innerIdx), True), segIdx, Suc innerIdx)
        else iter_next m v (Suc segIdx, 0)
      else ((0, False), segIdx, innerIdx))"
  by pat_completeness auto
termination
  by (relation "measure (\<lambda>(m, v, segIdx, innerIdx). length (Segments v) - segIdx)") auto

declare iter_next.simps [simp del]

text \<open>Draining an iterator: the bytes of at most \<open>n\<close> calls, up to the first that reports the end.\<close>

fun iter_take :: "nat \<Rightarrow> mem \<Rightarrow> viewer \<Rightarrow> nat \<times> nat \<Rightarrow> byte list" where
  "iter_take 0 m v st = []"
| "iter_take (Suc n) m v st =
     (case iter_next m v st of ((b, ok), st') \<Rightarrow> if ok then b # iter_take n m v st' else [])"

fun compare_loop :: "mem \<Rightarrow> viewer \<Rightarrow> byte list \<Rightarrow> nat \<Rightarrow> slice list \<Rightarrow> bool option" where
  "compare_loop m v data i [] = Some True"
| "compare_loop m v data i (seg # segs) = do {
     start \<leftarrow> go_nth (offsets v) (int i);
     if start < 0 \<or> start + int (sl_len seg) > int (length data) then None
     else if slice_bytes m seg \<noteq> take (sl_len seg) (drop (nat start) data) then Some False
     else compare_loop m v data (Suc i) segs
   }"

definition Compare :: "mem \<Rightarrow> viewer \<Rightarrow> byte list \<Rightarrow> bool option" where
  "Compare m v data =
     (if int (length data) \<noteq> Length v then Some False else compare_loop m v data 0 (Segments v))"

fun match_loop :: "mem \<Rightarrow> viewer \<Rightarrow> nat \<Rightarrow> nat \<Rightarrow> byte list \<Rightarrow> bool option" where
  "match_loop m v currSegIdx currOff [] = Some True"
| "match_loop m v currSegIdx currOff (t # ts) = do {
     seg \<leftarrow> go_nth (Segments v) (int currSegIdx);
     let (si, off) = (if currOff \<ge> sl_len seg then (currSegIdx + 1, 0) else (currSegIdx, currOff));
     if si \<ge> length (Segments v) then Some False
     else do {
       seg \<leftarrow> go_nth (Segments v) (int si);
       b \<leftarrow> slice_get m seg (int off);
       if b \<noteq> t then Some False else match_loop m v si (off + 1) ts
     }
   }"

definition matchAcrossSegments :: "mem \<Rightarrow> viewer \<Rightarrow> nat \<Rightarrow> nat \<Rightarrow> byte list \<Rightarrow> bool option" where
  "matchAcrossSegments m v segIdx posInSeg target = match_loop m v segIdx posInSeg target"

text \<open>\<open>bytes.IndexByte\<close>.\<close>

definition IndexByte :: "byte list \<Rightarrow> byte \<Rightarrow> nat option" where
  "IndexByte bs b = (let k = length (takeWhile (\<lambda>x. x \<noteq> b) bs) in if k < length bs then Some k else None)"

text \<open>The inner loop of \<open>Index\<close> over segment number \<open>i\<close>, at \<open>startIdx\<close>: the position of a match, or none.\<close>

function index_seg :: "mem \<Rightarrow> viewer \<Rightarrow> nat \<Rightarrow> slice \<Rightarrow> byte list \<Rightarrow> nat \<Rightarrow> nat option option" where
  "index_seg m v i seg target startIdx =
     (if startIdx < sl_len seg then
        case IndexByte (drop startIdx (slice_bytes m seg)) (hd target) of
          None \<Rightarrow> Some None
        | Some matchPos \<Rightarrow>
            let absMatchPos = startIdx + matchPos in
            do {
              hit \<leftarrow> (if absMatchPos + length target \<le> sl_len seg
                     then Some (take (length target) (drop absMatchPos (slice_bytes m seg)) = target)
                     else matchAcrossSegments m v i absMatchPos target);
              if hit then Some (Some absMatchPos) else index_seg m v i seg target (absMatchPos + 1)
            }
      else Some None)"
  by pat_completeness auto
termination
  by (relation "measure (\<lambda>(m, v, i, seg, target, startIdx). sl_len seg - startIdx)") auto

declare index_seg.simps [simp del]

fun index_loop :: "mem \<Rightarrow> viewer \<Rightarrow> byte list \<Rightarrow> nat \<Rightarrow> slice list \<Rightarrow> int option" where
  "index_loop m v target i [] = Some (-1)"
| "index_loop m v target i (seg # segs) = do {
     currentOff \<leftarrow> go_nth (offsets v) (int i);
     r \<leftarrow> index_seg m v i seg target 0;
     (case r of Some pos \<Rightarrow> Some (currentOff + int pos) | None \<Rightarrow> index_loop m v target (Suc i) segs)
   }"

definition Index :: "mem \<Rightarrow> viewer \<Rightarrow> byte list \<Rightarrow> int option" where
  "Index m v target = (if target = [] then Some 0 else index_loop m v target 0 (Segments v))"

text \<open>\<open>View\<close>: the loop that collects the segments, the offsets, and the guards. The result is the
  error, or the viewer the callback is run on.\<close>

function view_segments :: "slice list \<Rightarrow> int \<Rightarrow> int \<Rightarrow> slice list option" where
  "view_segments blks off endOff =
     (if off < endOff then
        let bIdx = off sdiv int BlockSize in
        if bIdx \<ge> int (length blks) then Some []
        else
          let innerOff = off smod int BlockSize;
              avail = int BlockSize - innerOff;
              copyLen = (if off + avail > endOff then endOff - off else avail)
          in do {
            blk \<leftarrow> go_nth blks bIdx;
            seg \<leftarrow> go_slice blk innerOff (innerOff + copyLen);
            segs \<leftarrow> view_segments blks (off + copyLen) endOff;
            Some (seg # segs)
          }
      else Some [])"
  by pat_completeness auto
termination
  by (relation "measure (\<lambda>(blks, off, endOff). nat (endOff - off))")
     (use smod_lt[of "int BlockSize"] in \<open>auto simp: BlockSize_def\<close>)

declare view_segments.simps [simp del]

fun seg_offsets :: "int \<Rightarrow> slice list \<Rightarrow> int list" where
  "seg_offsets cur [] = []"
| "seg_offsets cur (seg # segs) = cur # seg_offsets (cur + int (sl_len seg)) segs"

definition View :: "stripe \<Rightarrow> int \<Rightarrow> int \<Rightarrow> (go_error + viewer) option" where
  "View s offset len =
     (if offset < 0 then Some (Inl NegativeOffset)
      else if offset \<ge> uint (DataLen s) then Some (Inl EOF)
      else
        let n = min (word_of_int (offset + len) :: uint32) (DataLen s);
            actualLen = uint n - offset
        in if actualLen \<le> 0 then Some (Inl EOF)
           else do {
             segments \<leftarrow> view_segments (Blocks s) (offset + int BlockSize) (uint n + int BlockSize);
             Some (Inr \<lparr>Segments = segments, offsets = seg_offsets 0 segments, Length = actualLen\<rparr>)
           })"

subsection \<open>The bytes a viewer shows\<close>

definition vbytes :: "mem \<Rightarrow> viewer \<Rightarrow> byte list" where
  "vbytes m v = concat (map (slice_bytes m) (Segments v))"

text \<open>The number of bytes in front of segment \<open>k\<close>.\<close>

definition seg_start :: "slice list \<Rightarrow> nat \<Rightarrow> nat" where
  "seg_start segs k = sum_list (map sl_len (take k segs))"

definition segs_disjoint :: "slice list \<Rightarrow> bool" where
  "segs_disjoint segs \<longleftrightarrow> (\<forall>j < length segs. \<forall>k < length segs. j \<noteq> k \<longrightarrow>
     sl_region (segs ! j) \<noteq> sl_region (segs ! k)
     \<or> sl_off (segs ! j) + sl_len (segs ! j) \<le> sl_off (segs ! k)
     \<or> sl_off (segs ! k) + sl_len (segs ! k) \<le> sl_off (segs ! j))"

definition viewer_wf :: "viewer \<Rightarrow> bool" where
  "viewer_wf v \<longleftrightarrow> offsets v = seg_offsets 0 (Segments v)
     \<and> (\<forall>seg \<in> set (Segments v). 0 < sl_len seg)
     \<and> Length v = int (sum_list (map sl_len (Segments v)))
     \<and> segs_disjoint (Segments v)"

lemma length_seg_offsets [simp]: "length (seg_offsets c segs) = length segs"
  by (induction segs arbitrary: c) auto

lemma nth_seg_offsets: "k < length segs \<Longrightarrow> seg_offsets c segs ! k = c + int (seg_start segs k)"
proof (induction segs arbitrary: c k)
  case (Cons seg segs)
  then show ?case by (cases k) (auto simp: seg_start_def)
qed simp

lemma seg_start_0 [simp]: "seg_start segs 0 = 0"
  by (simp add: seg_start_def)

lemma seg_start_Suc: "k < length segs \<Longrightarrow> seg_start segs (Suc k) = seg_start segs k + sl_len (segs ! k)"
  by (simp add: seg_start_def take_Suc_conv_app_nth)

lemma seg_start_length: "seg_start segs (length segs) = sum_list (map sl_len segs)"
  by (simp add: seg_start_def)

lemma seg_start_mono: "j \<le> k \<Longrightarrow> seg_start segs j \<le> seg_start segs k"
  by (metis le_add1 le_Suc_ex map_append seg_start_def sum_list_append take_add)

lemma length_vbytes: "length (vbytes m v) = sum_list (map sl_len (Segments v))"
  by (simp add: vbytes_def length_concat comp_def)

lemma vbytes_drop: "k < length (Segments v) \<Longrightarrow> drop (seg_start (Segments v) k) (vbytes m v) =
  slice_bytes m (Segments v ! k) @ drop (seg_start (Segments v) (Suc k)) (vbytes m v)"
proof -
  assume k: "k < length (Segments v)"
  have split: "vbytes m v = concat (map (slice_bytes m) (take j (Segments v))) @ concat (map (slice_bytes m) (drop j (Segments v)))" for j
    by (metis append_take_drop_id concat_append map_append vbytes_def)
  have len: "length (concat (map (slice_bytes m) (take j (Segments v)))) = seg_start (Segments v) j" for j
    by (simp add: seg_start_def length_concat comp_def)
  have dr: "drop (seg_start (Segments v) j) (vbytes m v) = concat (map (slice_bytes m) (drop j (Segments v)))" for j
    using split[of j] len[of j] by (metis append_eq_conv_conj)
  show ?thesis using k by (simp add: dr flip: Cons_nth_drop_Suc)
qed

lemma vbytes_nth:
  assumes "k < length (Segments v)" "j < sl_len (Segments v ! k)"
  shows "vbytes m v ! (seg_start (Segments v) k + j) = slice_bytes m (Segments v ! k) ! j"
    and "seg_start (Segments v) k + j < length (vbytes m v)"
proof -
  have "seg_start (Segments v) (Suc k) \<le> length (vbytes m v)"
    using seg_start_mono[of "Suc k" "length (Segments v)" "Segments v"] assms(1)
    by (simp add: length_vbytes seg_start_length)
  then show lt: "seg_start (Segments v) k + j < length (vbytes m v)"
    using assms by (simp add: seg_start_Suc)
  then have "vbytes m v ! (seg_start (Segments v) k + j) = drop (seg_start (Segments v) k) (vbytes m v) ! j"
    by simp
  also have "\<dots> = slice_bytes m (Segments v ! k) ! j"
    using assms by (simp add: vbytes_drop nth_append)
  finally show "vbytes m v ! (seg_start (Segments v) k + j) = slice_bytes m (Segments v ! k) ! j" .
qed

subsection \<open>Finding a segment\<close>

definition splits_at :: "int list \<Rightarrow> int \<Rightarrow> nat \<Rightarrow> bool" where
  "splits_at xs t r \<longleftrightarrow> r \<le> length xs \<and> (\<forall>k < r. xs ! k < t) \<and> (\<forall>k. r \<le> k \<longrightarrow> k < length xs \<longrightarrow> t \<le> xs ! k)"

lemma bsearch_spec:
  assumes "sorted xs" "i \<le> j" "j \<le> length xs"
    and "\<forall>k < i. xs ! k < t" "\<forall>k. j \<le> k \<longrightarrow> k < length xs \<longrightarrow> t \<le> xs ! k"
  shows "splits_at xs t (bsearch xs t i j)"
  using assms
proof (induction xs t i j rule: bsearch.induct)
  case (1 xs t i j)
  let ?h = "(i + j) div 2"
  show ?case
  proof (cases "i < j")
    case False
    then have "bsearch xs t i j = i" by (subst bsearch.simps) simp
    with False "1.prems" show ?thesis by (simp add: splits_at_def)
  next
    case True
    show ?thesis
    proof (cases "xs ! ?h < t")
      case lt: True
      have "\<forall>k < ?h + 1. xs ! k < t"
      proof (intro allI impI)
        fix k assume "k < ?h + 1"
        then have "xs ! k \<le> xs ! ?h" using "1.prems" True by (intro sorted_nth_mono) auto
        with lt show "xs ! k < t" by simp
      qed
      with "1.IH"(1)[OF True refl lt] "1.prems" True lt show ?thesis
        by (simp add: bsearch.simps[of xs t i j] Let_def)
    next
      case ge: False
      have "\<forall>k. ?h \<le> k \<longrightarrow> k < length xs \<longrightarrow> t \<le> xs ! k"
      proof (intro allI impI)
        fix k assume "?h \<le> k" "k < length xs"
        then have "xs ! ?h \<le> xs ! k" using "1.prems" by (intro sorted_nth_mono) auto
        with ge show "t \<le> xs ! k" by simp
      qed
      with "1.IH"(2)[OF True refl ge] "1.prems" True ge show ?thesis
        by (simp add: bsearch.simps[of xs t i j] Let_def)
    qed
  qed
qed

lemma sorted_seg_offsets: "sorted (seg_offsets c segs)"
  by (auto simp: sorted_iff_nth_mono nth_seg_offsets seg_start_mono)

text \<open>The segment an offset lies in, computed from the place \<open>r\<close> where a binary search stops.\<close>

lemma segment_at_split:
  assumes r: "splits_at (seg_offsets 0 segs) (int off) r" and pos: "\<forall>seg \<in> set segs. 0 < sl_len seg"
    and off: "off < sum_list (map sl_len segs)"
  defines "k \<equiv> (if r > 0 \<and> (r = length segs \<or> seg_offsets 0 segs ! r > int off) then r - 1 else r)"
  shows "k < length segs" "seg_start segs k \<le> off" "off < seg_start segs (Suc k)"
proof -
  let ?xs = "seg_offsets 0 segs" and ?prev = "r > 0 \<and> (r = length segs \<or> seg_offsets 0 segs ! r > int off)"
  have "segs \<noteq> []" using off by auto
  then show klen: "k < length segs" using r by (auto simp: k_def splits_at_def)
  have nth: "i < length segs \<Longrightarrow> ?xs ! i = int (seg_start segs i)" for i by (simp add: nth_seg_offsets)
  have "?prev \<Longrightarrow> ?xs ! k < int off" using r by (auto simp: k_def splits_at_def)
  moreover have "\<not> ?prev \<Longrightarrow> k = 0 \<or> ?xs ! k \<le> int off" using klen by (auto simp: k_def)
  ultimately show "seg_start segs k \<le> off" using nth[OF klen] by (cases ?prev) auto
  show "off < seg_start segs (Suc k)"
  proof (cases "Suc k < length segs")
    case last: True
    show ?thesis
    proof (cases ?prev)
      case True
      then show ?thesis using last nth[OF last] by (auto simp: k_def)
    next
      case False
      then have k: "k = r" by (auto simp: k_def)
      have "seg_start segs r < seg_start segs (Suc r)" using klen pos k by (simp add: seg_start_Suc)
      moreover have "int off \<le> ?xs ! r" using r klen k by (simp add: splits_at_def)
      ultimately show ?thesis using nth[OF last] nth[OF klen] k by simp
    qed
  next
    case False
    then have "Suc k = length segs" using klen by simp
    then show ?thesis using off by (simp add: seg_start_length)
  qed
qed

lemma findSegment_spec:
  assumes wf: "viewer_wf v" and off: "off < sum_list (map sl_len (Segments v))"
  obtains k j where "findSegment v (int off) = Some (k, int j)" "k < length (Segments v)"
    "j < sl_len (Segments v ! k)" "off = seg_start (Segments v) k + j"
proof -
  let ?segs = "Segments v"
  have xs: "offsets v = seg_offsets 0 ?segs" and pos: "\<forall>seg \<in> set ?segs. 0 < sl_len seg"
    using wf by (simp_all add: viewer_wf_def)
  define r where "r = bsearch (offsets v) (int off) 0 (length (offsets v))"
  have r: "splits_at (seg_offsets 0 ?segs) (int off) r"
    unfolding r_def xs by (rule bsearch_spec) (simp_all add: sorted_seg_offsets)
  define k where "k = (if r > 0 \<and> (r = length ?segs \<or> seg_offsets 0 ?segs ! r > int off) then r - 1 else r)"
  note k = segment_at_split[OF r pos off, folded k_def]
  have "findSegment v (int off) = Some (k, int (off - seg_start ?segs k))"
    using k r_def[symmetric] k_def[symmetric]
    by (simp add: findSegment_def Let_def xs nth_seg_offsets of_nat_diff)
  moreover have "off - seg_start ?segs k < sl_len (?segs ! k)"
    using k(2,3) by (simp add: seg_start_Suc[OF k(1)])
  ultimately show ?thesis using k(1,2) by (intro that[of k "off - seg_start ?segs k"]) simp_all
qed

subsection \<open>Bytes, iteration and comparison\<close>

lemma slice_get_nth: "j < sl_len seg \<Longrightarrow> slice_get m seg (int j) = Some (slice_bytes m seg ! j)"
  by (simp add: slice_get_def slice_bytes_def)

lemma ByteAt_spec:
  assumes "viewer_wf v" "off < length (vbytes m v)"
  shows "ByteAt m v (int off) = Some (vbytes m v ! off, None)"
proof -
  have "off < sum_list (map sl_len (Segments v))" using assms(2) by (simp add: length_vbytes)
  with assms(1) obtain k j where kj: "findSegment v (int off) = Some (k, int j)" "k < length (Segments v)"
    "j < sl_len (Segments v ! k)" "off = seg_start (Segments v) k + j"
    by (rule findSegment_spec)
  have "int off < Length v" using assms by (simp add: viewer_wf_def length_vbytes)
  with kj show ?thesis by (simp add: ByteAt_def slice_get_nth vbytes_nth)
qed

lemma slice_bytes_set_other:
  assumes "segs_disjoint segs" "j < length segs" "k < length segs" "j \<noteq> k" "i < sl_len (segs ! k)"
  shows "slice_bytes (mem_write m (sl_region (segs ! k)) (sl_off (segs ! k) + i) [b]) (segs ! j) = slice_bytes m (segs ! j)"
  using assms unfolding segs_disjoint_def slice_bytes_def
  by (intro mem_read_write_disj) fastforce

lemma SetByteAt_spec:
  assumes "viewer_wf v" "off < length (vbytes m v)"
  obtains m' where "SetByteAt m v (int off) b = Some (m', None)" "vbytes m' v = (vbytes m v)[off := b]"
    "\<forall>r i. (\<forall>seg \<in> set (Segments v). sl_region seg \<noteq> r \<or> i < sl_off seg \<or> sl_off seg + sl_len seg \<le> i) \<longrightarrow> m' r i = m r i"
proof -
  let ?segs = "Segments v"
  have off: "off < sum_list (map sl_len ?segs)" using assms(2) by (simp add: length_vbytes)
  with assms(1) obtain k j where kj: "findSegment v (int off) = Some (k, int j)" "k < length ?segs"
    "j < sl_len (?segs ! k)" "off = seg_start ?segs k + j"
    by (rule findSegment_spec)
  let ?m = "mem_write m (sl_region (?segs ! k)) (sl_off (?segs ! k) + j) [b]"
  have dis: "segs_disjoint ?segs" using assms(1) by (simp add: viewer_wf_def)
  have same: "slice_bytes ?m (?segs ! k) = (slice_bytes m (?segs ! k))[j := b]"
    using kj(3) by (intro nth_equalityI) (auto simp: slice_bytes_def mem_write_def nth_list_update)
  have "vbytes ?m v ! i = (vbytes m v)[off := b] ! i" if i: "i < length (vbytes m v)" for i
  proof -
    have "i < sum_list (map sl_len ?segs)" using i by (simp add: length_vbytes)
    with assms(1) obtain k' j' where kj': "k' < length ?segs" "j' < sl_len (?segs ! k')" "i = seg_start ?segs k' + j'"
      by (rule findSegment_spec)
    show ?thesis
    proof (cases "k' = k")
      case True
      with kj kj' i same show ?thesis by (simp add: vbytes_nth nth_list_update)
    next
      case False
      have "i \<noteq> off"
      proof -
        have "seg_start ?segs (Suc k') \<le> seg_start ?segs k \<or> seg_start ?segs (Suc k) \<le> seg_start ?segs k'"
          using False by (metis Suc_leI nat_neq_iff seg_start_mono)
        then show ?thesis using kj kj' by (auto simp: seg_start_Suc)
      qed
      with kj kj' False show ?thesis by (simp add: vbytes_nth slice_bytes_set_other[OF dis])
    qed
  qed
  then have "vbytes ?m v = (vbytes m v)[off := b]" by (intro nth_equalityI) (simp_all add: length_vbytes)
  moreover have "SetByteAt m v (int off) b = Some (?m, None)"
    using kj assms off by (simp add: SetByteAt_def slice_set_def viewer_wf_def)
  moreover have "?m r i = m r i" if "\<forall>seg \<in> set ?segs. sl_region seg \<noteq> r \<or> i < sl_off seg \<or> sl_off seg + sl_len seg \<le> i" for r i
    using that[rule_format, OF nth_mem[OF kj(2)]] kj(3) by (intro mem_write_other) auto
  ultimately show ?thesis using that by blast
qed

lemma iter_next_in: "k < length (Segments v) \<Longrightarrow> j < sl_len (Segments v ! k) \<Longrightarrow>
  iter_next m v (k, j) = ((slice_bytes m (Segments v ! k) ! j, True), k, Suc j)"
  by (simp add: iter_next.simps[of m v k j] slice_bytes_def Let_def)

lemma iter_next_skip: "k < length (Segments v) \<Longrightarrow> iter_next m v (k, sl_len (Segments v ! k)) = iter_next m v (Suc k, 0)"
  by (simp add: iter_next.simps[of m v k])

lemma iter_next_end: "iter_next m v (length (Segments v), j) = ((0, False), length (Segments v), j)"
  by (simp add: iter_next.simps)

lemma iter_take_spec:
  assumes "k < length (Segments v)" "j \<le> sl_len (Segments v ! k)" "viewer_wf v"
  shows "iter_take n m v (k, j) = take n (drop (seg_start (Segments v) k + j) (vbytes m v))"
  using assms
proof (induction n arbitrary: k j)
  case (Suc n)
  have step: "iter_take (Suc n) m v (k, j) = take (Suc n) (drop (seg_start (Segments v) k + j) (vbytes m v))"
    if "k < length (Segments v)" "j < sl_len (Segments v ! k)" for k j
  proof -
    have "drop (seg_start (Segments v) k + j) (vbytes m v) =
        slice_bytes m (Segments v ! k) ! j # drop (seg_start (Segments v) k + Suc j) (vbytes m v)"
      using vbytes_nth[OF that, of m] by (metis Cons_nth_drop_Suc add_Suc_right)
    with that Suc.IH[of k "Suc j"] Suc.prems(3) show ?thesis by (simp add: iter_next_in)
  qed
  show ?case
  proof (cases "j < sl_len (Segments v ! k)")
    case True
    with Suc.prems step show ?thesis by simp
  next
    case False
    with Suc.prems have j: "j = sl_len (Segments v ! k)" by simp
    show ?thesis
    proof (cases "Suc k < length (Segments v)")
      case True
      then have "0 < sl_len (Segments v ! Suc k)" using Suc.prems(3) by (simp add: viewer_wf_def)
      from step[OF True this] show ?thesis
        using Suc.prems j by (simp add: iter_next_skip seg_start_Suc)
    next
      case last: False
      then have "Suc k = length (Segments v)" using Suc.prems by simp
      moreover from this have "seg_start (Segments v) k + j = length (vbytes m v)"
        using Suc.prems j by (simp add: length_vbytes seg_start_length flip: seg_start_Suc)
      ultimately show ?thesis using Suc.prems j by (simp add: iter_next_skip iter_next_end)
    qed
  qed
qed simp

lemma compare_loop_spec:
  assumes "viewer_wf v" "length data = length (vbytes m v)" "i \<le> length (Segments v)"
  shows "compare_loop m v data i (drop i (Segments v)) =
    Some (drop (seg_start (Segments v) i) (vbytes m v) = drop (seg_start (Segments v) i) data)"
  using assms(3)
proof (induction "length (Segments v) - i" arbitrary: i)
  case 0
  then have "i = length (Segments v)" by simp
  then show ?case using assms(2) by (simp add: length_vbytes seg_start_length)
next
  case (Suc n)
  then have i: "i < length (Segments v)" by simp
  let ?a = "seg_start (Segments v) i" and ?seg = "Segments v ! i" and ?b = "seg_start (Segments v) (Suc i)"
  have b: "?b = ?a + sl_len ?seg" using i by (simp add: seg_start_Suc)
  have le: "?b \<le> length data"
    using seg_start_mono[of "Suc i" "length (Segments v)" "Segments v"] i assms(2)
    by (simp add: length_vbytes seg_start_length)
  have off: "offsets v ! i = int ?a" "i < length (offsets v)"
    using assms(1) i by (simp_all add: viewer_wf_def nth_seg_offsets)
  have d: "drop ?a data = take (sl_len ?seg) (drop ?a data) @ drop ?b data"
    by (metis append_take_drop_id b drop_drop add.commute)
  have len: "length (slice_bytes m ?seg) = length (take (sl_len ?seg) (drop ?a data))" using le b by simp
  have "drop ?a (vbytes m v) = drop ?a data \<longleftrightarrow>
      slice_bytes m ?seg @ drop ?b (vbytes m v) = take (sl_len ?seg) (drop ?a data) @ drop ?b data"
    using vbytes_drop[OF i, of m] d by argo
  also have "\<dots> \<longleftrightarrow> slice_bytes m ?seg = take (sl_len ?seg) (drop ?a data) \<and> drop ?b (vbytes m v) = drop ?b data"
    by (rule append_eq_append_conv) (rule disjI1, rule len)
  finally have split: "drop ?a (vbytes m v) = drop ?a data \<longleftrightarrow> \<dots>" .
  have "compare_loop m v data (Suc i) (drop (Suc i) (Segments v)) = Some (drop ?b (vbytes m v) = drop ?b data)"
    using Suc.hyps(1)[of "Suc i"] Suc.hyps(2) i by simp
  with i b le off show ?case
    unfolding split by (simp add: Cons_nth_drop_Suc[OF i, symmetric])
qed

subsection \<open>Searching\<close>

definition match_at :: "byte list \<Rightarrow> byte list \<Rightarrow> nat \<Rightarrow> bool" where
  "match_at bs target i \<longleftrightarrow> take (length target) (drop i bs) = target"

text \<open>The reference: the least position where the target occurs.\<close>

definition first_match :: "byte list \<Rightarrow> byte list \<Rightarrow> nat option" where
  "first_match bs target = find (match_at bs target) [0..<length bs]"

lemma match_at_hd: "target \<noteq> [] \<Longrightarrow> match_at bs target i \<Longrightarrow> i < length bs \<and> bs ! i = hd target"
proof -
  assume "target \<noteq> []" "match_at bs target i"
  then have "drop i bs \<noteq> []" "hd (drop i bs) = hd target"
    unfolding match_at_def by (auto, metis hd_take length_greater_0_conv)
  then show ?thesis by (simp add: hd_drop_conv_nth)
qed

lemma find_append: "find P (xs @ ys) = (case find P xs of Some x \<Rightarrow> Some x | None \<Rightarrow> find P ys)"
  by (induction xs) auto

lemma find_None_upt: "\<forall>i. a \<le> i \<longrightarrow> i < b \<longrightarrow> \<not> P i \<Longrightarrow> find P [a..<b] = None"
  by (simp add: find_None_iff)

lemma find_shift: "find P [a + b..<a + c] = map_option ((+) a) (find (\<lambda>i. P (a + i)) [b..<c])"
proof -
  have "[a + b..<a + c] = map ((+) a) [b..<c]" by (rule nth_equalityI) auto
  moreover have "find P (map f xs) = map_option f (find (\<lambda>i. P (f i)) xs)" for f :: "nat \<Rightarrow> nat" and xs
    by (induction xs) auto
  ultimately show ?thesis by simp
qed

lemma match_loop_spec:
  assumes "viewer_wf v" "k < length (Segments v)" "j \<le> sl_len (Segments v ! k)"
  shows "match_loop m v k j ts = Some (match_at (vbytes m v) ts (seg_start (Segments v) k + j))"
  using assms(2,3)
proof (induction ts arbitrary: k j)
  case (Cons t ts)
  have step: "match_loop m v k j (t # ts) = Some (match_at (vbytes m v) (t # ts) (seg_start (Segments v) k + j))"
    if "k < length (Segments v)" "j < sl_len (Segments v ! k)" for k j
  proof -
    have "drop (seg_start (Segments v) k + j) (vbytes m v) =
        slice_bytes m (Segments v ! k) ! j # drop (seg_start (Segments v) k + Suc j) (vbytes m v)"
      using vbytes_nth[OF that, of m] by (metis Cons_nth_drop_Suc add_Suc_right)
    with that Cons.IH[of k "Suc j"] show ?thesis by (auto simp: slice_get_nth match_at_def)
  qed
  show ?case
  proof (cases "j < sl_len (Segments v ! k)")
    case False
    with Cons.prems have j: "j = sl_len (Segments v ! k)" by simp
    show ?thesis
    proof (cases "Suc k < length (Segments v)")
      case True
      then have p: "0 < sl_len (Segments v ! Suc k)" using assms(1) by (simp add: viewer_wf_def)
      have "match_loop m v k j (t # ts) = match_loop m v (Suc k) 0 (t # ts)"
        using Cons.prems j True p by simp
      also have "\<dots> = Some (match_at (vbytes m v) (t # ts) (seg_start (Segments v) (Suc k) + 0))"
        by (rule step[OF True p])
      finally show ?thesis using Cons.prems j by (simp add: seg_start_Suc)
    next
      case last: False
      then have "Suc k = length (Segments v)" using Cons.prems by simp
      moreover from this have "seg_start (Segments v) k + j = length (vbytes m v)"
        using Cons.prems j by (simp add: length_vbytes seg_start_length flip: seg_start_Suc)
      ultimately show ?thesis using Cons.prems j by (simp add: match_at_def)
    qed
  qed (use Cons.prems step in simp)
qed (simp add: match_at_def)

lemma IndexByte_spec:
  "IndexByte bs b = (if b \<in> set bs then Some (length (takeWhile (\<lambda>x. x \<noteq> b) bs)) else None)"
  "b \<in> set bs \<Longrightarrow> length (takeWhile (\<lambda>x. x \<noteq> b) bs) < length bs"
  "i < length (takeWhile (\<lambda>x. x \<noteq> b) bs) \<Longrightarrow> bs ! i \<noteq> b"
proof -
  show lt: "b \<in> set bs \<Longrightarrow> length (takeWhile (\<lambda>x. x \<noteq> b) bs) < length bs" by (induction bs) auto
  show "bs ! i \<noteq> b" if i: "i < length (takeWhile (\<lambda>x. x \<noteq> b) bs)"
  proof -
    from i have "takeWhile (\<lambda>x. x \<noteq> b) bs ! i \<in> set (takeWhile (\<lambda>x. x \<noteq> b) bs)" by (rule nth_mem)
    then show ?thesis using takeWhile_nth[OF i] by (auto dest: set_takeWhileD)
  qed
  have "b \<notin> set bs \<Longrightarrow> length (takeWhile (\<lambda>x. x \<noteq> b) bs) = length bs" by (induction bs) auto
  with lt show "IndexByte bs b = (if b \<in> set bs then Some (length (takeWhile (\<lambda>x. x \<noteq> b) bs)) else None)"
    unfolding IndexByte_def Let_def by (cases "b \<in> set bs") auto
qed

text \<open>Skipping to the next occurrence of a byte does not miss a position that needs it.\<close>

lemma find_skip:
  assumes no: "\<And>p. p < length bs \<Longrightarrow> hit p \<Longrightarrow> bs ! p = b" and i: "i \<le> length bs"
  shows "find hit [i..<length bs] =
    (case IndexByte (drop i bs) b of None \<Rightarrow> None
     | Some d \<Rightarrow> if hit (i + d) then Some (i + d) else find hit [Suc (i + d)..<length bs])"
proof (cases "b \<in> set (drop i bs)")
  case False
  have "\<not> hit p" if "i \<le> p" "p < length bs" for p
  proof
    assume "hit p"
    then have "drop i bs ! (p - i) = b" using no that by simp
    moreover have "drop i bs ! (p - i) \<in> set (drop i bs)" using that by (intro nth_mem) simp
    ultimately show False using False by simp
  qed
  then have "find hit [i..<length bs] = None" by (intro find_None_upt) auto
  with False show ?thesis by (simp add: IndexByte_spec(1))
next
  case True
  let ?d = "length (takeWhile (\<lambda>x. x \<noteq> b) (drop i bs))"
  have d: "i + ?d < length bs" using IndexByte_spec(2)[OF True] by simp
  have "\<not> hit q" if "i \<le> q" "q < i + ?d" for q
  proof -
    have "q - i < ?d" using that by simp
    from IndexByte_spec(3)[OF this] show ?thesis using that d no[of q] by auto
  qed
  then have "find hit [i..<i + ?d] = None" by (intro find_None_upt) auto
  moreover have "[i..<length bs] = [i..<i + ?d] @ (i + ?d) # [Suc (i + ?d)..<length bs]"
    using d upt_split[of i "i + ?d" "length bs"] by (simp add: upt_conv_Cons)
  ultimately show ?thesis using True by (simp add: find_append IndexByte_spec(1))
qed

lemma index_seg_spec:
  fixes m :: mem
  assumes wf: "viewer_wf v" and k: "k < length (Segments v)" and t: "target \<noteq> []"
    and seg: "seg = Segments v ! k" and st: "startIdx \<le> sl_len seg"
  defines "hit \<equiv> \<lambda>p. match_at (vbytes m v) target (seg_start (Segments v) k + p)"
  shows "index_seg m v k seg target startIdx = Some (find hit [startIdx..<sl_len seg])"
  using st
proof (induction "sl_len seg - startIdx" arbitrary: startIdx rule: less_induct)
  case less
  let ?bs = "slice_bytes m seg" and ?a = "seg_start (Segments v) k"
  have no: "p < length ?bs \<Longrightarrow> hit p \<Longrightarrow> ?bs ! p = hd target" for p
    using match_at_hd[OF t, of "vbytes m v" "?a + p"] vbytes_nth(1)[OF k, of p m] by (auto simp: hit_def seg)
  have test: "(if p + length target \<le> sl_len seg then Some (take (length target) (drop p ?bs) = target)
      else matchAcrossSegments m v k p target) = Some (hit p)" if "p < sl_len seg" for p
  proof -
    have "drop (?a + p) (vbytes m v) = drop p (drop ?a (vbytes m v))" by (simp add: add.commute)
    then have "hit p \<longleftrightarrow> take (length target) (drop p ?bs) = target" if "p + length target \<le> sl_len seg"
      using that k by (simp add: hit_def match_at_def vbytes_drop seg del: drop_drop)
    moreover have "match_loop m v k p target = Some (hit p)"
      using match_loop_spec[OF wf k, of p m target] that by (simp add: hit_def seg)
    ultimately show ?thesis by (simp add: matchAcrossSegments_def)
  qed
  note skip = find_skip[of ?bs hit "hd target" startIdx, OF no]
  show ?case
  proof (cases "startIdx < sl_len seg \<and> IndexByte (drop startIdx ?bs) (hd target) \<noteq> None")
    case False
    then show ?thesis using skip less.prems by (auto simp: index_seg.simps[of m v k seg])
  next
    case True
    then obtain d where d: "IndexByte (drop startIdx ?bs) (hd target) = Some d" by auto
    then have p: "startIdx + d < sl_len seg"
      using IndexByte_spec(2)[of "hd target" "drop startIdx ?bs"] by (auto simp: IndexByte_spec(1) split: if_splits)
    then have "index_seg m v k seg target (Suc (startIdx + d)) = Some (find hit [Suc (startIdx + d)..<sl_len seg])"
      using less.hyps[of "Suc (startIdx + d)"] by simp
    then show ?thesis
      using skip less.prems d True test[OF p] by (simp add: index_seg.simps[of m v k seg target startIdx] Let_def)
  qed
qed

lemma index_loop_spec:
  assumes wf: "viewer_wf v" and t: "target \<noteq> []" and k: "k \<le> length (Segments v)"
  shows "index_loop m v target k (drop k (Segments v)) =
    Some (case find (match_at (vbytes m v) target) [seg_start (Segments v) k..<length (vbytes m v)] of
            Some p \<Rightarrow> int p | None \<Rightarrow> -1)"
  using k
proof (induction "length (Segments v) - k" arbitrary: k)
  case 0
  then have "k = length (Segments v)" by simp
  then show ?case by (simp add: length_vbytes seg_start_length)
next
  case (Suc n)
  then have k: "k < length (Segments v)" by simp
  let ?a = "seg_start (Segments v) k" and ?b = "seg_start (Segments v) (Suc k)" and ?seg = "Segments v ! k"
  have b: "?b = ?a + sl_len ?seg" using k by (simp add: seg_start_Suc)
  have le: "?b \<le> length (vbytes m v)"
    using seg_start_mono[of "Suc k" "length (Segments v)" "Segments v"] k by (simp add: length_vbytes seg_start_length)
  have off: "offsets v ! k = int ?a" "k < length (offsets v)"
    using wf k by (simp_all add: viewer_wf_def nth_seg_offsets)
  have IH: "index_loop m v target (Suc k) (drop (Suc k) (Segments v)) =
    Some (case find (match_at (vbytes m v) target) [?b..<length (vbytes m v)] of Some p \<Rightarrow> int p | None \<Rightarrow> -1)"
    using Suc.hyps k by simp
  have "find (match_at (vbytes m v) target) [?a + 0..<?a + sl_len ?seg] =
      map_option ((+) ?a) (find (\<lambda>p. match_at (vbytes m v) target (?a + p)) [0..<sl_len ?seg])"
    by (rule find_shift)
  moreover have "[?a..<length (vbytes m v)] = [?a..<?b] @ [?b..<length (vbytes m v)]"
    using le b by (intro upt_split) simp_all
  ultimately have "find (match_at (vbytes m v) target) [?a..<length (vbytes m v)] =
      (case find (\<lambda>p. match_at (vbytes m v) target (?a + p)) [0..<sl_len ?seg] of
         Some p \<Rightarrow> Some (?a + p) | None \<Rightarrow> find (match_at (vbytes m v) target) [?b..<length (vbytes m v)])"
    by (simp add: find_append b split: option.splits)
  moreover have "index_seg m v k ?seg target 0 = Some (find (\<lambda>p. match_at (vbytes m v) target (?a + p)) [0..<sl_len ?seg])"
    using index_seg_spec[OF wf k t refl, of 0 m] by simp
  ultimately show ?case
    using off IH by (simp add: Cons_nth_drop_Suc[OF k, symmetric] split: option.splits)
qed

subsection \<open>Building a viewer\<close>

definition seg_apart :: "slice \<Rightarrow> slice \<Rightarrow> bool" where
  "seg_apart a b \<longleftrightarrow> sl_region a \<noteq> sl_region b \<or> sl_off a + sl_len a \<le> sl_off b \<or> sl_off b + sl_len b \<le> sl_off a"

definition seg_within :: "slice \<Rightarrow> slice \<Rightarrow> bool" where
  "seg_within a b \<longleftrightarrow> sl_region a = sl_region b \<and> sl_off b \<le> sl_off a \<and> sl_off a + sl_len a \<le> sl_off b + sl_len b"

lemma segs_disjoint_Nil [simp]: "segs_disjoint []"
  by (simp add: segs_disjoint_def)

lemma segs_disjoint_Cons:
  assumes "segs_disjoint segs" "\<forall>b \<in> set segs. seg_apart a b"
  shows "segs_disjoint (a # segs)"
  unfolding segs_disjoint_def
proof (intro allI impI)
  fix j k assume jk: "j < length (a # segs)" "k < length (a # segs)" "j \<noteq> k"
  have nth: "seg_apart a (segs ! i)" if "i < length segs" for i using assms(2) that by simp
  show "sl_region ((a # segs) ! j) \<noteq> sl_region ((a # segs) ! k)
     \<or> sl_off ((a # segs) ! j) + sl_len ((a # segs) ! j) \<le> sl_off ((a # segs) ! k)
     \<or> sl_off ((a # segs) ! k) + sl_len ((a # segs) ! k) \<le> sl_off ((a # segs) ! j)"
    using jk nth[of "j - 1"] nth[of "k - 1"] assms(1)
    by (cases j; cases k) (auto simp: segs_disjoint_def seg_apart_def)
qed

lemma within_apart: "seg_within a b \<Longrightarrow> seg_within c d \<Longrightarrow> seg_apart b d \<Longrightarrow> seg_apart a c"
  by (auto simp: seg_within_def seg_apart_def)

text \<open>What the loop of \<open>View\<close> collects for the bytes from \<open>a\<close> up to \<open>e\<close> (counted from the header).\<close>

definition segs_for :: "slice list \<Rightarrow> nat \<Rightarrow> nat \<Rightarrow> slice list \<Rightarrow> bool" where
  "segs_for blks a e segs \<longleftrightarrow>
     (\<forall>m. concat (map (slice_bytes m) segs) = map (cell m blks) [a..<e])
     \<and> (\<forall>seg \<in> set segs. 0 < sl_len seg)
     \<and> sum_list (map sl_len segs) = e - a
     \<and> (\<forall>seg \<in> set segs. \<exists>j. a div BlockSize \<le> j \<and> j < length blks \<and> seg_within seg (blks ! j))
     \<and> segs_disjoint segs"

lemma segs_for_empty: "e \<le> a \<Longrightarrow> segs_for blks a e []"
  by (simp add: segs_for_def)

lemma segs_for_within: "segs_for blks a e segs \<Longrightarrow> seg \<in> set segs \<Longrightarrow> k \<le> a div BlockSize \<Longrightarrow>
  \<exists>j \<ge> k. j < length blks \<and> seg_within seg (blks ! j)"
  unfolding segs_for_def by (meson le_trans)

lemma step_len_next:
  assumes "step_len off rem < rem"
  shows "off div BlockSize < (off + step_len off rem) div BlockSize"
proof -
  have "step_len off rem = BlockSize - off mod BlockSize" using assms by (auto simp: step_len_def min_def)
  moreover have "BlockSize * (off div BlockSize) + off mod BlockSize = off" by simp
  moreover have "off mod BlockSize < BlockSize" by (simp add: BlockSize_def)
  ultimately have "off + step_len off rem = BlockSize * (off div BlockSize) + BlockSize" by linarith
  then show ?thesis by (simp add: BlockSize_def)
qed

lemma segs_for_step:
  assumes wf: "blocks_wf blks" and a: "a < e" and e: "e \<le> span blks"
    and segs: "segs_for blks (a + step_len a (e - a)) e segs"
  defines "b \<equiv> blks ! (a div BlockSize)"
  shows "segs_for blks a e (\<lparr>sl_region = sl_region b, sl_off = sl_off b + a mod BlockSize, sl_len = step_len a (e - a)\<rparr> # segs)"
proof -
  let ?c = "step_len a (e - a)" and ?k = "a div BlockSize"
  let ?s = "\<lparr>sl_region = sl_region b, sl_off = sl_off b + a mod BlockSize, sl_len = ?c\<rparr>"
  have c: "0 < ?c" "a + ?c \<le> e" "a mod BlockSize + ?c \<le> BlockSize"
    using step_len_bounds(1)[of "e - a" a] step_len_bounds(2,3)[of a "e - a"] a by auto
  have k: "?k < length blks" using span_div[of a blks] a e by simp
  have ok: "block_ok b" unfolding b_def by (rule blocks_wf_nth[OF wf k])
  have w: "seg_within ?s b" using ok c(3) by (simp add: seg_within_def)
  have bytes: "slice_bytes m ?s = map (cell m blks) [a..<a + ?c]" for m
    using cell_run[OF c(3), of m blks] by (simp add: slice_bytes_def b_def)
  have "seg_apart ?s seg" if seg: "seg \<in> set segs" for seg
  proof -
    obtain j where j: "(a + ?c) div BlockSize \<le> j" "j < length blks" "seg_within seg (blks ! j)"
      using segs seg by (auto simp: segs_for_def)
    have "?c < e - a"
    proof (rule ccontr)
      assume "\<not> ?c < e - a"
      then have "sum_list (map sl_len segs) \<le> 0" using segs unfolding segs_for_def by linarith
      moreover have "0 < sl_len seg" using segs seg by (simp add: segs_for_def)
      moreover have "sl_len seg \<le> sum_list (map sl_len segs)" using seg by (intro member_le_sum_list) auto
      ultimately show False by linarith
    qed
    then have "?k \<noteq> j" using step_len_next[of a "e - a"] j(1) by simp
    then have "seg_apart b (blks ! j)"
      using blocks_wf_apart[OF wf k j(2)] blocks_wf_nth[OF wf] k j(2) unfolding seg_apart_def b_def
      by (metis block_ok_len)
    with w j(3) show ?thesis by (rule within_apart)
  qed
  moreover have "a div BlockSize \<le> (a + ?c) div BlockSize" by (rule div_le_mono) simp
  then have "\<forall>seg \<in> set segs. \<exists>j. ?k \<le> j \<and> j < length blks \<and> seg_within seg (blks ! j)"
    using segs_for_within[OF segs] by blast
  ultimately show ?thesis
    using segs c k w bytes map_upt_append[of a "a + ?c" e]
    unfolding segs_for_def
    by (auto intro!: segs_disjoint_Cons simp: b_def)
qed

lemma view_copyLen:
  assumes "a < e"
  shows "(if int a + (int BlockSize - int (a mod BlockSize)) > int e then int e - int a
    else int BlockSize - int (a mod BlockSize)) = int (step_len a (e - a))"
proof -
  have "a mod BlockSize < BlockSize" by (simp add: BlockSize_def)
  then show ?thesis using assms by (auto simp: step_len_def min_def of_nat_diff)
qed

lemma view_segments_spec:
  assumes wf: "blocks_wf blks" and e: "e \<le> span blks"
  shows "\<exists>segs. view_segments blks (int a) (int e) = Some segs \<and> segs_for blks a e segs"
proof (induction "e - a" arbitrary: a rule: less_induct)
  case less
  show ?case
  proof (cases "a < e")
    case False
    then show ?thesis by (simp add: view_segments.simps segs_for_empty)
  next
    case True
    let ?c = "step_len a (e - a)"
    have c: "0 < ?c" "a mod BlockSize + ?c \<le> BlockSize" 
      using step_len_bounds(1)[of "e - a" a] step_len_bounds(3)[of a "e - a"] True by auto
    have k: "a div BlockSize < length blks" using span_div[of a blks] True e by simp
    have "e - (a + ?c) < e - a" using c(1) True by simp
    from less[OF this] obtain segs where segs: "view_segments blks (int (a + ?c)) (int e) = Some segs"
      "segs_for blks (a + ?c) e segs" by auto
    let ?b = "blks ! (a div BlockSize)"
    have ok: "block_ok ?b" by (rule blocks_wf_nth[OF wf k])
    have "go_slice ?b (int (a mod BlockSize)) (int (a mod BlockSize) + int ?c) =
        Some \<lparr>sl_region = sl_region ?b, sl_off = sl_off ?b + a mod BlockSize, sl_len = ?c\<rparr>"
      using ok c by (simp add: go_slice_def)
    then have "view_segments blks (int a) (int e) =
        Some (\<lparr>sl_region = sl_region ?b, sl_off = sl_off ?b + a mod BlockSize, sl_len = ?c\<rparr> # segs)"
      using True k segs(1)
      by (simp add: view_segments.simps[of blks "int a"] off_split view_copyLen[OF True] Let_def)
    with segs_for_step[OF wf True e segs(2)] show ?thesis by blast
  qed
qed

text \<open>The arguments for which \<open>View\<close> shows data: the end of the range is computed modulo \<open>2 ^ 32\<close>.\<close>

definition view_end :: "stripe \<Rightarrow> int \<Rightarrow> int \<Rightarrow> nat" where
  "view_end s offset len = min (nat ((offset + len) mod 2 ^ 32)) (unat (DataLen s))"

lemma uint_view_end: "uint (min (word_of_int (offset + len)) (DataLen s)) = int (view_end s offset len)"
proof -
  have "unat (word_of_int (offset + len) :: uint32) = nat ((offset + len) mod 2 ^ 32)"
    unfolding unat_eq_nat_uint uint_word_of_int by simp
  moreover have "unat (min v w) = min (unat v) (unat w)" for v w :: uint32
    by (simp add: min_def word_le_nat_alt)
  ultimately have "unat (min (word_of_int (offset + len)) (DataLen s)) = view_end s offset len"
    unfolding view_end_def by (simp only:)
  then show ?thesis by (metis of_nat_unat)
qed

lemma View_spec:
  assumes ok: "stripe_ok m s" and off: "off < view_end s (int off) len"
  obtains v where "View s (int off) len = Some (Inr v)" "viewer_wf v"
    "\<forall>m. vbytes m v = map (cell m (Blocks s)) [BlockSize + off..<BlockSize + view_end s (int off) len]"
    "\<forall>seg \<in> set (Segments v). \<exists>j. 1 \<le> j \<and> j < length (Blocks s) \<and> seg_within seg (Blocks s ! j)"
proof -
  let ?n = "view_end s (int off) len"
  have n: "?n \<le> unat (DataLen s)" by (simp add: view_end_def)
  then have "BlockSize + ?n \<le> span (Blocks s)"
    using stripe_okD(4)[OF ok] span_capacity[OF stripe_okD(1)[OF ok]] by simp
  from view_segments_spec[OF stripe_okD(2)[OF ok] this] obtain segs where
    segs: "view_segments (Blocks s) (int (BlockSize + off)) (int (BlockSize + ?n)) = Some segs"
    "segs_for (Blocks s) (BlockSize + off) (BlockSize + ?n) segs" by blast
  let ?v = "\<lparr>Segments = segs, offsets = seg_offsets 0 segs, Length = int ?n - int off\<rparr>"
  have "int off < uint (DataLen s)" using off n by (simp add: int_less_uint)
  then have "View s (int off) len = Some (Inr ?v)"

    using off segs(1) by (simp add: View_def Let_def uint_view_end add.commute[of _ "int BlockSize"] del: of_int_add)
  moreover have "viewer_wf ?v" "\<forall>m. vbytes m ?v = map (cell m (Blocks s)) [BlockSize + off..<BlockSize + ?n]"
    using segs(2) off by (simp_all add: viewer_wf_def segs_for_def vbytes_def)
  moreover have "1 \<le> (BlockSize + off) div BlockSize" by (simp add: BlockSize_def)
  then have "\<forall>seg \<in> set (Segments ?v). \<exists>j. 1 \<le> j \<and> j < length (Blocks s) \<and> seg_within seg (Blocks s ! j)"
    using segs_for_within[OF segs(2)] by simp
  ultimately show ?thesis by (rule that)
qed

end
