(* ===== verification/Viewer_Spec.thy ===== *)
theory Viewer_Spec
  imports Stripe_Viewer
begin

text \<open>
  What the zero-copy \<open>Viewer\<close> of \<^verbatim>\<open>go/shm/stripe.go\<close> promises: \<open>View\<close> shows the requested range of the
  stripe's data, the methods read, search and compare exactly those bytes, and a byte set
  through a viewer is a byte written to the stripe.
\<close>

subsection \<open>A viewer aliases the stripe\<close>

text \<open>Position \<open>j\<close> of segment \<open>k\<close> is the same memory cell as the byte of the stripe it shows.\<close>

lemma view_address:
  assumes shows_cells: "\<forall>m. vbytes m v = map (cell m blks) [a..<e]"
    and k: "k < length (Segments v)" and j: "j < sl_len (Segments v ! k)"
  defines "q \<equiv> a + (seg_start (Segments v) k + j)"
  shows "q < e" and "sl_region (Segments v ! k) = sl_region (blks ! (q div BlockSize))"
    and "sl_off (Segments v ! k) + j = sl_off (blks ! (q div BlockSize)) + q mod BlockSize"
proof -
  let ?p = "seg_start (Segments v) k + j" and ?seg = "Segments v ! k" and ?b = "blks ! (q div BlockSize)"
  have "?p < length (vbytes m v)" for m using vbytes_nth(2)[OF k j] .
  then have p: "?p < e - a" using shows_cells by (metis diff_zero length_map length_upt)
  then show "q < e" by (simp add: q_def)
  have "m (sl_region ?seg) (sl_off ?seg + j) = m (sl_region ?b) (sl_off ?b + q mod BlockSize)" for m :: mem
  proof -
    have "m (sl_region ?seg) (sl_off ?seg + j) = vbytes m v ! ?p"
      using vbytes_nth(1)[OF k j, of m] j by (simp add: slice_bytes_def)
    also have "\<dots> = cell m blks q" using shows_cells p by (simp add: q_def)
    finally show ?thesis by (simp add: cell_def)
  qed
  from this[of "\<lambda>r i. if r = sl_region ?seg \<and> i = sl_off ?seg + j then 1 else 0"]
  show "sl_region ?seg = sl_region ?b" "sl_off ?seg + j = sl_off ?b + q mod BlockSize"
    by (auto split: if_splits)
qed

lemma WriteByteAt_inside:
  assumes "stripe_ok m s" "off < unat (DataLen s)"
  defines "q \<equiv> BlockSize + off"
  shows "WriteByteAt m s b (int off) = Some (mem_write m (sl_region (Blocks s ! (q div BlockSize)))
    (sl_off (Blocks s ! (q div BlockSize)) + q mod BlockSize) [b], s, None)"
proof -
  have cap: "off < capacity s" using assms(2) stripe_okD(4)[OF assms(1)] by simp
  have small: "off < 2 ^ 28" using cap capacity_bound[OF stripe_okD(3)[OF assms(1)]] by simp
  have q: "q < span (Blocks s)" using cap span_capacity[OF stripe_okD(1)[OF assms(1)]] by (simp add: q_def)
  have k: "q div BlockSize < length (Blocks s)" by (rule span_div[OF q])
  have ok: "block_ok (Blocks s ! (q div BlockSize))" by (rule blocks_wf_nth[OF stripe_okD(2)[OF assms(1)] k])
  have i: "i64 (int off + int BlockSize) = int q"
    using small by (subst i64_id) (simp_all add: q_def BlockSize_def)
  have md: "q mod BlockSize < BlockSize" by (simp add: BlockSize_def)
  have "\<not> DataLen s < word_of_int (int q - int BlockSize + 1)"
  proof -
    have "int q - int BlockSize + 1 = int (Suc off)" by (simp add: q_def)
    moreover have "unat (word_of_nat (Suc off) :: uint32) = Suc off"
      using small by (simp add: unat_of_nat del: of_nat_Suc)
    ultimately show ?thesis using assms(2) by (simp add: word_less_nat_alt del: of_nat_Suc)
  qed
  with k ok md show ?thesis
    unfolding WriteByteAt_def Let_def i off_split by (simp add: slice_set_def)
qed

lemma SetByteAt_address:
  assumes wf: "viewer_wf v" and shows_cells: "\<forall>m. vbytes m v = map (cell m blks) [a..<e]" and p: "p < e - a"
  defines "q \<equiv> a + p"
  shows "SetByteAt m v (int p) b = Some (mem_write m (sl_region (blks ! (q div BlockSize)))
    (sl_off (blks ! (q div BlockSize)) + q mod BlockSize) [b], None)"
proof -
  have "length (vbytes undefined v) = e - a" using shows_cells by simp
  then have len: "p < sum_list (map sl_len (Segments v))" using p by (simp add: length_vbytes)
  with wf obtain k j where kj: "findSegment v (int p) = Some (k, int j)" "k < length (Segments v)"
    "j < sl_len (Segments v ! k)" "p = seg_start (Segments v) k + j"
    by (rule findSegment_spec)
  have "int p < Length v" using wf len by (simp add: viewer_wf_def)
  with kj view_address[OF shows_cells kj(2,3)] show ?thesis
    by (simp add: SetByteAt_def slice_set_def q_def)
qed

lemma View_data:
  assumes ok: "stripe_ok m s" and len: "0 \<le> len" "int off + len < 2 ^ 32" and pos: "len \<noteq> 0" "off < unat (DataLen s)"
  defines "k \<equiv> min (nat len) (unat (DataLen s) - off)"
  obtains v where "View s (int off) len = Some (Inr v)" "viewer_wf v" "Length v = int k"
    "\<forall>m. vbytes m v = map (cell m (Blocks s)) [BlockSize + off..<BlockSize + (off + k)]"
proof -
  have "(int off + len) mod 2 ^ 32 = int off + len" using len by simp
  then have "view_end s (int off) len = min (nat (int off + len)) (unat (DataLen s))"
    unfolding view_end_def by presburger
  then have e: "view_end s (int off) len = off + k" using len pos by (auto simp: k_def min_def)
  have lt: "off < view_end s (int off) len" using len pos by (simp add: e k_def)
  obtain v where v: "View s (int off) len = Some (Inr v)" "viewer_wf v"
    "\<forall>m. vbytes m v = map (cell m (Blocks s)) [BlockSize + off..<BlockSize + (off + k)]"
    by (rule View_spec[OF ok lt, unfolded e])
  have "length (vbytes m v) = k" using v(3) by simp
  then have "Length v = int k" using v(2) by (simp add: viewer_wf_def length_vbytes)
  with v show ?thesis using that by blast
qed

lemma View_no_data:
  assumes "0 \<le> len" "0 \<le> off" "off + len < 2 ^ 32" "len = 0 \<or> uint (DataLen s) \<le> off"
  shows "View s off len = Some (Inl EOF)"
proof (cases "uint (DataLen s) \<le> off")
  case False
  then have "len = 0" using assms by simp
  moreover have "off mod 2 ^ 32 = off" using assms by simp
  ultimately have "int (view_end s off len) \<le> off" using assms(2) unfolding view_end_def by simp
  with False assms(2) show ?thesis by (simp add: View_def Let_def uint_view_end del: of_int_add)
qed (use assms(2) in \<open>simp add: View_def\<close>)

lemma View_data_inv:
  assumes ok: "stripe_ok m s" and len: "0 \<le> len" "off + len < 2 ^ 32" and v: "View s off len = Some (Inr v)"
  shows "0 \<le> off" "viewer_wf v"
    "\<forall>m. vbytes m v = map (cell m (Blocks s)) [BlockSize + nat off..<BlockSize + (nat off + nat (Length v))]"
    "nat off + nat (Length v) \<le> unat (DataLen s)"
proof -
  show off: "0 \<le> off" using v by (simp add: View_def split: if_splits)
  then obtain k where k: "off = int k" by (metis nonneg_int_cases)
  have "\<not> (len = 0 \<or> uint (DataLen s) \<le> off)" using View_no_data[OF len(1) off len(2)] v by auto
  then have pos: "len \<noteq> 0" "k < unat (DataLen s)" using k uint_le_int[of "DataLen s" k] by auto
  obtain w where "View s (int k) len = Some (Inr w)" "viewer_wf w"
    "Length w = int (min (nat len) (unat (DataLen s) - k))"
    "\<forall>m. vbytes m w = map (cell m (Blocks s)) [BlockSize + k..<BlockSize + (k + min (nat len) (unat (DataLen s) - k))]"
    using View_data[OF ok len(1) _ pos] len(2) k by auto
  with v k pos show "viewer_wf v"
    "\<forall>m. vbytes m v = map (cell m (Blocks s)) [BlockSize + nat off..<BlockSize + (nat off + nat (Length v))]"
    "nat off + nat (Length v) \<le> unat (DataLen s)"
    by auto
qed

lemma iter_take_all: "viewer_wf v \<Longrightarrow> iter_take n m v (0, 0) = take n (vbytes m v)"
proof (cases "Segments v = []")
  case True
  then have "iter_next m v (0, 0) = ((0, False), 0, 0)" using iter_next_end[of m v 0] by simp
  with True show ?thesis by (cases n) (simp_all add: vbytes_def)
qed (simp add: iter_take_spec)

lemma find_least:
  "case find P [0..<n] of None \<Rightarrow> \<forall>i < n. \<not> P i | Some p \<Rightarrow> p < n \<and> P p \<and> (\<forall>i < p. \<not> P i)"
  by (auto simp: find_None_iff find_Some_iff split: option.splits)

subsection \<open>Properties\<close>

text \<open>A viewer of two segments over the bytes of the example stripe, for the witnesses.\<close>

definition ex_viewer :: viewer where
  "ex_viewer = \<lparr>Segments = [\<lparr>sl_region = 0, sl_off = 4096, sl_len = 3\<rparr>, \<lparr>sl_region = 0, sl_off = 4099, sl_len = 2\<rparr>],
     offsets = [0, 3], Length = 5\<rparr>"

lemma ex_viewer_wf: "viewer_wf ex_viewer"
  by (auto simp: viewer_wf_def ex_viewer_def intro!: segs_disjoint_Cons simp: seg_apart_def)

lemma ex_vbytes: "vbytes ex_mem ex_viewer = [11, 12, 13, 14, 15]"
  by (simp add: vbytes_def ex_viewer_def slice_bytes_def mem_read_def ex_mem_def mem_write_def upt_rec)

text \<open>C32: \<open>View\<close> hands its callback a viewer on exactly the requested data: a negative offset is an
  error, an empty range or an offset past the data is \<open>io.EOF\<close>, and otherwise the viewer's
  segments, concatenated, are the data from the offset on, cut at the data length. No byte is
  copied: the viewer keeps showing the stripe's bytes when the memory changes to any \<open>m'\<close>.
  (For a range that ends below \<open>2 ^ 32\<close>.)\<close>

theorem View_correct:
  assumes "stripe_ok m s" and "0 \<le> len" and "off + len < 2 ^ 32"
  shows "if off < 0 then View s off len = Some (Inl NegativeOffset)
    else if len = 0 \<or> length (contents m s) \<le> nat off then View s off len = Some (Inl EOF)
    else \<exists>v. View s off len = Some (Inr v) \<and> viewer_wf v
      \<and> Length v = int (min (nat len) (length (contents m s) - nat off))
      \<and> (\<forall>m'. vbytes m' v = take (nat len) (drop (nat off) (contents m' s)))"
proof (cases "off < 0")
  case False
  then obtain k where k: "off = int k" by (metis not_less nonneg_int_cases)
  have ok: "Blocks s \<noteq> []" "unat (DataLen s) \<le> capacity s" using assms(1) by (simp_all add: stripe_okD)
  show ?thesis
  proof (cases "len = 0 \<or> length (contents m s) \<le> nat off")
    case True
    with False show ?thesis using View_no_data[of len off s] assms length_contents[OF assms(1)] uint_le_int k by auto
  next
    case data: False
    then have pos: "len \<noteq> 0" "k < unat (DataLen s)" using length_contents[OF assms(1)] k by auto
    obtain v where v: "View s (int k) len = Some (Inr v)" "viewer_wf v"
      "Length v = int (min (nat len) (unat (DataLen s) - k))"
      "\<forall>m. vbytes m v = map (cell m (Blocks s)) [BlockSize + k..<BlockSize + (k + min (nat len) (unat (DataLen s) - k))]"
      using View_data[OF assms(1,2) _ pos] assms(3) k by auto
    have "vbytes m' v = take (nat len) (drop k (contents m' s))" for m'
      using v(4) region_run[OF ok(1), of k "min (nat len) (unat (DataLen s) - k)" m'] ok(2) pos
      by (simp add: add.assoc contents_def drop_take)
    with v False data k length_contents[OF assms(1)] show ?thesis by auto
  qed
qed (simp add: View_def)

theorem View_correct_witness:
  "\<exists>v. View ex_stripe 2 10 = Some (Inr v) \<and> vbytes ex_mem v = [13, 14, 15]"
proof -
  obtain v where "View ex_stripe 2 10 = Some (Inr v)"
    "\<forall>m'. vbytes m' v = take (nat 10) (drop (nat 2) (contents m' ex_stripe))"
    using View_correct[OF ex_stripe_ok, of 10 2] ex_contents by auto
  then show ?thesis by (simp add: ex_contents)
qed

text \<open>C33: A viewer writes through to the stripe: \<open>SetByteAt\<close> on a viewer of the stripe has, byte for
  byte of the shared memory, the effect of \<open>WriteByteAt\<close> at the corresponding offset, and leaves
  the stripe's data length alone.\<close>

theorem SetByteAt_writes_through:
  assumes "stripe_ok m s" and "0 \<le> len" and "off + len < 2 ^ 32" and "View s off len = Some (Inr v)"
    and "0 \<le> i" and "i < Length v"
  shows "map_option (\<lambda>(m', err). (m', s, err)) (SetByteAt m v i b) = WriteByteAt m s b (off + i)"
proof -
  note v = View_data_inv[OF assms(1-4)]
  obtain k p where k: "off = int k" and p: "i = int p" using v(1) assms(5) by (metis nonneg_int_cases)
  have pl: "p < nat (Length v)" using assms(6) p by simp
  have "SetByteAt m v (int p) b = Some (mem_write m (sl_region (Blocks s ! ((BlockSize + k + p) div BlockSize)))
    (sl_off (Blocks s ! ((BlockSize + k + p) div BlockSize)) + (BlockSize + k + p) mod BlockSize) [b], None)"
    using SetByteAt_address[OF v(2,3), of p m b] pl k by simp
  moreover have "k + p < unat (DataLen s)" using v(4) pl k by simp
  ultimately show ?thesis
    using WriteByteAt_inside[OF assms(1), of "k + p" b] k p by (simp add: add.assoc)
qed

theorem SetByteAt_writes_through_witness:
  "\<exists>v. View ex_stripe 2 10 = Some (Inr v)
    \<and> map_option (\<lambda>(m', err). (m', ex_stripe, err)) (SetByteAt ex_mem v 1 9) = WriteByteAt ex_mem ex_stripe 9 3"
proof -
  obtain v where v: "View ex_stripe (int 2) 10 = Some (Inr v)" "Length v = int (min (nat 10) (unat (DataLen ex_stripe) - 2))"
    using View_data[OF ex_stripe_ok, of 10 2] by (auto simp: ex_data_len)
  then have "View ex_stripe 2 10 = Some (Inr v)" "1 < Length v" by (simp_all add: ex_data_len)
  with SetByteAt_writes_through[OF ex_stripe_ok, of 10 2 v 1 9] show ?thesis by (intro exI[of _ v]) simp
qed

text \<open>\<open>ByteAt\<close> and the iterator read exactly the bytes of the viewer: \<open>ByteAt\<close> finds any position by
  binary search over the segment offsets, with an error outside the view; draining the iterator
  yields the bytes in order, each once, and then reports the end.\<close>

theorem Viewer_reads:
  assumes "viewer_wf v"
  shows "ByteAt m v i = Some (if 0 \<le> i \<and> nat i < length (vbytes m v) then (vbytes m v ! nat i, None) else (0, Some OutOfBounds))
    \<and> iter_take n m v (0, 0) = take n (vbytes m v)"
proof
  have len: "Length v = int (length (vbytes m v))" using assms by (simp add: viewer_wf_def length_vbytes)
  show "ByteAt m v i = Some (if 0 \<le> i \<and> nat i < length (vbytes m v) then (vbytes m v ! nat i, None) else (0, Some OutOfBounds))"
  proof (cases "0 \<le> i \<and> nat i < length (vbytes m v)")
    case True
    with ByteAt_spec[OF assms, of "nat i" m] show ?thesis by simp
  qed (auto simp: ByteAt_def len)
  show "iter_take n m v (0, 0) = take n (vbytes m v)" by (rule iter_take_all[OF assms])
qed

theorem Viewer_reads_witness:
  "ByteAt ex_mem ex_viewer 3 = Some (14, None) \<and> iter_take 9 ex_mem ex_viewer (0, 0) = [11, 12, 13, 14, 15]"
  using Viewer_reads[OF ex_viewer_wf, of ex_mem 3 9] by (simp add: ex_vbytes)

text \<open>\<open>Compare\<close> is equality of byte strings: it answers true exactly when its argument is the bytes
  of the viewer, and never panics.\<close>

theorem Compare_correct:
  assumes "viewer_wf v"
  shows "Compare m v data = Some (data = vbytes m v)"
proof (cases "length data = length (vbytes m v)")
  case True
  with compare_loop_spec[OF assms True, of 0] assms show ?thesis
    by (auto simp: Compare_def viewer_wf_def length_vbytes)
next
  case False
  then show ?thesis using assms by (auto simp: Compare_def viewer_wf_def length_vbytes)
qed

theorem Compare_correct_witness: "Compare ex_mem ex_viewer [11, 12, 13, 14, 15] = Some True"
  using Compare_correct[OF ex_viewer_wf, of ex_mem "[11, 12, 13, 14, 15]"] by (simp add: ex_vbytes)

text \<open>C34: \<open>Index\<close> is substring search: it returns 0 for the empty string, otherwise the least position
  where the string occurs in the viewer's bytes, also when the occurrence crosses segments,
  and -1 when there is none. It never panics.\<close>

theorem Index_correct:
  assumes "viewer_wf v"
  shows "\<exists>r. Index m v target = Some r \<and>
    (if target = [] then r = 0
     else r = -1 \<and> (\<forall>i < length (vbytes m v). take (length target) (drop i (vbytes m v)) \<noteq> target)
       \<or> 0 \<le> r \<and> take (length target) (drop (nat r) (vbytes m v)) = target
         \<and> (\<forall>i < nat r. take (length target) (drop i (vbytes m v)) \<noteq> target))"
proof (cases "target = []")
  case False
  have "Index m v target = Some (case find (match_at (vbytes m v) target) [0..<length (vbytes m v)] of
            Some p \<Rightarrow> int p | None \<Rightarrow> -1)"
    using index_loop_spec[OF assms False, of 0 m] False by (simp add: Index_def)
  with False find_least[of "length (vbytes m v)" "match_at (vbytes m v) target"] show ?thesis
    by (auto simp: match_at_def split: option.splits)
qed (simp add: Index_def)

theorem Index_correct_witness: "Index ex_mem ex_viewer [13, 14] = Some 2"
proof -
  have at: "take (length [13, 14 :: byte]) (drop i [11, 12, 13, 14, 15]) = [13, 14 :: byte] \<longleftrightarrow> i = 2" for i :: nat
    by (cases "i < 5") (auto simp: less_Suc_eq numeral_eq_Suc)
  from Index_correct[OF ex_viewer_wf, of ex_mem "[13, 14]"] show ?thesis
    unfolding ex_vbytes at by (auto dest: spec[of _ "2 :: nat"])
qed

text \<open>The end of the requested range is computed in 32 bits. A request that reaches past the end
  of the data by a length of \<open>2 ^ 32 - offset\<close> (so that the end wraps to 0) is answered with
  \<open>io.EOF\<close> although data is there, where a shorter request shows that data.\<close>

theorem View_range_wraps:
  assumes "0 \<le> off" and "off < uint (DataLen s)"
  shows "View s off (2 ^ 32 - off) = Some (Inl EOF)"
proof -
  have "view_end s off (2 ^ 32 - off) = 0" by (simp add: view_end_def)
  with assms show ?thesis unfolding View_def Let_def uint_view_end by simp
qed

theorem View_range_wraps_witness:
  "View ex_stripe 2 4294967294 = Some (Inl EOF) \<and> length (contents ex_mem ex_stripe) = 5"
  using View_range_wraps[of 2 ex_stripe] int_less_uint[of 2 "DataLen ex_stripe"]
  by (simp add: ex_contents ex_data_len)

end
