(* ===== verification/Bus_Alloc.thy ===== *)
theory Bus_Alloc
  imports Stripe_Spec
begin

text \<open>
  \<^verbatim>\<open>go/shm/bus.go\<close>: the block allocator of the hub.

  The bus owns up to 64 chunks of 1024 blocks; one bitmap word stands for 32 blocks. An operation
  runs here without interference, so every compare-and-swap finds the value that was loaded and
  the retry loops run once; \<open>Bus_Concurrent\<close> treats the interleaved runs.
  \<open>appended\<close> is the sequence of chunks handed to \<open>onChunkAppended\<close>, and \<open>kern\<close> the descriptor
  table of the process. \<open>os n\<close> gives the results of the system calls that create chunk
  number \<open>n\<close>. The outer \<open>option\<close> is a Go panic.
\<close>

subsection \<open>State\<close>

record bus =
  lastSearchPos :: nat
  chunkCount :: nat
  bitmap :: "uint32 list"
  chunks :: "chunk list"
  appended :: "chunk list"
  kern :: kernel

definition NewBus :: "chunk option \<Rightarrow> bool \<Rightarrow> kernel \<Rightarrow> go_error + bus" where
  "NewBus firstChunk hasCallback k =
     (case firstChunk of
        None \<Rightarrow> Inl FirstChunkNil
      | Some c \<Rightarrow>
          if \<not> hasCallback then Inl CallbackNil
          else Inr \<lparr>lastSearchPos = 0, chunkCount = 1, bitmap = replicate (BlocksPerChunk div 32) 0,
                    chunks = [c], appended = [], kern = k\<rparr>)"

definition ChunkCount :: "bus \<Rightarrow> int" where
  "ChunkCount b = int (chunkCount b)"

subsection \<open>Claiming bits of a word\<close>

definition TrailingZeros32 :: "uint32 \<Rightarrow> nat" where
  "TrailingZeros32 w = length (takeWhile (\<lambda>i. \<not> bit w i) [0..<32])"

text \<open>The loop over \<open>tempWord\<close>: the new word and the bits found, in the order they are found.\<close>

function find_bits :: "uint32 \<Rightarrow> int \<Rightarrow> uint32 \<Rightarrow> nat list \<Rightarrow> uint32 \<times> nat list" where
  "find_bits tempWord remaining newVal foundBits =
     (if tempWord \<noteq> 0 \<and> int (length foundBits) < remaining then
        let bitIdx = TrailingZeros32 tempWord in
        find_bits (tempWord AND NOT (push_bit bitIdx 1)) remaining
          (newVal OR push_bit bitIdx 1) (foundBits @ [bitIdx])
      else (newVal, foundBits))"
  by pat_completeness auto
termination
  by (relation "measure (\<lambda>(tempWord, remaining, newVal, foundBits). nat (remaining - int (length foundBits)))") auto

declare find_bits.simps [simp del]

subsection \<open>Allocation\<close>

definition block_at :: "chunk list \<Rightarrow> int16 \<Rightarrow> int16 \<Rightarrow> block option" where
  "block_at cks cid bidx = do {
     c \<leftarrow> go_nth cks (sint (NOT cid));
     let offset = (scast bidx :: uint32) * of_nat BlockSize;
     d \<leftarrow> chunk_slice c (uint offset) (uint (offset + of_nat BlockSize));
     Some \<lparr>bk_ChunkID = cid, bk_BlockIdx = bidx, bk_Data = d\<rparr>
   }"

fun claim_blocks :: "chunk list \<Rightarrow> nat \<Rightarrow> nat list \<Rightarrow> block list option" where
  "claim_blocks cks wordIdx [] = Some []"
| "claim_blocks cks wordIdx (bitIdx # bits) = do {
     let bitPos = (of_nat (wordIdx * 32 + bitIdx) :: uint64);
     let (cid, bidx) = ParseBlockAddress bitPos;
     blk \<leftarrow> block_at cks cid bidx;
     blks \<leftarrow> claim_blocks cks wordIdx bits;
     Some (blk # blks)
   }"

text \<open>
  One pass over the bitmap from \<open>startWord\<close>. The result is the bitmap, the blocks collected so
  far, how many are still missing and, when none is, the word the last one was found in.
\<close>

function scan ::
  "chunk list \<Rightarrow> nat \<Rightarrow> nat \<Rightarrow> uint32 list \<Rightarrow> int \<Rightarrow> block list \<Rightarrow> (uint32 list \<times> block list \<times> int \<times> nat option) option" where
  "scan cks startWord i bm remaining allocated =
     (if i < length bm \<and> remaining > 0 then
        let wordIdx = (startWord + i) mod length bm; old = bm ! wordIdx in
        if old = 0xFFFFFFFF then scan cks startWord (Suc i) bm remaining allocated
        else
          let (newVal, foundBits) = find_bits (NOT old) remaining old [] in
          if foundBits = [] then scan cks startWord (Suc i) bm remaining allocated
          else do {
            blks \<leftarrow> claim_blocks cks wordIdx foundBits;
            let bm' = bm[wordIdx := newVal];
            let remaining' = remaining - int (length foundBits);
            if remaining' = 0 then Some (bm', allocated @ blks, remaining', Some wordIdx)
            else scan cks startWord (Suc i) bm' remaining' (allocated @ blks)
          }
      else Some (bm, allocated, remaining, None))"
  by pat_completeness auto
termination
  by (relation "measure (\<lambda>(cks, startWord, i, bm, remaining, allocated). length bm - i)") auto

declare scan.simps [simp del]

definition FreeBlock :: "bus \<Rightarrow> int16 \<Rightarrow> int16 \<Rightarrow> bus option" where
  "FreeBlock b chunkID blockIdx =
     (let globalBlockIdx = GetBlockAddress chunkID blockIdx;
          wordIdx = globalBlockIdx sdiv 32
      in if wordIdx \<ge> int (length (bitmap b)) then Some b
         else
           let bitIdx = globalBlockIdx smod 32;
               mosk = NOT (if bitIdx < 0 then 0 else push_bit (nat bitIdx) 1) :: uint32
           in do {
             old \<leftarrow> go_nth (bitmap b) wordIdx;
             Some (b\<lparr>bitmap := (bitmap b)[nat wordIdx := old AND mosk]\<rparr>)
           })"

fun free_blocks :: "bus \<Rightarrow> block list \<Rightarrow> bus option" where
  "free_blocks b [] = Some b"
| "free_blocks b (res # rest) = do {
     b \<leftarrow> FreeBlock b (bk_ChunkID res) (bk_BlockIdx res);
     free_blocks b rest
   }"

text \<open>\<open>fmt.Sprintf("mmfg_chunk%d", count)\<close>.\<close>

fun decimal :: "nat \<Rightarrow> string" where
  "decimal n = (if n < 10 then [char_of (48 + n)] else decimal (n div 10) @ [char_of (48 + n mod 10)])"

declare decimal.simps [simp del]

definition tryAppendChunk :: "(nat \<Rightarrow> chunk_sys) \<Rightarrow> bus \<Rightarrow> go_error option \<times> bus" where
  "tryAppendChunk os b =
     (let count = chunkCount b in
      if count \<ge> MaxChunks then (Some (AllocFailed (int count)), b)
      else
        case NewChunk (os count) (''mmfg_chunk'' @ decimal count) (kern b) of
          (Inl err, k) \<Rightarrow> (Some err, b\<lparr>kern := k\<rparr>)
        | (Inr chunk, k) \<Rightarrow>
            (None, b\<lparr>chunks := chunks b @ [chunk],
                     bitmap := bitmap b @ replicate (BlocksPerChunk div 32) 0,
                     chunkCount := chunkCount b + 1,
                     appended := appended b @ [chunk], kern := k\<rparr>))"

lemma tryAppendChunk_count: "tryAppendChunk os b = (None, b') \<Longrightarrow> chunkCount b < MaxChunks \<and> chunkCount b' = Suc (chunkCount b)"
  by (auto simp: tryAppendChunk_def Let_def split: if_splits prod.splits sum.splits)

function alloc_loop ::
  "(nat \<Rightarrow> chunk_sys) \<Rightarrow> bus \<Rightarrow> int \<Rightarrow> block list \<Rightarrow> ((go_error + block list) \<times> bus) option" where
  "alloc_loop os b remaining allocated =
     (let numWords = length (bitmap b) in
      if numWords = 0 then None
      else
        case scan (chunks b) (lastSearchPos b mod numWords) 0 (bitmap b) remaining allocated of
          None \<Rightarrow> None
        | Some (bm, allocated', remaining', Some wordIdx) \<Rightarrow>
            Some (Inr allocated', b\<lparr>bitmap := bm, lastSearchPos := (wordIdx + 1) mod numWords\<rparr>)
        | Some (bm, allocated', remaining', None) \<Rightarrow>
            (case tryAppendChunk os (b\<lparr>bitmap := bm\<rparr>) of
               (Some err, b') \<Rightarrow> map_option (\<lambda>b'. (Inl err, b')) (free_blocks b' allocated')
             | (None, b') \<Rightarrow> alloc_loop os b' remaining' allocated'))"
  by pat_completeness auto
termination
  by (relation "measure (\<lambda>(os, b, remaining, allocated). MaxChunks - chunkCount b)")
     (auto dest!: tryAppendChunk_count[OF sym])

declare alloc_loop.simps [simp del]

text \<open>
  \<open>make([]Block, 0, count)\<close> panics when the capacity is negative or the array would exceed the
  \<open>2 ^ 48\<close> bytes of the address space of the Go runtime (linux/amd64); a \<open>Block\<close> has 32 bytes.
\<close>

definition MaxMakeBlocks :: int where
  "MaxMakeBlocks = 2 ^ 43"

definition AllocBlocks :: "(nat \<Rightarrow> chunk_sys) \<Rightarrow> bus \<Rightarrow> int \<Rightarrow> ((go_error + block list) \<times> bus) option" where
  "AllocBlocks os b count = (if count < 0 \<or> count > MaxMakeBlocks then None else alloc_loop os b count [])"

lemma makeable: "n \<le> 4294967296 \<Longrightarrow> int n \<le> MaxMakeBlocks"
  by (simp add: MaxMakeBlocks_def)

lemma AllocBlocks_Some: "AllocBlocks os b (int n) = Some r \<Longrightarrow> int n \<le> MaxMakeBlocks"
  by (simp add: AllocBlocks_def split: if_splits)

subsection \<open>Looking up blocks and chunks\<close>

definition GetBlock :: "bus \<Rightarrow> int16 \<Rightarrow> int16 \<Rightarrow> (go_error + block) option" where
  "GetBlock b chunkID blockIdx =
     (let realCID = sint (NOT chunkID) in
      if realCID \<ge> int (length (chunks b)) then Some (Inl (ChunkNotFound realCID))
      else map_option Inr (block_at (chunks b) chunkID blockIdx))"

definition GetChunk :: "bus \<Rightarrow> int16 \<Rightarrow> chunk option" where
  "GetChunk b cid =
     (let realID = sint (NOT cid) in
      if realID < 0 \<or> realID \<ge> int (length (chunks b)) then None else Some (chunks b ! nat realID))"

subsection \<open>Stripes\<close>

fun append_sequence :: "int16 \<Rightarrow> int16 list \<Rightarrow> block list \<Rightarrow> int16 list" where
  "append_sequence chunkID sequence [] = sequence"
| "append_sequence chunkID sequence (blk # blks) =
     (let sequence = (if bk_ChunkID blk \<noteq> chunkID then sequence @ [bk_ChunkID blk] else sequence);
          chunkID = (if bk_ChunkID blk \<noteq> chunkID then bk_ChunkID blk else chunkID)
      in append_sequence chunkID (sequence @ [bk_BlockIdx blk]) blks)"

text \<open>The result of the stripe operations: the error or the stripe, the memory and the bus.\<close>

definition AllocStripe ::
  "(nat \<Rightarrow> chunk_sys) \<Rightarrow> mem \<Rightarrow> bus \<Rightarrow> int \<Rightarrow> ((go_error + stripe) \<times> mem \<times> bus) option" where
  "AllocStripe os m b blockCount = do {
     (res, b) \<leftarrow> AllocBlocks os b blockCount;
     (case res of
        Inl err \<Rightarrow> Some (Inl err, m, b)
      | Inr blocks \<Rightarrow> do {
          let s = \<lparr>Sequence = append_sequence 0 [] blocks, BlockCount = blockCount,
                   Blocks = map bk_Data blocks, DataLen = 0\<rparr>;
          m \<leftarrow> UpdateStripeHeader m s;
          Some (Inr s, m, b)
        })
   }"

fun last_chunk :: "int16 list \<Rightarrow> int16" where
  "last_chunk [] = 0"
| "last_chunk (x # xs) = (if sint x < 0 then x else last_chunk xs)"

definition AllocBlocksForStripe ::
  "(nat \<Rightarrow> chunk_sys) \<Rightarrow> mem \<Rightarrow> bus \<Rightarrow> stripe \<Rightarrow> int \<Rightarrow> (go_error option \<times> stripe \<times> mem \<times> bus) option" where
  "AllocBlocksForStripe os m b s count = do {
     (res, b) \<leftarrow> AllocBlocks os b count;
     (case res of
        Inl err \<Rightarrow> Some (Some err, s, m, b)
      | Inr blocks \<Rightarrow> do {
          let s = s\<lparr>Sequence := append_sequence (last_chunk (rev (Sequence s))) (Sequence s) blocks,
                    Blocks := Blocks s @ map bk_Data blocks,
                    BlockCount := BlockCount s + int (length blocks)\<rparr>;
          m \<leftarrow> UpdateStripeHeader m s;
          Some (None, s, m, b)
        })
   }"

fun free_sequence :: "bus \<Rightarrow> int16 \<Rightarrow> int16 list \<Rightarrow> bus option" where
  "free_sequence b chunkID [] = Some b"
| "free_sequence b chunkID (i # ids) =
     (if sint i < 0 then free_sequence b i ids
      else do {
        b \<leftarrow> FreeBlock b chunkID i;
        free_sequence b chunkID ids
      })"

definition FreeStripe :: "bus \<Rightarrow> stripe \<Rightarrow> bus option" where
  "FreeStripe b s = free_sequence b 0 (Sequence s)"

end
