(* ===== verification/Bus_Spec.thy ===== *)
theory Bus_Spec
  imports Bus_Alloc
begin

text \<open>
  What the allocator of \<^verbatim>\<open>go/shm/bus.go\<close> promises. The abstract value of the bitmap is the set
  of used block addresses; a pass over the bitmap takes the first free addresses in scan order,
  and \<open>AllocBlocks\<close> takes exactly as many as asked for, or none.
\<close>

subsection \<open>The bits of a word\<close>

definition set_bits32 :: "uint32 \<Rightarrow> nat list" where
  "set_bits32 w = filter (bit w) [0..<32]"

lemma set_set_bits32: "set (set_bits32 w) = {i. i < 32 \<and> bit w i}"
  by (auto simp: set_bits32_def)

lemma set_bits32_Nil: "set_bits32 w = [] \<longleftrightarrow> w = 0"
proof
  assume "set_bits32 w = []"
  then have "\<not> bit w i" if "i < 32" for i using that by (auto simp: set_bits32_def filter_empty_conv)
  then show "w = 0" by (intro bit_word_eqI) simp
qed (simp add: set_bits32_def)

lemma filter_hd_takeWhile:
  "filter P [a..<b] = (let k = a + length (takeWhile (\<lambda>i. \<not> P i) [a..<b]) in if k < b then k # filter P [Suc k..<b] else [])"
proof (induction "b - a" arbitrary: a)
  case (Suc n)
  then have ab: "a < b" "n = b - Suc a" by simp_all
  then have "[a..<b] = a # [Suc a..<b]" by (simp add: upt_conv_Cons)
  then show ?case using Suc.hyps(1)[OF ab(2)] ab(1) by (simp add: Let_def)
qed simp

lemma set_bits32_step:
  assumes "w \<noteq> 0"
  defines "k \<equiv> TrailingZeros32 w"
  shows "set_bits32 w = k # set_bits32 (w AND NOT (push_bit k 1))" and "k < 32" and "bit w k"
proof -
  have eq: "set_bits32 w = (if k < 32 then k # filter (bit w) [Suc k..<32] else [])"
    using filter_hd_takeWhile[of "bit w" 0 32] by (simp add: set_bits32_def k_def TrailingZeros32_def Let_def)
  then show k: "k < 32" using assms(1) set_bits32_Nil[of w] by (simp split: if_splits)
  then have "k \<in> set (set_bits32 w)" using eq by simp
  then show "bit w k" by (simp add: set_set_bits32)
  have below: "\<not> bit w i" if "i < k" for i
  proof -
    have "[0..<32] ! i \<in> set (takeWhile (\<lambda>i. \<not> bit w i) [0..<32])"
      using that k unfolding k_def TrailingZeros32_def
      by (metis nth_mem takeWhile_nth)
    then show ?thesis using that k by (auto dest: set_takeWhileD)
  qed
  have clear: "bit (w AND NOT (push_bit k 1)) i \<longleftrightarrow> bit w i \<and> i \<noteq> k" if "i < 32" for i
    using that by (auto simp: bit_simps)
  have "[0..<32] = [0..<k] @ k # [Suc k..<32]"
    using k upt_split[of 0 k 32] by (simp add: upt_conv_Cons)
  moreover have "filter (bit (w AND NOT (push_bit k 1))) [0..<k] = []"
    using k below clear by (auto simp: filter_empty_conv)
  moreover have "filter (bit (w AND NOT (push_bit k 1))) [Suc k..<32] = filter (bit w) [Suc k..<32]"
    using clear by (intro filter_cong) auto
  ultimately have "set_bits32 (w AND NOT (push_bit k 1)) = filter (bit w) [Suc k..<32]"
    using clear[OF k] by (simp add: set_bits32_def)
  with eq k show "set_bits32 w = k # set_bits32 (w AND NOT (push_bit k 1))" by simp
qed

lemma find_bits_spec:
  assumes "int (length fb) \<le> rem"
  shows "\<exists>nv'. find_bits tw rem nv fb = (nv', fb @ take (nat rem - length fb) (set_bits32 tw))
    \<and> (\<forall>i < 32. bit nv' i \<longleftrightarrow> bit nv i \<or> i \<in> set (take (nat rem - length fb) (set_bits32 tw)))"
  using assms
proof (induction tw rem nv fb rule: find_bits.induct)
  case (1 tw rem nv fb)
  show ?case
  proof (cases "tw \<noteq> 0 \<and> int (length fb) < rem")
    case False
    then have "take (nat rem - length fb) (set_bits32 tw) = []"
      using "1.prems" by (auto simp: set_bits32_Nil[THEN iffD2])
    moreover have "find_bits tw rem nv fb = (nv, fb)"
      by (subst find_bits.simps) (simp only: False if_False)
    ultimately show ?thesis by auto
  next
    case True
    let ?k = "TrailingZeros32 tw"
    let ?tw = "tw AND NOT (push_bit ?k 1)" and ?nv = "nv OR push_bit ?k 1"
    note st = set_bits32_step[OF conjunct1[OF True]]
    have n: "nat rem - length fb = Suc (nat rem - length (fb @ [?k]))"
      using True by (auto simp: zless_nat_eq_int_zless)
    have tk: "take (nat rem - length fb) (set_bits32 tw) = ?k # take (nat rem - length (fb @ [?k])) (set_bits32 ?tw)"
      unfolding st(1) n by simp
    obtain nv' where nv': "find_bits ?tw rem ?nv (fb @ [?k]) =
        (nv', (fb @ [?k]) @ take (nat rem - length (fb @ [?k])) (set_bits32 ?tw))"
      "\<forall>i < 32. bit nv' i \<longleftrightarrow> bit ?nv i \<or> i \<in> set (take (nat rem - length (fb @ [?k])) (set_bits32 ?tw))"
      using "1.IH"[OF True refl] True by auto
    have "find_bits tw rem nv fb = find_bits ?tw rem ?nv (fb @ [?k])"
      using True by (simp add: find_bits.simps[of tw] Let_def)
    with nv' tk show ?thesis by (intro exI[of _ nv']) (auto simp: bit_simps)
  qed
qed

subsection \<open>Used addresses\<close>

definition used_bits :: "uint32 list \<Rightarrow> nat set" where
  "used_bits bm = {a. a < 32 * length bm \<and> bit (bm ! (a div 32)) (a mod 32)}"

definition free_in :: "uint32 list \<Rightarrow> nat \<Rightarrow> nat list" where
  "free_in bm w = map (\<lambda>i. w * 32 + i) (set_bits32 (NOT (bm ! w)))"

definition free_order :: "uint32 list \<Rightarrow> nat list \<Rightarrow> nat list" where
  "free_order bm ws = concat (map (free_in bm) ws)"

text \<open>The words a pass visits from step \<open>i\<close> on.\<close>

definition scan_words :: "nat \<Rightarrow> nat \<Rightarrow> nat \<Rightarrow> nat list" where
  "scan_words start i n = map (\<lambda>j. (start + j) mod n) [i..<n]"

lemma scan_words_step: "i < n \<Longrightarrow> scan_words start i n = (start + i) mod n # scan_words start (Suc i) n"
  by (simp add: scan_words_def upt_conv_Cons)

lemma distinct_scan_words: "distinct (scan_words start i n)"
  unfolding scan_words_def
  by (rule distinct_map[THEN iffD2]) (auto intro: inj_on_subset[OF rot_inj])

lemma set_scan_words_0: "set (scan_words start 0 n) = {..<n}"
  using rot_surj[of start n] by (auto simp: scan_words_def atLeast0LessThan)

lemma set_scan_words: "set (scan_words start i n) \<subseteq> {..<n}"
  by (auto simp: scan_words_def)

lemma set_free_in: "w < length bm \<Longrightarrow> set (free_in bm w) = {a. a div 32 = w \<and> a \<notin> used_bits bm}"
proof (intro set_eqI iffI)
  fix a assume w: "w < length bm" and "a \<in> set (free_in bm w)"
  then obtain i where i: "a = w * 32 + i" "i < 32" "\<not> bit (bm ! w) i"
    by (auto simp: free_in_def set_set_bits32 bit_simps)
  then show "a \<in> {a. a div 32 = w \<and> a \<notin> used_bits bm}" by (simp add: used_bits_def)
next
  fix a assume w: "w < length bm" and "a \<in> {a. a div 32 = w \<and> a \<notin> used_bits bm}"
  then have a: "a div 32 = w" "\<not> bit (bm ! w) (a mod 32)" by (auto simp: used_bits_def)
  then have "a mod 32 \<in> set (set_bits32 (NOT (bm ! w)))" by (simp add: set_set_bits32 bit_simps)
  moreover have "a = w * 32 + a mod 32" using a(1) by (metis div_mult_mod_eq)
  ultimately show "a \<in> set (free_in bm w)" unfolding free_in_def by (metis image_eqI set_map)
qed

lemma distinct_free_in: "distinct (free_in bm w)"
  by (simp add: free_in_def distinct_map set_bits32_def inj_on_def)

lemma set_free_order:
  "set ws \<subseteq> {..<length bm} \<Longrightarrow> set (free_order bm ws) = {a. a div 32 \<in> set ws \<and> a \<notin> used_bits bm}"
proof (induction ws)
  case (Cons w ws)
  then show ?case by (auto simp: free_order_def set_free_in)
qed (simp add: free_order_def)

lemma distinct_free_order:
  "distinct ws \<Longrightarrow> set ws \<subseteq> {..<length bm} \<Longrightarrow> distinct (free_order bm ws)"
proof (induction ws)
  case (Cons w ws)
  then have "set (free_in bm w) \<inter> set (free_order bm ws) = {}"
    by (auto simp: set_free_in set_free_order)
  with Cons show ?case by (simp add: free_order_def distinct_free_in)
qed (simp add: free_order_def)

lemma free_order_update: "w \<notin> set ws \<Longrightarrow> free_order (bm[w := x]) ws = free_order bm ws"
proof -
  assume "w \<notin> set ws"
  then have "free_in (bm[w := x]) v = free_in bm v" if "v \<in> set ws" for v
    using that by (cases "v = w") (simp_all add: free_in_def)
  then show ?thesis unfolding free_order_def by (intro arg_cong[where f = concat] map_cong) simp_all
qed

lemma used_bits_update:
  assumes "w < length bm" and "\<forall>i < 32. bit x i \<longleftrightarrow> bit (bm ! w) i \<or> i \<in> set is" and "set is \<subseteq> {..<32}"
  shows "used_bits (bm[w := x]) = used_bits bm \<union> (\<lambda>i. w * 32 + i) ` set is"
proof (rule set_eqI)
  fix a
  show "a \<in> used_bits (bm[w := x]) \<longleftrightarrow> a \<in> used_bits bm \<union> (\<lambda>i. w * 32 + i) ` set is"
  proof (cases "a div 32 = w")
    case True
    then have "a < 32 * length bm" using assms(1) by (simp add: div_less_iff_less_mult mult.commute)
    moreover have "a = w * 32 + a mod 32" using True by (metis div_mult_mod_eq)
    then have "a \<in> (\<lambda>i. w * 32 + i) ` set is \<longleftrightarrow> a mod 32 \<in> set is"
      by (metis (no_types, lifting) add_left_cancel image_iff)
    ultimately show ?thesis using True assms(1,2) by (simp add: used_bits_def)
  next
    case False
    then have "a \<notin> (\<lambda>i. w * 32 + i) ` set is" using assms(3) by auto
    with False show ?thesis by (auto simp: used_bits_def)
  qed
qed

subsection \<open>Blocks of addresses\<close>

definition chunk_ok :: "chunk \<Rightarrow> bool" where
  "chunk_ok c \<longleftrightarrow> (case ck_Data c of None \<Rightarrow> False | Some s \<Rightarrow> sl_off s = 0 \<and> sl_len s = ChunkSize)"

definition chunk_region :: "chunk \<Rightarrow> nat" where
  "chunk_region c = (case ck_Data c of None \<Rightarrow> 0 | Some s \<Rightarrow> sl_region s)"

definition block_of :: "chunk list \<Rightarrow> nat \<Rightarrow> block" where
  "block_of cks a = \<lparr>bk_ChunkID = NOT (of_nat (a div 1024)), bk_BlockIdx = of_nat (a mod 1024),
     bk_Data = \<lparr>sl_region = chunk_region (cks ! (a div 1024)), sl_off = BlockSize * (a mod 1024), sl_len = BlockSize\<rparr>\<rparr>"

definition chunks_ok :: "chunk list \<Rightarrow> bool" where
  "chunks_ok cks \<longleftrightarrow> list_all chunk_ok cks \<and> distinct (map chunk_region cks) \<and> length cks \<le> MaxChunks"

lemma block_of_sel [simp]:
  "bk_ChunkID (block_of cks a) = NOT (of_nat (a div 1024))" "bk_BlockIdx (block_of cks a) = of_nat (a mod 1024)"
  "sl_len (bk_Data (block_of cks a)) = BlockSize"
  by (simp_all add: block_of_def)

lemma chunks_ok_nth: "chunks_ok cks \<Longrightarrow> i < length cks \<Longrightarrow>
  ck_Data (cks ! i) = Some \<lparr>sl_region = chunk_region (cks ! i), sl_off = 0, sl_len = ChunkSize\<rparr>"
  by (auto simp: chunks_ok_def list_all_length chunk_ok_def chunk_region_def split: option.splits)

lemma chunks_ok_bound: "chunks_ok cks \<Longrightarrow> a < 1024 * length cks \<Longrightarrow> a < 65536 \<and> a div 1024 < length cks \<and> a div 1024 < 64"
  by (auto simp: chunks_ok_def MaxChunks_def)

lemma block_at_of:
  assumes "chunks_ok cks" "c < length cks" "k < 1024"
  shows "block_at cks (NOT (of_nat c)) (of_nat k) = Some (block_of cks (c * 1024 + k))"
proof -
  have c: "c < 64" using assms(1,2) by (simp add: chunks_ok_def MaxChunks_def)
  then have cid: "sint (NOT (NOT (of_nat c)) :: int16) = int c" using sint_small[of c] by simp
  have "(scast (of_nat k :: int16) :: uint32) = of_nat k"
    using sint_small[of k] assms(3) by (simp add: scast_eq)
  then have off: "(scast (of_nat k :: int16) :: uint32) * of_nat BlockSize = of_nat (BlockSize * k)" by simp
  have small: "BlockSize * k + BlockSize \<le> ChunkSize" "BlockSize * k + BlockSize < 2 ^ 32"
    using assms(3) by (simp_all add: BlockSize_def ChunkSize_def)
  then have u: "uint (of_nat (BlockSize * k) :: uint32) = int (BlockSize * k)"
    "uint (of_nat (BlockSize * k) + of_nat BlockSize :: uint32) = int (BlockSize * k + BlockSize)"
    by (simp_all add: unsigned_of_nat take_bit_nat_eq_self flip: of_nat_add of_nat_mult)
  have "chunk_slice (cks ! c) (int (BlockSize * k)) (int (BlockSize * k + BlockSize)) =
      Some \<lparr>sl_region = chunk_region (cks ! c), sl_off = BlockSize * k, sl_len = BlockSize\<rparr>"
    using small(1) chunks_ok_nth[OF assms(1,2)] by (simp add: chunk_slice_def go_slice_def del: of_nat_mult of_nat_add)
  moreover have "(c * 1024 + k) div 1024 = c" "(c * 1024 + k) mod 1024 = k" using assms(3) by simp_all
  ultimately show ?thesis
    using assms(2) unfolding block_at_def cid off Let_def u by (simp add: block_of_def)
qed

lemma claim_blocks_spec:
  assumes "chunks_ok cks" "32 * w + 32 \<le> 1024 * length cks" "set bits \<subseteq> {..<32}"
  shows "claim_blocks cks w bits = Some (map (\<lambda>i. block_of cks (w * 32 + i)) bits)"
  using assms(3)
proof (induction bits)
  case (Cons i bits)
  let ?a = "w * 32 + i"
  have a: "?a < 1024 * length cks" using Cons.prems assms(2) by simp
  note bd = chunks_ok_bound[OF assms(1) a]
  have "block_at cks (NOT (of_nat (?a div 1024))) (of_nat (?a mod 1024)) = Some (block_of cks (?a div 1024 * 1024 + ?a mod 1024))"
    using bd by (intro block_at_of[OF assms(1)]) auto
  then have "block_at cks (NOT (of_nat (?a div 1024))) (of_nat (?a mod 1024)) = Some (block_of cks ?a)"
    by (simp only: div_mult_mod_eq)
  moreover have "ParseBlockAddress (of_nat ?a) = (NOT (of_nat (?a div 1024)), of_nat (?a mod 1024))"
    using bd by (intro ParseBlockAddress_of_nat) simp
  ultimately show ?case using Cons unfolding claim_blocks.simps Let_def by simp
qed simp

subsection \<open>A pass over the bitmap\<close>

text \<open>The outcome of a pass: the first \<open>rem\<close> free addresses of the words still to visit are taken.\<close>

definition scanned ::
  "chunk list \<Rightarrow> uint32 list \<Rightarrow> nat \<Rightarrow> block list \<Rightarrow> nat list \<Rightarrow> uint32 list \<times> block list \<times> int \<times> nat option \<Rightarrow> bool" where
  "scanned cks bm rem allocated frees res \<longleftrightarrow>
     (case res of (bm', allocated', remaining', fin) \<Rightarrow>
        allocated' = allocated @ map (block_of cks) (take rem frees)
        \<and> remaining' = int (rem - length frees)
        \<and> length bm' = length bm \<and> used_bits bm' = used_bits bm \<union> set (take rem frees)
        \<and> (fin \<noteq> None \<longleftrightarrow> 0 < rem \<and> rem \<le> length frees)
        \<and> (\<forall>w. fin = Some w \<longrightarrow> w < length bm))"

text \<open>The step of a pass at a word that is not full: it takes the first free bits of the word, and ends the pass
  when they are enough.\<close>

lemma scan_word:
  assumes ck: "chunks_ok cks" and n: "length bm = 32 * length cks" and i: "i < length bm" and rem: "0 < rem"
    and w: "w = (start + i) mod length bm" and not_full: "bm ! w \<noteq> 0xFFFFFFFF"
  obtains nv where
    "scan cks start i bm (int rem) allocated =
       (let allocated' = allocated @ map (block_of cks) (take rem (free_in bm w)); f = length (free_in bm w) in
        if rem \<le> f then Some (bm[w := nv], allocated', 0, Some w)
        else scan cks start (Suc i) (bm[w := nv]) (int (rem - f)) allocated')"
    "used_bits (bm[w := nv]) = used_bits bm \<union> set (take rem (free_in bm w))"
proof -
  let ?bits = "take rem (set_bits32 (NOT (bm ! w)))"
  have wn: "w < length bm" unfolding w using i by (intro mod_less_divisor) linarith
  obtain nv where nv: "find_bits (NOT (bm ! w)) (int rem) (bm ! w) [] = (nv, ?bits)"
    "\<forall>j < 32. bit nv j \<longleftrightarrow> bit (bm ! w) j \<or> j \<in> set ?bits"
    using find_bits_spec[of "[]" "int rem" "NOT (bm ! w)" "bm ! w"] by auto
  have bits32: "set ?bits \<subseteq> {..<32}" using set_take_subset[of rem] by (force simp: set_set_bits32)
  have len: "length ?bits = min rem (length (free_in bm w))" by (simp add: free_in_def min.commute)
  have "NOT (bm ! w) = 0 \<Longrightarrow> bm ! w = NOT 0" by (metis bit.double_compl)
  with not_full have "NOT (bm ! w) \<noteq> 0" by auto
  then have "?bits \<noteq> []" using rem by (simp add: set_bits32_Nil)
  moreover have "32 * w + 32 \<le> 1024 * length cks" using wn n by simp
  from claim_blocks_spec[OF ck this bits32]
  have "claim_blocks cks w ?bits = Some (map (block_of cks) (take rem (free_in bm w)))"
    by (simp add: free_in_def take_map comp_def)
  ultimately have "scan cks start i bm (int rem) allocated =
       (let allocated' = allocated @ map (block_of cks) (take rem (free_in bm w)); f = length (free_in bm w) in
        if rem \<le> f then Some (bm[w := nv], allocated', 0, Some w)
        else scan cks start (Suc i) (bm[w := nv]) (int (rem - f)) allocated')"
    using rem i not_full nv(1) len unfolding w by (subst scan.simps) (auto simp: Let_def of_nat_diff)
  moreover have "used_bits (bm[w := nv]) = used_bits bm \<union> set (take rem (free_in bm w))"
    using used_bits_update[OF wn nv(2) bits32] by (simp add: free_in_def take_map)
  ultimately show ?thesis by (rule that)
qed

lemma scan_spec:
  assumes ck: "chunks_ok cks" and n: "length bm = 32 * length cks"
  shows "\<exists>res. scan cks start i bm (int rem) allocated = Some res
    \<and> scanned cks bm rem allocated (free_order bm (scan_words start i (length bm))) res"
  using n
proof (induction "length bm - i" arbitrary: i bm rem allocated)
  case 0
  then have "scan_words start i (length bm) = []" by (simp add: scan_words_def)
  with 0 show ?case by (auto simp: scan.simps scanned_def free_order_def)
next
  case (Suc d)
  let ?w = "(start + i) mod length bm" and ?rest = "scan_words start (Suc i) (length bm)"
  have i: "i < length bm" using Suc.hyps(2) by simp
  have w: "?w < length bm" using i by (intro mod_less_divisor) linarith
  have ws: "scan_words start i (length bm) = ?w # ?rest" using i by (rule scan_words_step)
  have wrest: "?w \<notin> set ?rest" using distinct_scan_words[of start i "length bm"] unfolding ws by simp
  have frees: "free_order bm (scan_words start i (length bm)) = free_in bm ?w @ free_order bm ?rest"
    unfolding ws by (simp add: free_order_def)
  consider "rem = 0" | "0 < rem" "bm ! ?w = 0xFFFFFFFF" | "0 < rem" "bm ! ?w \<noteq> 0xFFFFFFFF" by blast
  then show ?case
  proof cases
    case 1
    then show ?thesis by (auto simp: scan.simps scanned_def)
  next
    case 2
    then have "free_in bm ?w = []" by (simp add: free_in_def set_bits32_Nil)
    moreover have "scan cks start i bm (int rem) allocated = scan cks start (Suc i) bm (int rem) allocated"
      using 2 i by (subst scan.simps) (simp add: Let_def)
    ultimately show ?thesis
      using Suc.hyps(1)[of bm "Suc i" rem allocated] Suc.hyps(2) Suc.prems unfolding frees by simp
  next
    case 3
    let ?f = "length (free_in bm ?w)" and ?al = "allocated @ map (block_of cks) (take rem (free_in bm ?w))"
    obtain nv where sc: "scan cks start i bm (int rem) allocated =
        (if rem \<le> ?f then Some (bm[?w := nv], ?al, 0, Some ?w) else scan cks start (Suc i) (bm[?w := nv]) (int (rem - ?f)) ?al)"
      and used: "used_bits (bm[?w := nv]) = used_bits bm \<union> set (take rem (free_in bm ?w))"
      by (rule scan_word[OF ck Suc.prems i 3(1) refl 3(2), of allocated, unfolded Let_def])
    have "d = length (bm[?w := nv]) - Suc i" "length (bm[?w := nv]) = 32 * length cks" using Suc.hyps(2) Suc.prems by simp_all
    from Suc.hyps(1)[OF this, of "rem - ?f" ?al] obtain res where res: "scan cks start (Suc i) (bm[?w := nv]) (int (rem - ?f)) ?al = Some res"
      "scanned cks (bm[?w := nv]) (rem - ?f) ?al (free_order bm ?rest) res"
      by (auto simp: free_order_update[OF wrest])
    show ?thesis
    proof (cases "rem \<le> ?f")
      case True
      then show ?thesis unfolding frees sc using 3 w used by (simp add: scanned_def)
    next
      case False
      with res used show ?thesis unfolding frees sc by (auto simp: scanned_def)
    qed
  qed
qed

end
