(* ===== verification/Bus_Blocks.thy ===== *)
theory Bus_Blocks
  imports Bus_Spec
begin

text \<open>
  The allocator of \<^verbatim>\<open>go/shm/bus.go\<close> as a set of used block addresses: \<open>AllocBlocks\<close> adds exactly
  the addresses of the blocks it returns, \<open>FreeBlock\<close> removes one, growing the bus adds a chunk
  of free ones.
\<close>

subsection \<open>The invariant of the bus\<close>

definition bus_ok :: "bus \<Rightarrow> bool" where
  "bus_ok b \<longleftrightarrow> chunks_ok (chunks b) \<and> chunks b \<noteq> [] \<and> length (bitmap b) = 32 * length (chunks b)
     \<and> chunkCount b = length (chunks b)"

definition used :: "bus \<Rightarrow> nat set" where
  "used b = used_bits (bitmap b)"

text \<open>The kernel gives every new \<open>memfd\<close> a memory of its own.\<close>

definition os_fresh :: "(nat \<Rightarrow> chunk_sys) \<Rightarrow> bus \<Rightarrow> bool" where
  "os_fresh os b \<longleftrightarrow> (\<forall>n r. length (chunks b) \<le> n \<longrightarrow> sys_mmap (os n) = Inr r \<longrightarrow>
     r \<notin> chunk_region ` set (chunks b) \<and> (\<forall>n'. n < n' \<longrightarrow> sys_mmap (os n') \<noteq> Inr r))"

definition os_succeeds :: "(nat \<Rightarrow> chunk_sys) \<Rightarrow> bool" where
  "os_succeeds os \<longleftrightarrow> (\<forall>n name. (\<exists>fd. sys_memfd (os n) name = Inr fd) \<and> sys_ftruncate (os n) = None
     \<and> (\<exists>r. sys_mmap (os n) = Inr r))"

lemma bus_okD:
  assumes "bus_ok b"
  shows "chunks_ok (chunks b)" "chunks b \<noteq> []" "length (bitmap b) = 32 * length (chunks b)"
    "chunkCount b = length (chunks b)" "length (chunks b) \<le> 64" "bitmap b \<noteq> []"
  using assms by (auto simp: bus_ok_def chunks_ok_def MaxChunks_def)

lemma used_bound: "bus_ok b \<Longrightarrow> a \<in> used b \<Longrightarrow> a < 1024 * length (chunks b)"
  by (simp add: used_def used_bits_def bus_okD)

lemma used_subset: "bus_ok b \<Longrightarrow> used b \<subseteq> {..<1024 * length (chunks b)}"
  using used_bound by blast

lemma finite_used: "finite (used b)"
  unfolding used_def used_bits_def by (rule finite_subset[of _ "{..<32 * length (bitmap b)}"]) auto

lemma block_of_append: "a < 1024 * length cks \<Longrightarrow> block_of (cks @ new) a = block_of cks a"
  by (simp add: block_of_def nth_append less_mult_imp_div_less mult.commute)

subsection \<open>Freeing\<close>

lemma used_bits_clear:
  assumes "w < length bm" "k < 32"
  shows "used_bits (bm[w := bm ! w AND NOT (push_bit k 1)]) = used_bits bm - {w * 32 + k}"
proof (rule set_eqI)
  fix a
  show "a \<in> used_bits (bm[w := bm ! w AND NOT (push_bit k 1)]) \<longleftrightarrow> a \<in> used_bits bm - {w * 32 + k}"
  proof (cases "a div 32 = w")
    case True
    then have "a = w * 32 + a mod 32" by (metis div_mult_mod_eq)
    then have "a = w * 32 + k \<longleftrightarrow> a mod 32 = k" by (metis add_left_cancel)
    moreover have "bit (bm ! w AND NOT (push_bit k 1)) (a mod 32) \<longleftrightarrow> bit (bm ! w) (a mod 32) \<and> a mod 32 \<noteq> k"
      by (auto simp: bit_simps)
    ultimately show ?thesis using True assms by (simp add: used_bits_def)
  next
    case False
    then have "a \<noteq> w * 32 + k" using assms(2) by auto
    with False show ?thesis by (auto simp: used_bits_def)
  qed
qed

lemma FreeBlock_of:
  assumes "a < 65536"
  obtains bm where "FreeBlock b (NOT (of_nat (a div 1024))) (of_nat (a mod 1024)) = Some (b\<lparr>bitmap := bm\<rparr>)"
    "length bm = length (bitmap b)" "used_bits bm = used b - {a}"
proof -
  have "a div 1024 < 32768" "a mod 1024 < 32768" using assms by (simp, simp add: less_trans[of _ 1024])
  from GetBlockAddress_of_nat[OF this]
  have g: "GetBlockAddress (NOT (of_nat (a div 1024))) (of_nat (a mod 1024)) = int a" by simp
  have d: "int a sdiv 32 = int (a div 32)" "int a smod 32 = int (a mod 32)" by (simp_all add: zdiv_int zmod_int)
  show ?thesis
  proof (cases "a div 32 < length (bitmap b)")
    case True
    let ?bm = "(bitmap b)[a div 32 := bitmap b ! (a div 32) AND NOT (push_bit (a mod 32) 1)]"
    have "FreeBlock b (NOT (of_nat (a div 1024))) (of_nat (a mod 1024)) = Some (b\<lparr>bitmap := ?bm\<rparr>)"
    proof -
      have "nat (int (a mod 32)) = a mod 32" "nat (int (a div 32)) = a div 32" by (simp_all only: nat_int)
      then show ?thesis unfolding FreeBlock_def g d Let_def using True by (simp del: of_nat_mod of_nat_div)
    qed
    moreover have "used_bits ?bm = used b - {a}"
      using used_bits_clear[OF True, of "a mod 32"] by (simp add: used_def)
    ultimately show ?thesis by (intro that[of ?bm]) simp_all
  next
    case False
    then have "FreeBlock b (NOT (of_nat (a div 1024))) (of_nat (a mod 1024)) = Some (b\<lparr>bitmap := bitmap b\<rparr>)"
      unfolding FreeBlock_def g d Let_def by simp
    moreover have "a \<notin> used b" using False by (auto simp: used_def used_bits_def)
    ultimately show ?thesis by (intro that[of "bitmap b"]) (simp_all add: used_def)
  qed
qed

lemma bus_ok_bitmap: "bus_ok b \<Longrightarrow> length bm = length (bitmap b) \<Longrightarrow> bus_ok (b\<lparr>bitmap := bm\<rparr>)"
  by (simp add: bus_ok_def)

lemma used_bitmap [simp]: "used (b\<lparr>bitmap := bm\<rparr>) = used_bits bm"
  by (simp add: used_def)

lemma free_blocks_of:
  assumes "set as \<subseteq> {..<65536}"
  obtains bm where "free_blocks b (map (block_of cks) as) = Some (b\<lparr>bitmap := bm\<rparr>)"
    "length bm = length (bitmap b)" "used_bits bm = used b - set as"
proof -
  have "\<exists>bm. free_blocks b (map (block_of cks) as) = Some (b\<lparr>bitmap := bm\<rparr>)
      \<and> length bm = length (bitmap b) \<and> used_bits bm = used b - set as"
    using assms
  proof (induction as arbitrary: b)
    case Nil
    show ?case by (rule exI[of _ "bitmap b"]) (simp add: used_def)
  next
    case (Cons a as)
    then have "a < 65536" by simp
    then obtain bm where bm: "FreeBlock b (NOT (of_nat (a div 1024))) (of_nat (a mod 1024)) = Some (b\<lparr>bitmap := bm\<rparr>)"
      "length bm = length (bitmap b)" "used_bits bm = used b - {a}"
      by (rule FreeBlock_of)
    obtain bm' where bm': "free_blocks (b\<lparr>bitmap := bm\<rparr>) (map (block_of cks) as) = Some (b\<lparr>bitmap := bm'\<rparr>)"
      "length bm' = length bm" "used_bits bm' = used_bits bm - set as"
      using Cons.IH[of "b\<lparr>bitmap := bm\<rparr>"] Cons.prems by auto
    show ?case
      by (rule exI[of _ bm']) (use bm bm' in auto)
  qed
  then show ?thesis using that by blast
qed

subsection \<open>Growing\<close>

lemma used_bits_zeros: "used_bits (bm @ replicate n 0) = used_bits bm"
proof -
  have "bit ((bm @ replicate n 0) ! (a div 32)) (a mod 32) \<longleftrightarrow> a < 32 * length bm \<and> bit (bm ! (a div 32)) (a mod 32)"
    if "a < 32 * (length bm + n)" for a
  proof (cases "a div 32 < length bm")
    case False
    then have "a div 32 - length bm < n" using that by (simp add: less_mult_imp_div_less mult.commute less_diff_conv2 div_less_iff_less_mult)
    moreover have "\<not> a < 32 * length bm" using False by (simp add: div_less_iff_less_mult mult.commute)
    ultimately show ?thesis using False by (simp add: nth_append)
  qed (auto simp: nth_append div_less_iff_less_mult mult.commute)
  then show ?thesis by (auto simp: used_bits_def)
qed

lemma tryAppendChunk_spec:
  assumes ok: "bus_ok b" and fr: "os_fresh os b" and t: "tryAppendChunk os b = (err, b')"
  shows "bus_ok b' \<and> os_fresh os b' \<and> used b' = used b \<and>
    (\<exists>new. chunks b' = chunks b @ new \<and> appended b' = appended b @ new \<and> (err = None \<longleftrightarrow> length new = 1) \<and> (err \<noteq> None \<longleftrightarrow> new = []))"
proof (cases "chunkCount b \<ge> MaxChunks")
  case True
  then show ?thesis using assms by (auto simp: tryAppendChunk_def Let_def)
next
  case lt: False
  note okD = bus_okD[OF ok]
  obtain res k where nc: "NewChunk (os (chunkCount b)) (''mmfg_chunk'' @ decimal (chunkCount b)) (kern b) = (res, k)"
    by (metis surj_pair)
  show ?thesis
  proof (cases res)
    case (Inl e)
    then have "b' = b\<lparr>kern := k\<rparr> \<and> err = Some e" using t lt nc by (auto simp: tryAppendChunk_def Let_def)
    then show ?thesis using ok fr by (simp add: bus_ok_def os_fresh_def used_def)
  next
    case (Inr c)
    obtain r fd where c: "sys_mmap (os (chunkCount b)) = Inr r"
      "c = \<lparr>ck_Data = Some \<lparr>sl_region = r, sl_off = 0, sl_len = ChunkSize\<rparr>, ck_Fd = fd\<rparr>"
      using nc Inr by (auto simp: NewChunk_def AttachChunk_def Let_def split: sum.splits option.splits)
    have b': "b' = b\<lparr>chunks := chunks b @ [c], bitmap := bitmap b @ replicate (BlocksPerChunk div 32) 0,
        chunkCount := chunkCount b + 1, appended := appended b @ [c], kern := k\<rparr>" "err = None"
      using t lt nc Inr by (simp_all add: tryAppendChunk_def Let_def)
    have reg: "chunk_region c = r" "chunk_ok c" by (simp_all add: c(2) chunk_region_def chunk_ok_def)
    have "r \<notin> chunk_region ` set (chunks b)" using fr c(1) okD(4) unfolding os_fresh_def by (metis order_refl)
    then have "bus_ok b'"
      using ok lt reg by (auto simp: bus_ok_def b' chunks_ok_def BlocksPerChunk_def)
    moreover have "os_fresh os b'"
      unfolding os_fresh_def
    proof (intro allI impI)
      fix n q assume n: "length (chunks b') \<le> n" "sys_mmap (os n) = Inr q"
      then have le: "length (chunks b) \<le> n" "length (chunks b) < n" by (simp_all add: b')
      have "q \<noteq> r" using fr c(1) okD(4) n(2) le(2) unfolding os_fresh_def by (metis order_refl)
      then show "q \<notin> chunk_region ` set (chunks b') \<and> (\<forall>n' > n. sys_mmap (os n') \<noteq> Inr q)"
        using fr n(2) le(1) unfolding os_fresh_def by (simp add: b' reg(1))
    qed
    ultimately show ?thesis by (simp add: b' used_def used_bits_zeros)
  qed
qed

lemma tryAppendChunk_succeeds:
  "os_succeeds os \<Longrightarrow> chunkCount b < MaxChunks \<Longrightarrow> fst (tryAppendChunk os b) = None"
  unfolding os_succeeds_def tryAppendChunk_def NewChunk_def AttachChunk_def
  by (auto simp: Let_def split: sum.splits option.splits; metis old.sum.distinct(1))

subsection \<open>Allocating\<close>

lemma scan_bus:
  assumes ok: "bus_ok b"
  defines "frees \<equiv> free_order (bitmap b) (scan_words (lastSearchPos b mod length (bitmap b)) 0 (length (bitmap b)))"
  obtains bm al rem' fin where
    "scan (chunks b) (lastSearchPos b mod length (bitmap b)) 0 (bitmap b) (int rem) allocated = Some (bm, al, rem', fin)"
    "al = allocated @ map (block_of (chunks b)) (take rem frees)" "rem' = int (rem - length frees)"
    "length bm = length (bitmap b)" "used_bits bm = used b \<union> set (take rem frees)"
    "fin = None \<longleftrightarrow> rem = 0 \<or> length frees < rem"
    "distinct frees" "set frees = {..<1024 * length (chunks b)} - used b" "length frees + card (used b) = 1024 * length (chunks b)"
proof -
  note okD = bus_okD[OF ok]
  let ?ws = "scan_words (lastSearchPos b mod length (bitmap b)) 0 (length (bitmap b))"
  have ws: "set ?ws = {..<length (bitmap b)}" by (rule set_scan_words_0)
  have d: "distinct frees" unfolding frees_def
    by (rule distinct_free_order[OF distinct_scan_words]) (simp add: ws)
  have "a div 32 < 32 * length (chunks b) \<longleftrightarrow> a < 1024 * length (chunks b)" for a
    using div_less_iff_less_mult[of 32 a "32 * length (chunks b)"] by (simp add: mult.commute)
  moreover have "set frees = {a. a div 32 \<in> set ?ws \<and> a \<notin> used b}"
    unfolding frees_def used_def by (rule set_free_order) (simp add: ws)
  then have "set frees = {a. a div 32 < 32 * length (chunks b) \<and> a \<notin> used b}"
    unfolding ws by (simp add: okD(3))
  ultimately have st: "set frees = {..<1024 * length (chunks b)} - used b" by blast
  have "card (set frees) = 1024 * length (chunks b) - card (used b)"
    unfolding st using used_subset[OF ok] finite_used by (simp add: card_Diff_subset)
  moreover have "card (used b) \<le> 1024 * length (chunks b)"
    using card_mono[OF _ used_subset[OF ok]] by simp
  ultimately have len: "length frees + card (used b) = 1024 * length (chunks b)"
    using distinct_card[OF d] by simp
  obtain res where res: "scan (chunks b) (lastSearchPos b mod length (bitmap b)) 0 (bitmap b) (int rem) allocated = Some res"
    "scanned (chunks b) (bitmap b) rem allocated frees res"
    using scan_spec[OF okD(1,3)] unfolding frees_def by blast
  obtain bm al rem' fin where eq: "res = (bm, al, rem', fin)" by (metis surj_pair)
  have "fin = None \<longleftrightarrow> rem = 0 \<or> length frees < rem"
  proof -
    have "fin \<noteq> None \<longleftrightarrow> 0 < rem \<and> rem \<le> length frees" using res(2) unfolding scanned_def eq by simp
    then show ?thesis by linarith
  qed
  with res d st len show ?thesis unfolding eq scanned_def
    by (intro that[of bm al rem' fin]) (simp_all add: used_def)
qed

text \<open>
  The outcome of \<open>AllocBlocks\<close> for \<open>rem\<close> more blocks when the addresses \<open>acc\<close> are already taken:
  all of them and \<open>rem\<close> fresh ones, or an error with every one of them given back.
\<close>

definition alloc_outcome :: "bus \<Rightarrow> nat list \<Rightarrow> nat \<Rightarrow> (go_error + block list) \<times> bus \<Rightarrow> bool" where
  "alloc_outcome b acc rem out \<longleftrightarrow>
     (case out of
        (Inl err, b') \<Rightarrow> used b' = used b - set acc
      | (Inr blks, b') \<Rightarrow> 0 < rem \<and> (\<exists>as. blks = map (block_of (chunks b')) (acc @ as) \<and> length as = rem \<and> distinct as
          \<and> set as \<inter> used b = {} \<and> used b' = used b \<union> set as))"

definition grows :: "bus \<Rightarrow> bus \<Rightarrow> bool" where
  "grows b b' \<longleftrightarrow> (\<exists>new. chunks b' = chunks b @ new \<and> appended b' = appended b @ new)"

lemma grows_refl: "chunks b' = chunks b \<Longrightarrow> appended b' = appended b \<Longrightarrow> grows b b'"
  by (simp add: grows_def)

lemma grows_trans: "grows a b \<Longrightarrow> grows b c \<Longrightarrow> grows a c"
  by (auto simp: grows_def)

text \<open>The addresses one pass over the bitmap takes, and the two ways it can end: with all the blocks, or with an attempt
  to append a chunk.\<close>

definition taken_by :: "bus \<Rightarrow> nat \<Rightarrow> nat list \<Rightarrow> bool" where
  "taken_by b rem as \<longleftrightarrow> distinct as \<and> set as \<inter> used b = {} \<and> set as \<subseteq> {..<1024 * length (chunks b)} \<and> length as \<le> rem"

lemma alloc_pass:
  assumes ok: "bus_ok b" "os_fresh os b" and al: "allocated = map (block_of (chunks b)) acc"
  obtains
    (complete) as b' where "taken_by b rem as" "0 < rem" "length as = rem" "bus_ok b'" "os_fresh os b'"
      "alloc_loop os b (int rem) allocated = Some (Inr (map (block_of (chunks b)) (acc @ as)), b')"
      "used b' = used b \<union> set as" "chunks b' = chunks b" "appended b' = appended b"
  | (short) as err b2 new where "taken_by b rem as" "0 < rem \<longrightarrow> length as < rem \<and> length as + card (used b) = 1024 * length (chunks b)"
      "alloc_loop os b (int rem) allocated = (case err of
         Some e \<Rightarrow> map_option (\<lambda>b'. (Inl e, b')) (free_blocks b2 (map (block_of (chunks b)) (acc @ as)))
       | None \<Rightarrow> alloc_loop os b2 (int (rem - length as)) (map (block_of (chunks b)) (acc @ as)))"
      "bus_ok b2" "os_fresh os b2" "used b2 = used b \<union> set as" "chunks b2 = chunks b @ new" "appended b2 = appended b @ new"
      "err = None \<longrightarrow> MaxChunks - chunkCount b2 < MaxChunks - chunkCount b" "err \<noteq> None \<longrightarrow> os_succeeds os \<longrightarrow> MaxChunks \<le> chunkCount b"
proof -
  let ?frees = "free_order (bitmap b) (scan_words (lastSearchPos b mod length (bitmap b)) 0 (length (bitmap b)))"
  let ?as = "take rem ?frees"
  obtain bm al' rem' fin where sc:
    "scan (chunks b) (lastSearchPos b mod length (bitmap b)) 0 (bitmap b) (int rem) allocated = Some (bm, al', rem', fin)"
    "al' = allocated @ map (block_of (chunks b)) ?as" "rem' = int (rem - length ?frees)"
    "length bm = length (bitmap b)" "used_bits bm = used b \<union> set ?as" "fin = None \<longleftrightarrow> rem = 0 \<or> length ?frees < rem"
    "distinct ?frees" "set ?frees = {..<1024 * length (chunks b)} - used b" "length ?frees + card (used b) = 1024 * length (chunks b)"
    by (rule scan_bus[OF ok(1)])
  have nw: "length (bitmap b) \<noteq> 0" using bus_okD(6)[OF ok(1)] by simp
  have tk: "taken_by b rem ?as" using sc(7,8) set_take_subset[of rem ?frees] by (auto simp: taken_by_def)
  show ?thesis
  proof (cases fin)
    case (Some w)
    let ?b = "b\<lparr>bitmap := bm, lastSearchPos := (w + 1) mod length (bitmap b)\<rparr>"
    have "alloc_loop os b (int rem) allocated = Some (Inr (map (block_of (chunks b)) (acc @ ?as)), ?b)"
      using sc(1,2) Some nw al by (simp add: alloc_loop.simps[of os b] Let_def)
    moreover have "bus_ok ?b" "os_fresh os ?b" using ok sc(4) by (simp_all add: bus_ok_def os_fresh_def)
    ultimately show ?thesis using tk sc(5,6) Some by (intro complete[of ?as ?b]) (auto simp: used_def)
  next
    case None
    let ?b = "b\<lparr>bitmap := bm\<rparr>"
    obtain err b2 where t: "tryAppendChunk os ?b = (err, b2)" by (metis surj_pair)
    have b1: "bus_ok ?b" "os_fresh os ?b" using ok sc(4) by (simp_all add: bus_ok_def os_fresh_def)
    from tryAppendChunk_spec[OF b1 t] obtain new where b2: "bus_ok b2" "os_fresh os b2"
      "used b2 = used b \<union> set ?as" "chunks b2 = chunks b @ new" "appended b2 = appended b @ new" by (auto simp: sc(5))
    have rem': "rem' = int (rem - length ?as)" using sc(3,6) None by auto
    have al': "al' = map (block_of (chunks b)) (acc @ ?as)" using sc(2) al by simp
    have lp: "alloc_loop os b (int rem) allocated = (case err of
        Some e \<Rightarrow> map_option (\<lambda>b'. (Inl e, b')) (free_blocks b2 (map (block_of (chunks b)) (acc @ ?as)))
      | None \<Rightarrow> alloc_loop os b2 (int (rem - length ?as)) (map (block_of (chunks b)) (acc @ ?as)))"
      unfolding al'[symmetric] rem'[symmetric] using sc(1) None nw t
      by (simp add: alloc_loop.simps[of os b] Let_def split: option.splits)
    have rm: "0 < rem \<longrightarrow> length ?as < rem \<and> length ?as + card (used b) = 1024 * length (chunks b)" using sc(6,9) None by auto
    have "err = None \<longrightarrow> MaxChunks - chunkCount b2 < MaxChunks - chunkCount b"
      using tryAppendChunk_count[of os ?b b2] t by auto
    moreover have "err \<noteq> None \<longrightarrow> os_succeeds os \<longrightarrow> MaxChunks \<le> chunkCount b"
      using tryAppendChunk_succeeds[of os ?b] t by (auto simp: not_less[symmetric])
    ultimately show ?thesis by (rule short[OF tk rm lp b2])
  qed
qed

text \<open>A refused allocation gives every block back; a continued one composes.\<close>

lemma alloc_refused:
  assumes "bus_ok b" "taken_by b rem as" "set acc \<subseteq> used b" "bus_ok b2" "os_fresh os b2" "used b2 = used b \<union> set as"
    and "chunks b2 = chunks b @ new" "appended b2 = appended b @ new"
  obtains b' where "free_blocks b2 (map (block_of (chunks b)) (acc @ as)) = Some b'" "bus_ok b'" "os_fresh os b'" "grows b b'"
    "used b' = used b - set acc"
proof -
  have "set (acc @ as) \<subseteq> {..<1024 * length (chunks b)}"
    using assms(2,3) used_subset[OF assms(1)] by (auto simp: taken_by_def)
  then have "set (acc @ as) \<subseteq> {..<65536}" using bus_okD(5)[OF assms(1)] by force
  then obtain bm' where bm': "free_blocks b2 (map (block_of (chunks b)) (acc @ as)) = Some (b2\<lparr>bitmap := bm'\<rparr>)"
    "length bm' = length (bitmap b2)" "used_bits bm' = used b2 - set (acc @ as)"
    by (rule free_blocks_of)
  moreover have "used_bits bm' = used b - set acc" using bm'(3) assms(2,6) by (auto simp: taken_by_def)
  ultimately show ?thesis
    using assms(4,5,7,8) by (intro that[of "b2\<lparr>bitmap := bm'\<rparr>"]) (simp_all add: bus_ok_def os_fresh_def grows_def used_def)
qed

lemma alloc_outcome_continue:
  assumes "alloc_outcome b2 (acc @ as) (rem - length as) out" "taken_by b rem as" "used b2 = used b \<union> set as"
  shows "alloc_outcome b acc rem out"
proof (cases out)
  case (Pair res b')
  show ?thesis
  proof (cases res)
    case (Inl e)
    then show ?thesis using assms Pair by (auto simp: alloc_outcome_def taken_by_def)
  next
    case (Inr blks)
    then obtain as' where "blks = map (block_of (chunks b')) ((acc @ as) @ as')" "length as' = rem - length as"
      "distinct as'" "set as' \<inter> used b2 = {}" "used b' = used b2 \<union> set as'" "0 < rem - length as"
      using assms(1) Pair by (auto simp: alloc_outcome_def)
    then show ?thesis using Pair Inr assms(2,3)
      by (auto simp: alloc_outcome_def taken_by_def intro!: exI[of _ "as @ as'"])
  qed
qed

lemma alloc_loop_spec:
  assumes "bus_ok b" "os_fresh os b" "distinct acc" "set acc \<subseteq> used b" "allocated = map (block_of (chunks b)) acc"
  shows "\<exists>res b'. alloc_loop os b (int rem) allocated = Some (res, b') \<and> bus_ok b' \<and> os_fresh os b' \<and> grows b b'
    \<and> alloc_outcome b acc rem (res, b')
    \<and> (os_succeeds os \<longrightarrow> 0 < rem \<longrightarrow> rem + card (used b) \<le> 65536 \<longrightarrow> (\<exists>blks. res = Inr blks))
    \<and> (0 < rem \<longrightarrow> rem + card (used b) \<le> 1024 * length (chunks b) \<longrightarrow> chunks b' = chunks b)"
  using assms
proof (induction "MaxChunks - chunkCount b" arbitrary: b acc rem allocated rule: less_induct)
  case less
  show ?case
  proof (cases rule: alloc_pass[OF less.prems(1,2,5), of rem, case_names complete short])
    case (complete as b')
    then show ?thesis by (auto simp: alloc_outcome_def taken_by_def grows_def intro!: exI[of _ as])
  next
    case (short as err b2 new)
    have gr: "grows b b2" using short(7,8) by (simp add: grows_def)
    show ?thesis
    proof (cases err)
      case (Some e)
      obtain b' where b': "free_blocks b2 (map (block_of (chunks b)) (acc @ as)) = Some b'" "bus_ok b'" "os_fresh os b'" "grows b b'"
        "used b' = used b - set acc" by (rule alloc_refused[OF less.prems(1) short(1) less.prems(4) short(4-8)])
      then show ?thesis using short(2,3,10) Some bus_okD(4)[OF less.prems(1)]
        by (intro exI[of _ "Inl e"] exI[of _ b']) (auto simp: alloc_outcome_def MaxChunks_def)
    next
      case None
      have al2: "map (block_of (chunks b)) (acc @ as) = map (block_of (chunks b2)) (acc @ as)"
        unfolding short(7) using less.prems(4) used_subset[OF less.prems(1)] short(1)
        by (intro map_cong) (auto simp: block_of_append taken_by_def)
      have "distinct (acc @ as)" "set (acc @ as) \<subseteq> used b2" using less.prems(3,4) short(1,6) by (auto simp: taken_by_def)
      from less.hyps[OF short(9)[rule_format, OF None] short(4,5) this al2, of "rem - length as"] obtain res b' where
        ih: "alloc_loop os b2 (int (rem - length as)) (map (block_of (chunks b)) (acc @ as)) = Some (res, b')"
          "bus_ok b'" "os_fresh os b'" "grows b2 b'" "alloc_outcome b2 (acc @ as) (rem - length as) (res, b')"
          "os_succeeds os \<longrightarrow> 0 < rem - length as \<longrightarrow> rem - length as + card (used b2) \<le> 65536 \<longrightarrow> (\<exists>blks. res = Inr blks)"
        by (elim exE conjE) (rule that; assumption)
      have "card (used b2) = card (used b) + length as"
        unfolding short(6) using short(1) finite_used by (subst card_Un_disjoint) (auto simp: distinct_card taken_by_def)
      moreover have "alloc_loop os b (int rem) allocated = Some (res, b')" using short(3) None ih(1) by simp
      ultimately show ?thesis
        using ih(2-4,6) gr short(2) alloc_outcome_continue[OF ih(5) short(1,6)]
        by (intro exI[of _ res] exI[of _ b']) (auto intro: grows_trans)
    qed
  qed
qed

end
