(* ===== verification/Bus_Stripes.thy ===== *)
theory Bus_Stripes
  imports Bus_Blocks
begin

text \<open>
  Stripes on the bus (\<^verbatim>\<open>AllocStripe\<close>, \<^verbatim>\<open>AllocBlocksForStripe\<close>, \<^verbatim>\<open>FreeStripe\<close> of \<^verbatim>\<open>go/shm/bus.go\<close>): a
  stripe made of the block addresses \<open>as\<close> carries them in its sequence and its blocks.
\<close>

subsection \<open>The contract of a block allocator\<close>

locale block_allocator =
  fixes inv :: "'s \<Rightarrow> bool"
    and in_use :: "'s \<Rightarrow> 'a set"
    and alloc :: "'s \<Rightarrow> nat \<Rightarrow> ('e + 'a list) \<times> 's"
    and release :: "'s \<Rightarrow> 'a list \<Rightarrow> 's"
  assumes alloc_ok: "inv s \<Longrightarrow> alloc s n = (Inr as, s') \<Longrightarrow>
      inv s' \<and> length as = n \<and> distinct as \<and> set as \<inter> in_use s = {} \<and> in_use s' = in_use s \<union> set as"
    and alloc_err: "inv s \<Longrightarrow> alloc s n = (Inl e, s') \<Longrightarrow> inv s' \<and> in_use s' = in_use s"
    and release_ok: "inv s \<Longrightarrow> set as \<subseteq> in_use s \<Longrightarrow> inv (release s as) \<and> in_use (release s as) = in_use s - set as"
begin

lemma alloc_release:
  assumes "inv s" "alloc s n = (Inr as, s')"
  shows "inv (release s' as) \<and> in_use (release s' as) = in_use s"
  using alloc_ok[OF assms] release_ok[of s' as] by auto

lemma allocs_disjoint:
  assumes "inv s" "alloc s n = (Inr as, s1)" "alloc s1 k = (Inr bs, s2)"
  shows "set as \<inter> set bs = {}" "in_use s2 = in_use s \<union> set as \<union> set bs"
  using alloc_ok[OF assms(1,2)] alloc_ok[OF _ assms(3)] by auto

lemma release_keeps_others:
  assumes "inv s" "alloc s n = (Inr as, s1)" "alloc s1 k = (Inr bs, s2)"
  shows "in_use (release s2 as) = in_use s \<union> set bs"
  using alloc_ok[OF assms(1,2)] alloc_ok[OF _ assms(3)] release_ok[of s2 as] by auto

end

subsection \<open>The bus is one\<close>

definition block_addr :: "block \<Rightarrow> nat" where
  "block_addr blk = nat (GetBlockAddress (bk_ChunkID blk) (bk_BlockIdx blk))"

lemma block_addr_of: "a < 65536 \<Longrightarrow> block_addr (block_of cks a) = a"
proof -
  assume "a < 65536"
  then have "a div 1024 < 32768" "a mod 1024 < 32768" by (simp, simp add: less_trans[of _ 1024])
  from GetBlockAddress_of_nat[OF this] show ?thesis by (simp add: block_addr_def)
qed

lemma bus_addr_bound: "bus_ok b \<Longrightarrow> set as \<subseteq> used b \<Longrightarrow> set as \<subseteq> {..<65536}"
  using used_subset[of b] bus_okD(5)[of b] by force

definition alloc_addrs :: "(nat \<Rightarrow> chunk_sys) \<Rightarrow> bus \<Rightarrow> nat \<Rightarrow> (go_error + nat list) \<times> bus" where
  "alloc_addrs os b n =
     (case AllocBlocks os b (int n) of
        Some (Inr blks, b') \<Rightarrow> (Inr (map block_addr blks), b')
      | Some (Inl err, b') \<Rightarrow> (Inl err, b')
      | None \<Rightarrow> (Inl EOF, b))"

definition release_addrs :: "bus \<Rightarrow> nat list \<Rightarrow> bus" where
  "release_addrs b as = (case free_blocks b (map (block_of (chunks b)) as) of Some b' \<Rightarrow> b' | None \<Rightarrow> b)"

lemma AllocBlocks_spec:
  assumes "bus_ok b" "os_fresh os b" "int n \<le> MaxMakeBlocks"
  obtains res b' where "AllocBlocks os b (int n) = Some (res, b')" "bus_ok b'" "os_fresh os b'" "grows b b'"
    "alloc_outcome b [] n (res, b')"
    "os_succeeds os \<longrightarrow> 0 < n \<longrightarrow> n + card (used b) \<le> 65536 \<longrightarrow> (\<exists>blks. res = Inr blks)"
    "0 < n \<longrightarrow> n + card (used b) \<le> 1024 * length (chunks b) \<longrightarrow> chunks b' = chunks b"
  using alloc_loop_spec[OF assms(1,2), of "[]" "[]" n] assms(3) by (auto simp: AllocBlocks_def)

lemma free_blocks_bus:
  assumes "bus_ok b" "set as \<subseteq> used b"
  obtains b' where "free_blocks b (map (block_of cks) as) = Some b'" "bus_ok b'" "used b' = used b - set as"
    "chunks b' = chunks b" "appended b' = appended b"
proof -
  obtain bm where "free_blocks b (map (block_of cks) as) = Some (b\<lparr>bitmap := bm\<rparr>)"
    "length bm = length (bitmap b)" "used_bits bm = used b - set as"
    by (rule free_blocks_of[OF bus_addr_bound[OF assms]])
  then show ?thesis using assms(1) by (intro that[of "b\<lparr>bitmap := bm\<rparr>"]) (simp_all add: bus_ok_bitmap)
qed

lemma alloc_outcome_addrs:
  assumes "bus_ok b'" "alloc_outcome b [] n (Inr blks, b')"
  shows "length (map block_addr blks) = n \<and> distinct (map block_addr blks)
    \<and> set (map block_addr blks) \<inter> used b = {} \<and> used b' = used b \<union> set (map block_addr blks)"
proof -
  obtain as where as: "blks = map (block_of (chunks b')) as" "length as = n" "distinct as"
    "set as \<inter> used b = {}" "used b' = used b \<union> set as"
    using assms(2) by (auto simp: alloc_outcome_def)
  have "set as \<subseteq> {..<65536}" using as(5) by (intro bus_addr_bound[OF assms(1)]) auto
  then have "map block_addr blks = as" unfolding as(1) by (auto simp: block_addr_of intro!: map_idI)
  with as show ?thesis by simp
qed

lemma alloc_addrs_cases:
  assumes ok: "bus_ok b" "os_fresh os b" and al: "alloc_addrs os b n = (res, b')"
  shows "bus_ok b' \<and> os_fresh os b' \<and> (case res of
      Inr as \<Rightarrow> length as = n \<and> distinct as \<and> set as \<inter> used b = {} \<and> used b' = used b \<union> set as
    | Inl e \<Rightarrow> used b' = used b)"
proof (cases "int n \<le> MaxMakeBlocks")
  case False
  then have "res = Inl EOF" "b' = b" using al by (simp_all add: alloc_addrs_def AllocBlocks_def)
  with ok show ?thesis by simp
next
  case True
  obtain r b1 where r: "AllocBlocks os b (int n) = Some (r, b1)" "bus_ok b1" "os_fresh os b1"
    "alloc_outcome b [] n (r, b1)"
    by (rule AllocBlocks_spec[OF ok True])
  show ?thesis
  proof (cases r)
    case (Inl e)
    with r al show ?thesis by (auto simp: alloc_addrs_def alloc_outcome_def)
  next
    case (Inr blks)
    with r al alloc_outcome_addrs[of b1 b n blks] show ?thesis by (auto simp: alloc_addrs_def)
  qed
qed

interpretation ba: block_allocator "\<lambda>b. bus_ok b \<and> os_fresh os b" used "alloc_addrs os" release_addrs for os
proof
  fix s n as s'
  assume "bus_ok s \<and> os_fresh os s" "alloc_addrs os s n = (Inr as, s')"
  then show "(bus_ok s' \<and> os_fresh os s') \<and> length as = n \<and> distinct as \<and> set as \<inter> used s = {} \<and> used s' = used s \<union> set as"
    using alloc_addrs_cases[of s os n "Inr as" s'] by auto
next
  fix s n e s'
  assume "bus_ok s \<and> os_fresh os s" "alloc_addrs os s n = (Inl e, s')"
  then show "(bus_ok s' \<and> os_fresh os s') \<and> used s' = used s"
    using alloc_addrs_cases[of s os n "Inl e" s'] by auto
next
  fix s as
  assume ok: "bus_ok s \<and> os_fresh os s" and "set as \<subseteq> used s"
  then obtain b' where "free_blocks s (map (block_of (chunks s)) as) = Some b'" "bus_ok b'" "used b' = used s - set as"
    "chunks b' = chunks s" using free_blocks_bus[of s as] by metis
  with ok show "(bus_ok (release_addrs s as) \<and> os_fresh os (release_addrs s as)) \<and> used (release_addrs s as) = used s - set as"
    by (simp add: release_addrs_def os_fresh_def)
qed

subsection \<open>Sequences\<close>

lemma append_sequence_acc: "append_sequence c sq blks = sq @ append_sequence c [] blks"
proof (induction blks arbitrary: c sq)
  case (Cons blk blks)
  show ?case
    using Cons[of _ "_ @ [bk_BlockIdx blk]"] by (simp add: Let_def)
qed simp

text \<open>The chunk ID in force after a sequence.\<close>

definition seq_chunk :: "int16 \<Rightarrow> int16 list \<Rightarrow> int16" where
  "seq_chunk c xs = foldl (\<lambda>c i. if sint i < 0 then i else c) c xs"

lemma last_chunk_rev: "last_chunk (rev xs) = seq_chunk 0 xs"
  by (induction xs rule: rev_induct) (auto simp: seq_chunk_def)

definition addr_block :: "block \<Rightarrow> bool" where
  "addr_block blk \<longleftrightarrow> sint (bk_ChunkID blk) < 0 \<and> 0 \<le> sint (bk_BlockIdx blk)"

lemma addr_block_of: "a < 65536 \<Longrightarrow> addr_block (block_of cks a)"
proof -
  assume "a < 65536"
  then have "a div 1024 < 32768" "a mod 1024 < 32768" by (simp, simp add: less_trans[of _ 1024])
  then show ?thesis using sint_small by (simp add: addr_block_def sint_not16)
qed

lemma append_sequence_Cons:
  "append_sequence c [] (blk # blks) =
    (if bk_ChunkID blk \<noteq> c then [bk_ChunkID blk] else []) @ bk_BlockIdx blk # append_sequence (bk_ChunkID blk) [] blks"
  using append_sequence_acc[of "bk_ChunkID blk" "[bk_BlockIdx blk]" blks]
    append_sequence_acc[of "bk_ChunkID blk" "[bk_ChunkID blk, bk_BlockIdx blk]" blks]
  by (cases "bk_ChunkID blk = c") (auto simp: Let_def)

lemma append_sequence_append:
  assumes "list_all addr_block xs"
  shows "append_sequence c [] (xs @ ys) =
    append_sequence c [] xs @ append_sequence (seq_chunk c (append_sequence c [] xs)) [] ys"
  using assms
proof (induction xs arbitrary: c)
  case (Cons x xs)
  then have "seq_chunk c (append_sequence c [] (x # xs)) = seq_chunk (bk_ChunkID x) (append_sequence (bk_ChunkID x) [] xs)"
    by (simp add: append_sequence_Cons seq_chunk_def addr_block_def del: append_sequence.simps)
  with Cons show ?case by (simp add: append_sequence_Cons del: append_sequence.simps)
qed (simp add: seq_chunk_def)

lemma free_append_sequence:
  assumes "list_all addr_block blks"
  shows "free_sequence b c (append_sequence c [] blks) = free_blocks b blks"
  using assms
proof (induction blks arbitrary: b c)
  case (Cons blk blks)
  then have "free_sequence b c (append_sequence c [] (blk # blks)) =
      FreeBlock b (bk_ChunkID blk) (bk_BlockIdx blk) \<bind> (\<lambda>b. free_sequence b (bk_ChunkID blk) (append_sequence (bk_ChunkID blk) [] blks))"
    by (auto simp: append_sequence_Cons addr_block_def simp del: append_sequence.simps)
  with Cons show ?case by (simp del: append_sequence.simps cong: Option.bind_cong)
qed simp

subsection \<open>Stripes made of blocks\<close>

definition stripe_blocks :: "chunk list \<Rightarrow> nat list \<Rightarrow> stripe \<Rightarrow> bool" where
  "stripe_blocks cks as s \<longleftrightarrow> Sequence s = append_sequence 0 [] (map (block_of cks) as)
     \<and> Blocks s = map (bk_Data \<circ> block_of cks) as \<and> BlockCount s = int (length as)"

lemma data_apart:
  assumes "chunks_ok cks" "a < 1024 * length cks" "c < 1024 * length cks" "a \<noteq> c"
  shows "bk_Data (block_of cks a) \<noteq> bk_Data (block_of cks c)"
proof
  assume eq: "bk_Data (block_of cks a) = bk_Data (block_of cks c)"
  have "distinct (map chunk_region cks)" using assms(1) by (simp add: chunks_ok_def)
  then have "a div 1024 = c div 1024"
    using eq chunks_ok_bound[OF assms(1,2)] chunks_ok_bound[OF assms(1,3)]
    by (simp add: block_of_def distinct_conv_nth) metis
  moreover have "a mod 1024 = c mod 1024" using eq by (simp add: block_of_def BlockSize_def)
  ultimately show False using assms(4) by (metis div_mult_mod_eq)
qed

lemma block_ok_of: "block_ok (bk_Data (block_of cks a))"
  by (simp add: block_ok_def block_of_def)

lemma blocks_wf_of:
  assumes "chunks_ok cks" "distinct as" "set as \<subseteq> {..<1024 * length cks}"
  shows "blocks_wf (map (bk_Data \<circ> block_of cks) as)"
  using assms data_apart[OF assms(1)]
  by (auto simp: blocks_wf_def list_all_iff block_ok_of distinct_map inj_on_def)

lemma addr_blocks_of: "set as \<subseteq> {..<65536} \<Longrightarrow> list_all addr_block (map (block_of cks) as)"
  by (auto simp: list_all_iff addr_block_of)

lemma distinct_addr_length: "distinct as \<Longrightarrow> set as \<subseteq> {..<65536 :: nat} \<Longrightarrow> length as \<le> 65536"
  using card_mono[of "{..<65536 :: nat}" "set as"] by (simp add: distinct_card)

lemma stripe_blocks_grow:
  assumes "stripe_blocks cks as s" "set as \<subseteq> {..<1024 * length cks}"
  shows "stripe_blocks (cks @ new) as s"
proof -
  have "map (block_of (cks @ new)) as = map (block_of cks) as"
    using assms(2) by (intro map_cong) (auto simp: block_of_append)
  then show ?thesis using assms(1) unfolding stripe_blocks_def by (metis map_map)
qed

lemma FreeStripe_blocks:
  assumes "bus_ok b" "stripe_blocks cks as s" "set as \<subseteq> used b"
  obtains b' where "FreeStripe b s = Some b'" "bus_ok b'" "used b' = used b - set as"
    "chunks b' = chunks b" "appended b' = appended b"
proof -
  have "FreeStripe b s = free_blocks b (map (block_of cks) as)"
    using assms(2) free_append_sequence[OF addr_blocks_of[OF bus_addr_bound[OF assms(1,3)]], of b 0 cks]
    by (simp add: FreeStripe_def stripe_blocks_def)
  then show ?thesis using free_blocks_bus[OF assms(1,3)] that by metis
qed

text \<open>Writing the header of a stripe that is made of blocks makes it a well-formed stripe.\<close>

lemma UpdateStripeHeader_ok:
  assumes "blocks_wf (Blocks s)" "Blocks s \<noteq> []" "length (Blocks s) \<le> 65536" "unat (DataLen s) \<le> capacity s"
  obtains m' where "UpdateStripeHeader m s = Some m'" "stripe_ok m' s" "data_region m' s = data_region m s"
    "\<forall>r i. \<not> covers (Blocks s) r i \<longrightarrow> m' r i = m r i"
proof -
  have hd: "hd (Blocks s) = Blocks s ! 0" using assms(2) by (simp add: hd_conv_nth)
  have h: "sl_len (Blocks s ! 0) = BlockSize" using blocks_wf_nth[OF assms(1), of 0] assms(2) by simp
  obtain m' where m': "UpdateStripeHeader m s = Some m'"
    using UpdateStripeHeader_Some[OF assms(2), of m] h hd by (auto simp: BlockSize_def Let_def)
  have fr: "m' r i = m r i" if "\<not> (r = sl_region (Blocks s ! 0) \<and> sl_off (Blocks s ! 0) \<le> i \<and> i < sl_off (Blocks s ! 0) + BlockSize)" for r i
    using that h by (intro UpdateStripeHeader_frame[OF m']) (auto simp: hd)
  have "load32 m' (slice_ptr (Blocks s ! 0) HEADER_DATA_LEN_OFF) = DataLen s"
    using UpdateStripeHeader_dataLen[OF assms(2) _ m'] h hd by (simp add: BlockSize_def HEADER_DATA_LEN_OFF_def)
  then have "stripe_ok m' s" using assms by (simp add: stripe_ok_def)
  moreover have "cell m' (Blocks s) i = cell m (Blocks s) i" if "BlockSize \<le> i" "i < span (Blocks s)" for i
  proof -
    let ?k = "i div BlockSize"
    have "0 < ?k" using that(1) by (simp add: div_greater_zero_iff BlockSize_def)
    then have k: "?k \<noteq> 0" "?k < length (Blocks s)" using span_div[OF that(2)] by auto
    have md: "i mod BlockSize < BlockSize" by (simp add: BlockSize_def)
    have "0 < length (Blocks s)" using assms(2) by simp
    from blocks_wf_apart[OF assms(1) k(2) this k(1)] md show ?thesis
      unfolding cell_def by (intro fr notI) (elim conjE disjE, simp, linarith, linarith)
  qed
  then have "data_region m' s = data_region m s" by (simp add: data_region_def)
  moreover have "covers (Blocks s) r i" if "r = sl_region (Blocks s ! 0)" "sl_off (Blocks s ! 0) \<le> i" "i < sl_off (Blocks s ! 0) + BlockSize" for r i
    unfolding covers_def list_ex_length using that h assms(2) by (intro exI[of _ 0]) simp
  then have "\<forall>r i. \<not> covers (Blocks s) r i \<longrightarrow> m' r i = m r i" using fr by blast
  ultimately show ?thesis using m' that by blast
qed

text \<open>A stripe of the bus: made of blocks that are in use.\<close>

definition bus_stripe :: "bus \<Rightarrow> mem \<Rightarrow> nat list \<Rightarrow> stripe \<Rightarrow> bool" where
  "bus_stripe b m as s \<longleftrightarrow> stripe_blocks (chunks b) as s \<and> as \<noteq> [] \<and> distinct as \<and> set as \<subseteq> used b \<and> stripe_ok m s"

lemma AllocStripe_spec:
  assumes ok: "bus_ok b" and fr: "os_fresh os b" and mk: "int n \<le> MaxMakeBlocks"
  obtains (error) err b' where "AllocStripe os m b (int n) = Some (Inl err, m, b')" "bus_ok b'" "os_fresh os b'"
      "grows b b'" "used b' = used b"
  | (stripe) s m' b' as where "AllocStripe os m b (int n) = Some (Inr s, m', b')" "bus_ok b'" "os_fresh os b'" "grows b b'"
      "bus_stripe b' m' as s" "length as = n" "set as \<inter> used b = {}" "used b' = used b \<union> set as" "DataLen s = 0"
      "\<forall>r i. \<not> covers (Blocks s) r i \<longrightarrow> m' r i = m r i" "UpdateStripeHeader m s = Some m'"
proof -
  obtain res b' where al: "AllocBlocks os b (int n) = Some (res, b')" "bus_ok b'" "os_fresh os b'" "grows b b'"
    "alloc_outcome b [] n (res, b')"
    by (rule AllocBlocks_spec[OF ok fr mk])
  show ?thesis
  proof (cases res)
    case (Inl err)
    with al error show ?thesis by (auto simp: AllocStripe_def alloc_outcome_def)
  next
    case (Inr blks)
    then obtain as where as: "blks = map (block_of (chunks b')) as" "length as = n" "distinct as"
      "set as \<inter> used b = {}" "used b' = used b \<union> set as" "0 < n"
      using al(5) by (auto simp: alloc_outcome_def)
    let ?s = "\<lparr>Sequence = append_sequence 0 [] blks, BlockCount = int n, Blocks = map bk_Data blks, DataLen = 0\<rparr>"
    have sub: "set as \<subseteq> used b'" using as(5) by auto
    have bl: "Blocks ?s = map (bk_Data \<circ> block_of (chunks b')) as" by (simp add: as(1))
    have wf: "blocks_wf (Blocks ?s)" unfolding bl
      by (rule blocks_wf_of[OF bus_okD(1)[OF al(2)] as(3)]) (use sub used_subset[OF al(2)] in blast)
    have ne: "Blocks ?s \<noteq> []" "as \<noteq> []" using as(1,2,6) by auto
    have len: "length (Blocks ?s) \<le> 65536"
      using distinct_addr_length[OF as(3) bus_addr_bound[OF al(2) sub]] by (simp add: as(1))
    obtain m' where m': "UpdateStripeHeader m ?s = Some m'" "stripe_ok m' ?s"
      "\<forall>r i. \<not> covers (Blocks ?s) r i \<longrightarrow> m' r i = m r i"
      by (rule UpdateStripeHeader_ok[OF wf ne(1) len]) simp_all
    have "bus_stripe b' m' as ?s"
      using m'(2) sub as(1,2,3) ne(2) by (simp add: bus_stripe_def stripe_blocks_def comp_def)
    moreover have "AllocStripe os m b (int n) = Some (Inr ?s, m', b')"
      using al(1) Inr m'(1) by (simp add: AllocStripe_def)
    ultimately show ?thesis using stripe[of ?s m' b' as] al as m' by simp
  qed
qed

lemma AllocStripe_Some: "AllocStripe os m b (int n) = Some r \<Longrightarrow> int n \<le> MaxMakeBlocks"
  by (auto simp: AllocStripe_def dest: AllocBlocks_Some split: bind_splits)

lemma data_region_extend:
  assumes "Blocks s \<noteq> []" "Blocks s' = Blocks s @ extra"
  shows "data_region m s' = data_region m s @ map (cell m (Blocks s')) [span (Blocks s)..<span (Blocks s')]"
proof -
  have "BlockSize \<le> span (Blocks s)" using span_capacity[OF assms(1)] by simp
  moreover have le: "span (Blocks s) \<le> span (Blocks s')" by (simp add: span_def assms(2))
  moreover have "cell m (Blocks s') i = cell m (Blocks s) i" if "i < span (Blocks s)" for i
    using span_div[OF that] by (simp add: cell_def assms(2) nth_append)
  ultimately show ?thesis unfolding data_region_def
    by (subst upt_split[of BlockSize "span (Blocks s)"]) auto
qed

end
