(* ===== verification/Bus_System.thy ===== *)
theory Bus_System
  imports Bus_Stripes
begin

text \<open>
  The hub's use of the bus as a state machine: stripes are allocated, grown, written, truncated
  and freed in any order. Reachable states keep every live stripe well-formed, no two live
  stripes share a block, and a block is in use exactly when a live stripe has it.
\<close>

subsection \<open>Addresses of a stripe\<close>

fun seq_addrs :: "int16 \<Rightarrow> int16 list \<Rightarrow> nat list" where
  "seq_addrs c [] = []"
| "seq_addrs c (i # is) = (if sint i < 0 then seq_addrs i is else nat (GetBlockAddress c i) # seq_addrs c is)"

definition stripe_addrs :: "stripe \<Rightarrow> nat list" where
  "stripe_addrs s = seq_addrs 0 (Sequence s)"

lemma seq_addrs_append_sequence:
  "list_all addr_block blks \<Longrightarrow> seq_addrs c (append_sequence c [] blks) = map block_addr blks"
proof (induction blks arbitrary: c)
  case (Cons blk blks)
  then show ?case
    by (auto simp: append_sequence_Cons addr_block_def block_addr_def simp del: append_sequence.simps)
qed simp

lemma stripe_addrs_blocks:
  assumes "stripe_blocks cks as s" "set as \<subseteq> {..<65536}"
  shows "stripe_addrs s = as"
  using assms seq_addrs_append_sequence[OF addr_blocks_of[OF assms(2)], of 0 cks]
  by (auto simp: stripe_addrs_def stripe_blocks_def block_addr_of intro!: map_idI)

lemma bus_stripe_addrs: "bus_ok b \<Longrightarrow> bus_stripe b m as s \<Longrightarrow> stripe_addrs s = as"
  using stripe_addrs_blocks[of "chunks b" as s] bus_addr_bound[of b as] by (simp add: bus_stripe_def)

subsection \<open>Stripes do not interfere\<close>

lemma stripe_frame:
  assumes ok: "stripe_ok m t" and same: "\<forall>r i. covers (Blocks t) r i \<longrightarrow> m' r i = m r i"
  shows "stripe_ok m' t" "data_region m' t = data_region m t" "contents m' t = contents m t"
proof -
  note okD = stripe_okD[OF ok]
  have c: "cell m' (Blocks t) i = cell m (Blocks t) i" if "i < span (Blocks t)" for i
  proof -
    have "i mod BlockSize < BlockSize" by (simp add: BlockSize_def)
    then have "covers (Blocks t) (sl_region (Blocks t ! (i div BlockSize))) (sl_off (Blocks t ! (i div BlockSize)) + i mod BlockSize)"
      unfolding covers_def list_ex_length using span_div[OF that] blocks_wf_nth[OF okD(2) span_div[OF that]]
      by (intro exI[of _ "i div BlockSize"]) simp
    then show ?thesis using same by (simp add: cell_def)
  qed
  then show d: "data_region m' t = data_region m t" by (simp add: data_region_def)
  then show "contents m' t = contents m t" by (simp add: contents_def)
  have "map (cell m' (Blocks t)) [0..<4] = map (cell m (Blocks t)) [0..<4]"
    using c span_capacity[OF okD(1)] by (intro map_cong refl) (simp add: BlockSize_def)
  then have "load32 m' (slice_ptr (Blocks t ! 0) HEADER_DATA_LEN_OFF) = load32 m (slice_ptr (Blocks t ! 0) HEADER_DATA_LEN_OFF)"
    by (simp only: load32_cells[OF okD(1)])
  then show "stripe_ok m' t" using ok by (simp add: stripe_ok_def)
qed

lemma bus_stripes_apart:
  assumes ok: "bus_ok b" and as: "stripe_blocks (chunks b) as s" "set as \<subseteq> used b"
    and cs: "stripe_blocks (chunks b) cs t" "set cs \<subseteq> used b" and disj: "set as \<inter> set cs = {}"
    and cov: "covers (Blocks t) r i"
  shows "\<not> covers (Blocks s) r i"
proof
  assume "covers (Blocks s) r i"
  then obtain a where a: "a \<in> set as" "sl_region (bk_Data (block_of (chunks b) a)) = r"
    "sl_off (bk_Data (block_of (chunks b) a)) \<le> i" "i < sl_off (bk_Data (block_of (chunks b) a)) + BlockSize"
    using as(1) by (auto simp: covers_def list_ex_iff stripe_blocks_def)
  obtain c where c: "c \<in> set cs" "sl_region (bk_Data (block_of (chunks b) c)) = r"
    "sl_off (bk_Data (block_of (chunks b) c)) \<le> i" "i < sl_off (bk_Data (block_of (chunks b) c)) + BlockSize"
    using cov cs(1) by (auto simp: covers_def list_ex_iff stripe_blocks_def)
  have "a \<noteq> c" using a(1) c(1) disj by auto
  moreover have "a < 1024 * length (chunks b)" "c < 1024 * length (chunks b)"
    using a(1) c(1) as(2) cs(2) used_bound[OF ok] by auto
  ultimately have "bk_Data (block_of (chunks b) a) \<noteq> bk_Data (block_of (chunks b) c)"
    by (intro data_apart[OF bus_okD(1)[OF ok]])
  from blocks_apart[OF block_ok_of block_ok_of this] a c show False by auto
qed

lemma bus_stripe_other:
  assumes ok: "bus_ok b" and t: "bus_stripe b m cs t" and as: "stripe_blocks (chunks b) as s" "set as \<subseteq> used b"
    and disj: "set as \<inter> set cs = {}" and fr: "\<forall>r i. \<not> covers (Blocks s) r i \<longrightarrow> m' r i = m r i"
  shows "bus_stripe b m' cs t" "contents m' t = contents m t"
proof -
  have "\<forall>r i. covers (Blocks t) r i \<longrightarrow> m' r i = m r i"
    using bus_stripes_apart[OF ok as _ _ disj] t fr unfolding bus_stripe_def by blast
  from stripe_frame[OF _ this] t show "bus_stripe b m' cs t" "contents m' t = contents m t"
    by (auto simp: bus_stripe_def)
qed

lemma bus_stripe_grows:
  assumes "bus_ok b" "bus_stripe b m as s" "grows b b'" "set as \<subseteq> used b'"
  shows "bus_stripe b' m as s"
  using assms stripe_blocks_grow used_subset[OF assms(1)] unfolding bus_stripe_def grows_def
  by (metis subset_trans)

text \<open>A stripe with fresh blocks appended, the way \<open>AllocBlocksForStripe\<close> does it.\<close>

definition extended :: "stripe \<Rightarrow> block list \<Rightarrow> stripe" where
  "extended s blks = s\<lparr>Sequence := append_sequence (last_chunk (rev (Sequence s))) (Sequence s) blks,
     Blocks := Blocks s @ map bk_Data blks, BlockCount := BlockCount s + int (length blks)\<rparr>"

lemma extended_blocks:
  assumes ok: "bus_ok b" and s: "stripe_blocks (chunks b) as s" and sub: "set (as @ as') \<subseteq> used b" and d: "distinct (as @ as')"
  defines "s' \<equiv> extended s (map (block_of (chunks b)) as')"
  shows "stripe_blocks (chunks b) (as @ as') s'" "blocks_wf (Blocks s')" "length (Blocks s') \<le> 65536"
proof -
  have adr: "list_all addr_block (map (block_of (chunks b)) as)"
    using bus_addr_bound[OF ok sub] by (intro addr_blocks_of) auto
  have "append_sequence (last_chunk (rev (Sequence s))) (Sequence s) (map (block_of (chunks b)) as') =
      append_sequence 0 [] (map (block_of (chunks b)) as @ map (block_of (chunks b)) as')"
    unfolding append_sequence_append[OF adr] last_chunk_rev
    using s append_sequence_acc[of _ "Sequence s"] by (simp add: stripe_blocks_def)
  then show sb: "stripe_blocks (chunks b) (as @ as') s'"
    using s by (simp add: stripe_blocks_def s'_def extended_def)
  then have bl: "Blocks s' = map (bk_Data \<circ> block_of (chunks b)) (as @ as')" unfolding stripe_blocks_def by blast
  show "blocks_wf (Blocks s')" unfolding bl
    by (rule blocks_wf_of[OF bus_okD(1)[OF ok] d]) (use sub used_subset[OF ok] in blast)
  show "length (Blocks s') \<le> 65536"
    unfolding bl using distinct_addr_length[OF d bus_addr_bound[OF ok sub]] by simp
qed

lemma AllocBlocksForStripe_spec:
  assumes ok: "bus_ok b" and fr: "os_fresh os b" and s: "bus_stripe b m as s" and mk: "int n \<le> MaxMakeBlocks"
  obtains (error) err b' where "AllocBlocksForStripe os m b s (int n) = Some (Some err, s, m, b')" "bus_ok b'" "os_fresh os b'"
      "grows b b'" "used b' = used b"
  | (grown) s' m' b' as' where "AllocBlocksForStripe os m b s (int n) = Some (None, s', m', b')" "bus_ok b'" "os_fresh os b'"
      "grows b b'" "bus_stripe b' m' (as @ as') s'" "length as' = n" "set as' \<inter> used b = {}" "used b' = used b \<union> set as'"
      "DataLen s' = DataLen s" "contents m' s' = contents m s" "capacity s' = capacity s + BlockSize * n"
      "\<forall>r i. \<not> covers (Blocks s') r i \<longrightarrow> m' r i = m r i" "UpdateStripeHeader m s' = Some m'"
proof -
  obtain res b' where al: "AllocBlocks os b (int n) = Some (res, b')" "bus_ok b'" "os_fresh os b'" "grows b b'"
    "alloc_outcome b [] n (res, b')"
    by (rule AllocBlocks_spec[OF ok fr mk])
  show ?thesis
  proof (cases res)
    case (Inl err)
    with al error show ?thesis by (auto simp: AllocBlocksForStripe_def alloc_outcome_def)
  next
    case (Inr blks)
    then obtain as' where as': "blks = map (block_of (chunks b')) as'" "length as' = n" "distinct as'"
      "set as' \<inter> used b = {}" "used b' = used b \<union> set as'" "0 < n"
      using al(5) by (auto simp: alloc_outcome_def)
    have sb: "as \<noteq> []" "distinct as" "set as \<subseteq> used b" "stripe_ok m s" using s by (simp_all add: bus_stripe_def)
    let ?s = "extended s blks"
    have sub: "set (as @ as') \<subseteq> used b'" using as'(5) sb(3) by auto
    have d: "distinct (as @ as')" using sb(2,3) as'(3,4) by auto
    have "bus_stripe b' m as s" using sub by (intro bus_stripe_grows[OF ok s al(4)]) auto
    then have "stripe_blocks (chunks b') as s" by (simp add: bus_stripe_def)
    note ex = extended_blocks[OF al(2) this sub d, folded as'(1)]
    have ne: "Blocks s \<noteq> []" "Blocks ?s \<noteq> []" using stripe_okD(1)[OF sb(4)] by (simp_all add: extended_def)
    have cap: "capacity ?s = capacity s + BlockSize * n"
      using ne(1) by (cases "Blocks s") (simp_all add: capacity_def extended_def as'(1,2) algebra_simps)
    have dl: "DataLen ?s = DataLen s" "unat (DataLen s) \<le> capacity s" using stripe_okD(4)[OF sb(4)] by (simp_all add: extended_def)
    then have "unat (DataLen ?s) \<le> capacity ?s" unfolding cap by simp
    then obtain m' where m': "UpdateStripeHeader m ?s = Some m'" "stripe_ok m' ?s" "data_region m' ?s = data_region m ?s"
      "\<forall>r i. \<not> covers (Blocks ?s) r i \<longrightarrow> m' r i = m r i"
      by (rule UpdateStripeHeader_ok[OF ex(2) ne(2) ex(3)])
    have "Blocks ?s = Blocks s @ map bk_Data blks" by (simp add: extended_def)
    then have "contents m' ?s = contents m s"
      using data_region_extend[OF ne(1), of ?s "map bk_Data blks" m] dl ne(1) by (simp add: contents_def m'(3))
    moreover have "bus_stripe b' m' (as @ as') ?s" using ex(1) sb(1) d sub m'(2) by (simp add: bus_stripe_def)
    moreover have "AllocBlocksForStripe os m b s (int n) = Some (None, ?s, m', b')"
      using al(1) Inr m'(1) by (simp add: AllocBlocksForStripe_def extended_def)
    ultimately show ?thesis using grown[of ?s m' b' as'] al as' m' cap dl by simp
  qed
qed

lemma AllocBlocksForStripe_Some: "AllocBlocksForStripe os m b s (int n) = Some r \<Longrightarrow> int n \<le> MaxMakeBlocks"
  by (auto simp: AllocBlocksForStripe_def dest: AllocBlocks_Some split: bind_splits)

subsection \<open>The state machine\<close>

type_synonym bus_state = "mem \<times> bus \<times> stripe list"

inductive bus_step :: "(nat \<Rightarrow> chunk_sys) \<Rightarrow> bus_state \<Rightarrow> bus_state \<Rightarrow> bool" for os where
  alloc: "AllocStripe os m b (int n) = Some (Inr s, m', b') \<Longrightarrow> bus_step os (m, b, ss) (m', b', ss @ [s])"
| alloc_failed: "AllocStripe os m b (int n) = Some (Inl err, m', b') \<Longrightarrow> bus_step os (m, b, ss) (m', b', ss)"
| grow: "AllocBlocksForStripe os m b s (int n) = Some (err, s', m', b') \<Longrightarrow>
    bus_step os (m, b, xs @ s # ys) (m', b', xs @ s' # ys)"
| written_at: "WriteAt m s p (int off) = Some (m', s', k, err) \<Longrightarrow> off < 2 ^ 62 \<Longrightarrow>
    bus_step os (m, b, xs @ s # ys) (m', b, xs @ s' # ys)"
| truncate: "Truncate m s newLen = Some (m', s') \<Longrightarrow> bus_step os (m, b, xs @ s # ys) (m', b, xs @ s' # ys)"
| free: "FreeStripe b s = Some b' \<Longrightarrow> bus_step os (m, b, xs @ s # ys) (m, b', xs @ ys)"

inductive bus_reachable :: "(nat \<Rightarrow> chunk_sys) \<Rightarrow> bus_state \<Rightarrow> bus_state \<Rightarrow> bool" for os where
  start: "bus_reachable os st st"
| step: "bus_reachable os st st1 \<Longrightarrow> bus_step os st1 st2 \<Longrightarrow> bus_reachable os st st2"

definition live_addrs :: "stripe list \<Rightarrow> nat list" where
  "live_addrs ss = concat (map stripe_addrs ss)"

fun sys_ok :: "(nat \<Rightarrow> chunk_sys) \<Rightarrow> bus_state \<Rightarrow> bool" where
  "sys_ok os (m, b, ss) \<longleftrightarrow> bus_ok b \<and> os_fresh os b \<and> (\<forall>s \<in> set ss. bus_stripe b m (stripe_addrs s) s)
     \<and> distinct (live_addrs ss) \<and> used b = set (live_addrs ss)"

lemma live_addrs_simps [simp]: "live_addrs [] = []" "live_addrs (s # ss) = stripe_addrs s @ live_addrs ss"
  "live_addrs (xs @ ys) = live_addrs xs @ live_addrs ys"
  by (simp_all add: live_addrs_def)

lemma live_member: "s \<in> set ss \<Longrightarrow> set (stripe_addrs s) \<subseteq> set (live_addrs ss)"
  by (auto simp: live_addrs_def)

text \<open>A step that replaces the blocks of one stripe by \<open>as\<close> leaves the other stripes \<open>ts\<close> alone.\<close>

lemma others_kept:
  assumes "bus_ok b" "bus_ok b'" "grows b b'" "used b \<subseteq> used b'" "bus_stripe b' m' as s'"
    and "\<forall>r i. \<not> covers (Blocks s') r i \<longrightarrow> m' r i = m r i"
    and "\<forall>t \<in> set ts. bus_stripe b m (stripe_addrs t) t" "set as \<inter> set (live_addrs ts) = {}"
  shows "\<forall>t \<in> set ts. bus_stripe b' m' (stripe_addrs t) t \<and> contents m' t = contents m t"
proof
  fix t assume t: "t \<in> set ts"
  then have bt: "bus_stripe b m (stripe_addrs t) t" using assms(7) by simp
  then have "set (stripe_addrs t) \<subseteq> used b'" using assms(4) by (auto simp: bus_stripe_def)
  with bt have bt': "bus_stripe b' m (stripe_addrs t) t" by (intro bus_stripe_grows[OF assms(1) _ assms(3)])
  have "set as \<inter> set (stripe_addrs t) = {}" using live_member[OF t] assms(8) by auto
  moreover have "stripe_blocks (chunks b') as s'" "set as \<subseteq> used b'" using assms(5) by (simp_all add: bus_stripe_def)
  ultimately show "bus_stripe b' m' (stripe_addrs t) t \<and> contents m' t = contents m t"
    using bus_stripe_other[OF assms(2) bt' _ _ _ assms(6)] by blast
qed

lemma sys_replace:
  assumes ok: "sys_ok os (m, b, xs @ s # ys)" and b': "bus_ok b'" "os_fresh os b'" "grows b b'"
    and s': "bus_stripe b' m' (stripe_addrs s @ new) s'" and new: "set new \<inter> used b = {}" "used b' = used b \<union> set new"
    and fr: "\<forall>r i. \<not> covers (Blocks s') r i \<longrightarrow> m' r i = m r i"
  shows "sys_ok os (m', b', xs @ s' # ys)" "\<forall>t \<in> set (xs @ ys). contents m' t = contents m t"
proof -
  have adr: "stripe_addrs s' = stripe_addrs s @ new" by (rule bus_stripe_addrs[OF b'(1) s'])
  have d: "distinct (live_addrs xs @ stripe_addrs s @ live_addrs ys)" and u: "used b = set (live_addrs xs @ stripe_addrs s @ live_addrs ys)"
    using ok by simp_all
  have dn: "distinct new" using s' by (simp add: bus_stripe_def)
  have disj: "set (stripe_addrs s @ new) \<inter> set (live_addrs (xs @ ys)) = {}" using d u new(1) by auto
  have "\<forall>t \<in> set (xs @ ys). bus_stripe b m (stripe_addrs t) t" "bus_ok b" "used b \<subseteq> used b'" using ok new(2) by auto
  from others_kept[OF this(2) b'(1,3) this(3) s' fr this(1) disj]
  have t: "\<forall>t \<in> set (xs @ ys). bus_stripe b' m' (stripe_addrs t) t \<and> contents m' t = contents m t" .
  then show "\<forall>t \<in> set (xs @ ys). contents m' t = contents m t" by blast
  have "distinct (live_addrs (xs @ s' # ys))" "used b' = set (live_addrs (xs @ s' # ys))"
    using d u new adr dn by auto
  with t b' s' adr show "sys_ok os (m', b', xs @ s' # ys)" by auto
qed

lemma sys_replace_same:
  assumes ok: "sys_ok os (m, b, xs @ s # ys)" and s': "stripe_ok m' s'" "Blocks s' = Blocks s" "Sequence s' = Sequence s"
    "BlockCount s' = BlockCount s" "same_elsewhere m m' s"
  shows "sys_ok os (m', b, xs @ s' # ys)" "\<forall>t \<in> set (xs @ ys). contents m' t = contents m t"
proof -
  have s: "bus_stripe b m (stripe_addrs s) s" using ok by simp
  then have "bus_stripe b m' (stripe_addrs s @ []) s'" using s' by (simp add: bus_stripe_def stripe_blocks_def)
  from sys_replace[OF ok _ _ _ this] ok s'
  show "sys_ok os (m', b, xs @ s' # ys)" "\<forall>t \<in> set (xs @ ys). contents m' t = contents m t"
    by (auto simp: grows_def same_elsewhere_def)
qed

lemma sys_alloc:
  assumes ok: "sys_ok os (m, b, ss)" and al: "AllocStripe os m b (int n) = Some (Inr s, m', b')"
  shows "sys_ok os (m', b', ss @ [s])" "\<forall>t \<in> set ss. contents m' t = contents m t"
proof -
  have b: "bus_ok b" "os_fresh os b" using ok by simp_all
  from AllocStripe_spec[OF b AllocStripe_Some[OF al], of m] obtain as where b': "bus_ok b'" "os_fresh os b'" "grows b b'"
    "bus_stripe b' m' as s" "set as \<inter> used b = {}" "used b' = used b \<union> set as"
    "\<forall>r i. \<not> covers (Blocks s) r i \<longrightarrow> m' r i = m r i"
    using al by cases auto
  have adr: "stripe_addrs s = as" by (rule bus_stripe_addrs[OF b'(1,4)])
  have "\<forall>t \<in> set ss. bus_stripe b m (stripe_addrs t) t" "used b \<subseteq> used b'" "set as \<inter> set (live_addrs ss) = {}"
    using ok b' by auto
  from others_kept[OF b(1) b'(1,3) this(2) b'(4,7) this(1,3)]
  have t: "\<forall>t \<in> set ss. bus_stripe b' m' (stripe_addrs t) t \<and> contents m' t = contents m t" .
  then show "\<forall>t \<in> set ss. contents m' t = contents m t" by blast
  have "distinct as" using b'(4) by (simp add: bus_stripe_def)
  with t ok b' adr show "sys_ok os (m', b', ss @ [s])" by auto
qed

lemma sys_alloc_failed:
  assumes ok: "sys_ok os (m, b, ss)" and al: "AllocStripe os m b (int n) = Some (Inl err, m', b')"
  shows "sys_ok os (m', b', ss)" "m' = m"
proof -
  have b: "bus_ok b" "os_fresh os b" using ok by simp_all
  from AllocStripe_spec[OF b AllocStripe_Some[OF al], of m] have b': "bus_ok b'" "os_fresh os b'" "grows b b'" "used b' = used b" "m' = m"
    by (cases; use al in auto)+
  show "m' = m" by (rule b'(5))
  have "\<forall>t \<in> set ss. bus_stripe b' m (stripe_addrs t) t"
  proof
    fix t assume "t \<in> set ss"
    then have t: "bus_stripe b m (stripe_addrs t) t" using ok by simp
    then have "set (stripe_addrs t) \<subseteq> used b'" unfolding b'(4) by (simp add: bus_stripe_def)
    from bus_stripe_grows[OF b(1) t b'(3) this] show "bus_stripe b' m (stripe_addrs t) t" .
  qed
  with ok b' show "sys_ok os (m', b', ss)" by simp
qed

lemma sys_grow:
  assumes ok: "sys_ok os (m, b, xs @ s # ys)" and al: "AllocBlocksForStripe os m b s (int n) = Some (err, s', m', b')"
  shows "sys_ok os (m', b', xs @ s' # ys)" "\<forall>t \<in> set (xs @ ys). contents m' t = contents m t"
    "contents m' s' = contents m s"
proof -
  have b: "bus_ok b" "os_fresh os b" "bus_stripe b m (stripe_addrs s) s" using ok by simp_all
  have "sys_ok os (m', b', xs @ s' # ys) \<and> (\<forall>t \<in> set (xs @ ys). contents m' t = contents m t) \<and> contents m' s' = contents m s"
  proof (rule AllocBlocksForStripe_spec[OF b AllocBlocksForStripe_Some[OF al]])
    fix e b1 assume e: "AllocBlocksForStripe os m b s (int n) = Some (Some e, s, m, b1)" "bus_ok b1" "os_fresh os b1"
      "grows b b1" "used b1 = used b"
    then have "bus_stripe b1 m (stripe_addrs s @ []) s" using bus_stripe_grows[OF b(1,3)] b(3) by (simp add: bus_stripe_def)
    from sys_replace[OF ok e(2-4) this] e al show ?thesis by simp
  next
    fix s1 m1 b1 new assume g: "AllocBlocksForStripe os m b s (int n) = Some (None, s1, m1, b1)" "bus_ok b1" "os_fresh os b1"
      "grows b b1" "bus_stripe b1 m1 (stripe_addrs s @ new) s1" "set new \<inter> used b = {}" "used b1 = used b \<union> set new"
      "contents m1 s1 = contents m s" "\<forall>r i. \<not> covers (Blocks s1) r i \<longrightarrow> m1 r i = m r i"
    from sys_replace[OF ok g(2-7,9)] g al show ?thesis by simp
  qed
  then show "sys_ok os (m', b', xs @ s' # ys)" "\<forall>t \<in> set (xs @ ys). contents m' t = contents m t"
    "contents m' s' = contents m s" by blast+
qed

lemma sys_write:
  assumes ok: "sys_ok os (m, b, xs @ s # ys)" and w: "WriteAt m s p (int off) = Some (m', s', k, err)" "off < 2 ^ 62"
  shows "sys_ok os (m', b, xs @ s' # ys)" "\<forall>t \<in> set (xs @ ys). contents m' t = contents m t"
proof -
  have "stripe_ok m s" using ok by (simp add: bus_stripe_def)
  then obtain m1 s1 where w1: "WriteAt m s p (int off) = Some (m1, s1, int (min (length p) (capacity s - off)),
      if min (length p) (capacity s - off) < length p then Some CapacityExceeded else None)"
    "written m s off (take (min (length p) (capacity s - off)) p) m1 s1"
    using w(2) by (rule WriteAt_spec)
  then have "written m s off (take (min (length p) (capacity s - off)) p) m' s'" using w(1) by simp
  from sys_replace_same[OF ok] written_fields[OF this]
  show "sys_ok os (m', b, xs @ s' # ys)" "\<forall>t \<in> set (xs @ ys). contents m' t = contents m t" by blast+
qed

lemma sys_truncate:
  assumes ok: "sys_ok os (m, b, xs @ s # ys)" and w: "Truncate m s newLen = Some (m', s')"
  shows "sys_ok os (m', b, xs @ s' # ys)" "\<forall>t \<in> set (xs @ ys). contents m' t = contents m t"
proof -
  have "stripe_ok m s" using ok by (simp add: bus_stripe_def)
  then obtain m1 where "Truncate m s newLen = Some (m1, s\<lparr>DataLen := min newLen (DataLen s)\<rparr>)"
    "stripe_ok m1 (s\<lparr>DataLen := min newLen (DataLen s)\<rparr>)" "same_elsewhere m m1 s"
    by (rule Truncate_spec)
  then have "stripe_ok m' s'" "Blocks s' = Blocks s" "Sequence s' = Sequence s" "BlockCount s' = BlockCount s"
    "same_elsewhere m m' s" using w by auto
  from sys_replace_same[OF ok this]
  show "sys_ok os (m', b, xs @ s' # ys)" "\<forall>t \<in> set (xs @ ys). contents m' t = contents m t" .
qed

lemma sys_free:
  assumes ok: "sys_ok os (m, b, xs @ s # ys)" and f: "FreeStripe b s = Some b'"
  shows "sys_ok os (m, b', xs @ ys)"
proof -
  have s: "stripe_blocks (chunks b) (stripe_addrs s) s" "set (stripe_addrs s) \<subseteq> used b" "bus_ok b"
    using ok by (auto simp: bus_stripe_def)
  have d: "distinct (live_addrs xs @ stripe_addrs s @ live_addrs ys)" and u: "used b = set (live_addrs xs @ stripe_addrs s @ live_addrs ys)"
    using ok by simp_all
  obtain b1 where "FreeStripe b s = Some b1" "bus_ok b1" "used b1 = used b - set (stripe_addrs s)" "chunks b1 = chunks b" "appended b1 = appended b"
    by (rule FreeStripe_blocks[OF s(3,1,2)])
  then have b': "bus_ok b'" "used b' = used b - set (stripe_addrs s)" "chunks b' = chunks b" "appended b' = appended b" using f by simp_all
  have us: "used b' = set (live_addrs (xs @ ys))" unfolding b'(2) u using d by auto
  have "bus_stripe b' m (stripe_addrs t) t" if "t \<in> set (xs @ ys)" for t
  proof -
    have "bus_stripe b m (stripe_addrs t) t" using ok that by auto
    then show ?thesis using live_member[OF that] us b'(3,4) by (simp add: bus_stripe_def)
  qed
  with ok b' us d show ?thesis by (auto simp: os_fresh_def)
qed

lemma sys_step: "bus_step os st st' \<Longrightarrow> sys_ok os st \<Longrightarrow> sys_ok os st'"
proof (induction rule: bus_step.induct)
  case (written_at m s p off m' s' k err b xs ys)
  then show ?case using sys_write(1) by blast
qed (blast intro: sys_alloc(1) sys_alloc_failed(1) sys_grow(1) sys_truncate(1) sys_free)+

lemma sys_reachable: "bus_reachable os st st' \<Longrightarrow> sys_ok os st \<Longrightarrow> sys_ok os st'"
  by (induction rule: bus_reachable.induct) (auto intro: sys_step)

end
