(* ===== verification/Bus_Theorems.thy ===== *)
theory Bus_Theorems
  imports Bus_System
begin

text \<open>The properties of the bus (\<^verbatim>\<open>go/shm/bus.go\<close>).\<close>

subsection \<open>An example bus\<close>

definition ex_os :: "nat \<Rightarrow> chunk_sys" where
  "ex_os n = \<lparr>sys_memfd = \<lambda>_. Inr (int n + 10), sys_ftruncate = None, sys_mmap = Inr n\<rparr>"

definition ex_chunk :: chunk where
  "ex_chunk = \<lparr>ck_Data = Some \<lparr>sl_region = 0, sl_off = 0, sl_len = ChunkSize\<rparr>, ck_Fd = 10\<rparr>"

definition ex_bus :: bus where
  "ex_bus = \<lparr>lastSearchPos = 0, chunkCount = 1, bitmap = replicate 32 0, chunks = [ex_chunk], appended = [],
     kern = \<lparr>open_fds = {0, 1, 2, 10}, mapped = [0]\<rparr>\<rparr>"

lemma ex_bus_New: "NewBus (Some ex_chunk) True \<lparr>open_fds = {0, 1, 2, 10}, mapped = [0]\<rparr> = Inr ex_bus"
  by (simp add: NewBus_def ex_bus_def BlocksPerChunk_def)

lemma ex_bus_ok: "bus_ok ex_bus"
  by (simp add: bus_ok_def ex_bus_def chunks_ok_def chunk_ok_def ex_chunk_def MaxChunks_def)

lemma ex_bus_used: "used ex_bus = {}"
  using used_bits_zeros[of "[]" 32] by (simp add: used_def ex_bus_def used_bits_def)

lemma ex_os_fresh: "os_fresh ex_os ex_bus"
  by (auto simp: os_fresh_def ex_os_def ex_bus_def ex_chunk_def chunk_region_def)

lemma ex_os_succeeds: "os_succeeds ex_os"
  by (simp add: os_succeeds_def ex_os_def)

subsection \<open>Auxiliary facts\<close>

lemma NewBus_ok:
  assumes "NewBus c cb k = Inr b" "\<forall>x. c = Some x \<longrightarrow> chunk_ok x"
  shows "bus_ok b" "used b = {}"
proof -
  obtain x where "b = \<lparr>lastSearchPos = 0, chunkCount = 1, bitmap = replicate (BlocksPerChunk div 32) 0,
      chunks = [x], appended = [], kern = k\<rparr>" "chunk_ok x"
    using assms by (auto simp: NewBus_def split: option.splits if_splits)
  then show "bus_ok b" "used b = {}"
    using used_bits_zeros[of "[]" 32]
    by (auto simp: bus_ok_def chunks_ok_def BlocksPerChunk_def MaxChunks_def used_def used_bits_def)
qed

lemma GetBlock_of:
  assumes "bus_ok b" "a < 1024 * length (chunks b)"
  shows "GetBlock b (bk_ChunkID (block_of (chunks b) a)) (bk_BlockIdx (block_of (chunks b) a)) = Some (Inr (block_of (chunks b) a))"
proof -
  note bd = chunks_ok_bound[OF bus_okD(1)[OF assms(1)] assms(2)]
  have "block_at (chunks b) (NOT (of_nat (a div 1024))) (of_nat (a mod 1024)) = Some (block_of (chunks b) (a div 1024 * 1024 + a mod 1024))"
    using bd by (intro block_at_of[OF bus_okD(1)[OF assms(1)]]) auto
  then have "block_at (chunks b) (NOT (of_nat (a div 1024))) (of_nat (a mod 1024)) = Some (block_of (chunks b) a)"
    by (simp only: div_mult_mod_eq)
  moreover have "sint (NOT (NOT (of_nat (a div 1024))) :: int16) = int (a div 1024)"
    using sint_small[of "a div 1024"] bd by simp
  ultimately show ?thesis using bd by (simp add: GetBlock_def Let_def)
qed

text \<open>With nothing to allocate the loop never finds that it is done, and grows the bus to its limit.\<close>

lemma alloc_loop_zero:
  assumes "bus_ok b" "os_fresh os b" "os_succeeds os"
  shows "\<exists>b'. alloc_loop os b 0 [] = Some (Inl (AllocFailed 64), b') \<and> length (chunks b') = 64 \<and> used b' = used b"
  using assms
proof (induction "MaxChunks - chunkCount b" arbitrary: b rule: less_induct)
  case less
  note okD = bus_okD[OF less.prems(1)]
  obtain err b2 where t: "tryAppendChunk os b = (err, b2)" by (metis surj_pair)
  have unf: "alloc_loop os b 0 [] = (case err of Some e \<Rightarrow> Some (Inl e, b2) | None \<Rightarrow> alloc_loop os b2 0 [])"
    using okD(6) t by (simp add: alloc_loop.simps[of os b] scan.simps Let_def split: option.splits)
  show ?case
  proof (cases err)
    case (Some e)
    then have "\<not> chunkCount b < MaxChunks" using tryAppendChunk_succeeds[OF less.prems(3)] t by force
    then have "chunkCount b = 64" "b2 = b" "e = AllocFailed 64"
      using okD(4,5) t Some by (simp_all add: tryAppendChunk_def MaxChunks_def)
    with unf Some okD(4) show ?thesis by simp
  next
    case None
    then have cc: "MaxChunks - chunkCount b2 < MaxChunks - chunkCount b" using tryAppendChunk_count[of os b b2] t by auto
    from tryAppendChunk_spec[OF less.prems(1,2) t] have b2: "bus_ok b2" "os_fresh os b2" "used b2 = used b" by blast+
    from less.hyps[OF cc b2(1,2) less.prems(3)] unf None b2(3) show ?thesis by simp
  qed
qed

text \<open>What \<open>AllocStripe\<close> leaves in the header block of a stripe whose sequence fits.\<close>

lemma fresh_header:
  assumes "bus_stripe b' m' as s" "DataLen s = 0" "UpdateStripeHeader m s = Some m'"
  shows "length (Sequence s) \<le> seq_capacity \<longrightarrow> DecodeHeader m' (hd (Blocks s)) = Some (0, int (length as), Sequence s)"
proof
  assume sq: "length (Sequence s) \<le> seq_capacity"
  have s: "stripe_ok m' s" "BlockCount s = int (length as)" "Sequence s = append_sequence 0 [] (map (block_of (chunks b')) as)"
    using assms(1) by (simp_all add: bus_stripe_def stripe_blocks_def)
  have "length blks \<le> length (append_sequence c [] blks)" for c blks
    by (induction blks arbitrary: c) (auto simp: append_sequence_Cons intro: le_SucI simp del: append_sequence.simps)
  from this[of "map (block_of (chunks b')) as" 0] have n: "length as \<le> 2044" using sq by (simp add: s(3) seq_capacity_eq)
  have ne: "Blocks s \<noteq> []" by (rule stripe_okD(1)[OF s(1)])
  have hl: "sl_len (hd (Blocks s)) = BlockSize"
    using blocks_wf_nth[OF stripe_okD(2)[OF s(1)], of 0] ne by (simp add: hd_conv_nth)
  have bc: "0 \<le> BlockCount s" "BlockCount s < 65536" "length (Sequence s) < 65536"
    using n s(2) sq by (simp_all add: seq_capacity_eq)
  obtain m1 where "UpdateStripeHeader m s = Some m1" "DecodeHeader m1 (hd (Blocks s)) = Some (DataLen s, BlockCount s,
      take seq_capacity (Sequence s) @ replicate (length (Sequence s) - seq_capacity) 0)"
    by (rule DecodeHeader_UpdateStripeHeader[OF ne hl bc])
  then show "DecodeHeader m' (hd (Blocks s)) = Some (0, int (length as), Sequence s)" using assms(2,3) s(2) sq by simp
qed

subsection \<open>Properties\<close>

text \<open>C13: \<open>AllocBlocks\<close> is all or nothing and never hands out a block twice. It panics exactly for the counts
  \<open>make\<close> refuses, negative or above \<open>MaxMakeBlocks\<close>. For every other count it returns (no endless
  loop) either \<open>count\<close> pairwise distinct blocks that were all free, marking exactly those as used,
  or an error with the set of used blocks unchanged. Chunks are only ever added, each reported
  once to \<open>onChunkAppended\<close>; those added before an error stay. \<open>GetBlock\<close> finds every returned
  block under its chunk ID and index. (The kernel maps each new \<open>memfd\<close> to memory of its own.)\<close>

theorem AllocBlocks_correct:
  assumes "bus_ok b" and "os_fresh os b"
  shows "case AllocBlocks os b count of
      None \<Rightarrow> count < 0 \<or> MaxMakeBlocks < count
    | Some (res, b') \<Rightarrow> 0 \<le> count \<and> count \<le> MaxMakeBlocks \<and> bus_ok b' \<and> grows b b' \<and>
        (case res of
           Inr blks \<Rightarrow> int (length blks) = count \<and> distinct (map block_addr blks) \<and> set (map block_addr blks) \<inter> used b = {}
             \<and> used b' = used b \<union> set (map block_addr blks)
             \<and> (\<forall>blk \<in> set blks. GetBlock b' (bk_ChunkID blk) (bk_BlockIdx blk) = Some (Inr blk))
         | Inl err \<Rightarrow> used b' = used b)"
proof (cases "count < 0 \<or> MaxMakeBlocks < count")
  case False
  then obtain n where n: "count = int n" "int n \<le> MaxMakeBlocks" by (cases count) auto
  obtain res b' where al: "AllocBlocks os b (int n) = Some (res, b')" "bus_ok b'" "grows b b'"
    "alloc_outcome b [] n (res, b')"
    by (rule AllocBlocks_spec[OF assms n(2)])
  show ?thesis
  proof (cases res)
    case (Inr blks)
    then obtain as where as: "blks = map (block_of (chunks b')) as" "used b' = used b \<union> set as"
      using al(4) by (auto simp: alloc_outcome_def)
    have "GetBlock b' (bk_ChunkID blk) (bk_BlockIdx blk) = Some (Inr blk)" if "blk \<in> set blks" for blk
    proof -
      obtain a where "blk = block_of (chunks b') a" "a \<in> used b'" using \<open>blk \<in> set blks\<close> as by auto
      then show ?thesis using GetBlock_of[OF al(2)] used_bound[OF al(2)] by simp
    qed
    with al Inr n alloc_outcome_addrs[OF al(2), of b n blks] show ?thesis by auto
  qed (use al n in \<open>auto simp: alloc_outcome_def\<close>)
qed (simp add: AllocBlocks_def)

theorem AllocBlocks_correct_witness:
  "(\<exists>res b'. AllocBlocks ex_os ex_bus 3 = Some (res, b') \<and> bus_ok b') \<and> AllocBlocks ex_os ex_bus (2 ^ 60) = None"
  using AllocBlocks_correct[OF ex_bus_ok ex_os_fresh, of 3] AllocBlocks_correct[OF ex_bus_ok ex_os_fresh, of "2 ^ 60"]
  by (auto simp: MaxMakeBlocks_def split: option.splits prod.splits)

text \<open>C14: \<open>AllocBlocks\<close> succeeds whenever it can: a positive request that fits into the 65536 blocks of
  64 chunks, beside those in use, is served as long as the system can create chunks, and no
  chunk is created when the existing ones have enough free blocks, however scattered.\<close>

theorem AllocBlocks_succeeds:
  assumes "bus_ok b" and "os_fresh os b" and "os_succeeds os" and "0 < n" and "n + card (used b) \<le> 65536"
  shows "\<exists>blks b'. AllocBlocks os b (int n) = Some (Inr blks, b') \<and> length blks = n
    \<and> (n + card (used b) \<le> 1024 * length (chunks b) \<longrightarrow> chunks b' = chunks b)"
proof -
  obtain res b' where al: "AllocBlocks os b (int n) = Some (res, b')" "alloc_outcome b [] n (res, b')"
    "os_succeeds os \<longrightarrow> 0 < n \<longrightarrow> n + card (used b) \<le> 65536 \<longrightarrow> (\<exists>blks. res = Inr blks)"
    "0 < n \<longrightarrow> n + card (used b) \<le> 1024 * length (chunks b) \<longrightarrow> chunks b' = chunks b"
    by (rule AllocBlocks_spec[OF assms(1,2) makeable[of n]]) (use assms(5) in simp)
  then show ?thesis using assms(3-5) by (auto simp: alloc_outcome_def)
qed

theorem AllocBlocks_succeeds_witness:
  "\<exists>blks b'. AllocBlocks ex_os ex_bus 3 = Some (Inr blks, b') \<and> length blks = 3 \<and> chunks b' = chunks ex_bus"
  using AllocBlocks_succeeds[OF ex_bus_ok ex_os_fresh ex_os_succeeds, of 3]
  by (auto simp: ex_bus_used) (simp add: ex_bus_def)

text \<open>A request for zero blocks fails after growing the bus to its limit: the loop only notices that
  it is done after taking a block, so \<open>AllocBlocks(0)\<close> creates chunks until there are 64 and
  then reports that it \<open>failed to allocate 64 blocks\<close>, the number of chunks.\<close>

theorem AllocBlocks_zero:
  assumes "bus_ok b" and "os_fresh os b" and "os_succeeds os"
  shows "\<exists>b'. AllocBlocks os b 0 = Some (Inl (AllocFailed 64), b') \<and> length (chunks b') = 64 \<and> used b' = used b"
  using alloc_loop_zero[OF assms] by (simp add: AllocBlocks_def MaxMakeBlocks_def)

theorem AllocBlocks_zero_witness:
  "\<exists>b'. AllocBlocks ex_os ex_bus 0 = Some (Inl (AllocFailed 64), b') \<and> length (chunks b') = 64"
  using AllocBlocks_zero[OF ex_bus_ok ex_os_fresh ex_os_succeeds] by blast

text \<open>C30: \<open>AllocStripe\<close> builds a well-formed empty stripe out of fresh blocks and describes it in its
  header: decoding the header block gives the block count and the sequence (when it fits), the
  sequence names exactly the blocks taken, and no memory outside the new blocks is touched. On
  an error the used blocks and the memory are as before and the old chunks are kept, but the
  chunks appended by the attempt stay. It panics exactly for the counts \<open>make\<close> refuses.\<close>

theorem AllocStripe_correct:
  assumes "bus_ok b" and "os_fresh os b"
  shows "case AllocStripe os m b count of
      None \<Rightarrow> count < 0 \<or> MaxMakeBlocks < count
    | Some (res, m', b') \<Rightarrow> 0 \<le> count \<and> count \<le> MaxMakeBlocks \<and> bus_ok b' \<and> grows b b' \<and>
        (case res of
           Inr s \<Rightarrow> stripe_ok m' s \<and> contents m' s = [] \<and> int (length (Blocks s)) = count
             \<and> int (length (stripe_addrs s)) = count \<and> distinct (stripe_addrs s)
             \<and> set (stripe_addrs s) \<inter> used b = {} \<and> used b' = used b \<union> set (stripe_addrs s)
             \<and> (length (Sequence s) \<le> seq_capacity \<longrightarrow> DecodeHeader m' (hd (Blocks s)) = Some (0, count, Sequence s))
             \<and> same_elsewhere m m' s
         | Inl err \<Rightarrow> used b' = used b \<and> m' = m)"
proof (cases "count < 0 \<or> MaxMakeBlocks < count")
  case False
  then obtain n where n: "count = int n" "int n \<le> MaxMakeBlocks" by (cases count) auto
  show ?thesis
  proof (rule AllocStripe_spec[OF assms n(2), of m])
    fix s m' b' as
    assume a: "AllocStripe os m b (int n) = Some (Inr s, m', b')" "bus_ok b'" "grows b b'" "bus_stripe b' m' as s"
      "length as = n" "set as \<inter> used b = {}" "used b' = used b \<union> set as" "DataLen s = 0"
      "\<forall>r i. \<not> covers (Blocks s) r i \<longrightarrow> m' r i = m r i" "UpdateStripeHeader m s = Some m'"
    have adr: "stripe_addrs s = as" by (rule bus_stripe_addrs[OF a(2,4)])
    have s: "stripe_ok m' s" "distinct as" "Blocks s = map (bk_Data \<circ> block_of (chunks b')) as"
      using a(4,5) by (simp_all add: bus_stripe_def stripe_blocks_def)
    have "contents m' s = []" by (simp add: contents_def a(8))
    with a s adr n fresh_header[OF a(4) a(8,10)] show ?thesis by (simp add: same_elsewhere_def)
  qed (use n in simp)
qed (simp add: AllocStripe_def AllocBlocks_def)

theorem AllocStripe_correct_witness:
  "\<exists>res m' b'. AllocStripe ex_os (\<lambda>r i. 0) ex_bus 3 = Some (res, m', b') \<and> bus_ok b'"
  using AllocStripe_correct[OF ex_bus_ok ex_os_fresh, of 3 "\<lambda>r i. 0"]
  by (auto simp: MaxMakeBlocks_def split: option.splits prod.splits)

text \<open>C31: Growing a stripe keeps its data: \<open>AllocBlocksForStripe\<close> adds \<open>count\<close> fresh blocks at the end, so
  the capacity grows by as many blocks, and every byte of the contents is where it was. The
  sequence afterwards names the old blocks followed by the new ones, also when the new ones
  start in the chunk the old ones ended in. On an error the stripe, the memory and the used blocks
  are as before; only chunks may have been appended. It panics exactly for the counts \<open>make\<close> refuses.\<close>

theorem AllocBlocksForStripe_correct:
  assumes "bus_ok b" and "os_fresh os b" and "bus_stripe b m (stripe_addrs s) s"
  shows "case AllocBlocksForStripe os m b s count of
      None \<Rightarrow> count < 0 \<or> MaxMakeBlocks < count
    | Some (err, s', m', b') \<Rightarrow> 0 \<le> count \<and> count \<le> MaxMakeBlocks \<and> bus_ok b' \<and> grows b b' \<and>
        (case err of
           None \<Rightarrow> bus_stripe b' m' (stripe_addrs s') s' \<and> contents m' s' = contents m s
             \<and> capacity s' = capacity s + BlockSize * nat count
             \<and> (\<exists>new. stripe_addrs s' = stripe_addrs s @ new \<and> int (length new) = count
                  \<and> set new \<inter> used b = {} \<and> used b' = used b \<union> set new)
         | Some e \<Rightarrow> s' = s \<and> m' = m \<and> used b' = used b)"
proof (cases "count < 0 \<or> MaxMakeBlocks < count")
  case False
  then obtain n where n: "count = int n" "int n \<le> MaxMakeBlocks" by (cases count) auto
  show ?thesis
  proof (rule AllocBlocksForStripe_spec[OF assms n(2)])
    fix s' m' b' new
    assume g: "AllocBlocksForStripe os m b s (int n) = Some (None, s', m', b')" "bus_ok b'" "grows b b'"
      "bus_stripe b' m' (stripe_addrs s @ new) s'" "length new = n" "set new \<inter> used b = {}" "used b' = used b \<union> set new"
      "contents m' s' = contents m s" "capacity s' = capacity s + BlockSize * n"
    from bus_stripe_addrs[OF g(2,4)] g n show ?thesis by simp
  qed (use n in simp)
qed (simp add: AllocBlocksForStripe_def AllocBlocks_def)

lemma AllocStripe_succeeds:
  assumes "bus_ok b" "os_fresh os b" "os_succeeds os" "0 < n" "n + card (used b) \<le> 65536"
  obtains s m' b' where "AllocStripe os m b (int n) = Some (Inr s, m', b')" "bus_ok b'" "os_fresh os b'"
    "bus_stripe b' m' (stripe_addrs s) s" "card (used b') = n + card (used b)"
proof -
  obtain res b' where al: "AllocBlocks os b (int n) = Some (res, b')"
    "os_succeeds os \<longrightarrow> 0 < n \<longrightarrow> n + card (used b) \<le> 65536 \<longrightarrow> (\<exists>blks. res = Inr blks)"
    by (rule AllocBlocks_spec[OF assms(1,2) makeable[of n]]) (use assms(5) in simp)
  then obtain blks where blks: "AllocBlocks os b (int n) = Some (Inr blks, b')" using assms(3-5) by auto
  show ?thesis
  proof (rule AllocStripe_spec[OF assms(1,2) AllocBlocks_Some[OF blks], of m])
    fix err b1 assume "AllocStripe os m b (int n) = Some (Inl err, m, b1)"
    then show thesis using blks by (auto simp: AllocStripe_def Let_def split: bind_splits)
  next
    fix s m' b1 as
    assume s: "AllocStripe os m b (int n) = Some (Inr s, m', b1)" "bus_ok b1" "os_fresh os b1" "bus_stripe b1 m' as s"
      "length as = n" "set as \<inter> used b = {}" "used b1 = used b \<union> set as"
    have "distinct as" using s(4) by (simp add: bus_stripe_def)
    then have "card (used b1) = n + card (used b)"
      unfolding s(7) using s(5,6) finite_used by (subst card_Un_disjoint) (auto simp: distinct_card)
    then show thesis using that[OF s(1-3)] s(4) bus_stripe_addrs[OF s(2,4)] by simp
  qed
qed

lemma ex_alloc_stripe:
  obtains s m' b' where "AllocStripe ex_os (\<lambda>r i. 0) ex_bus (int 3) = Some (Inr s, m', b')" "bus_ok b'" "os_fresh ex_os b'"
    "bus_stripe b' m' (stripe_addrs s) s" "card (used b') = 3"
  using AllocStripe_succeeds[OF ex_bus_ok ex_os_fresh ex_os_succeeds, of 3 "\<lambda>r i. 0"] by (auto simp: ex_bus_used)

theorem AllocBlocksForStripe_correct_witness:
  "\<exists>s m b. bus_stripe b m (stripe_addrs s) s
    \<and> (\<exists>err s' m' b'. AllocBlocksForStripe ex_os m b s 2 = Some (err, s', m', b') \<and> bus_ok b')"
proof -
  obtain s m' b' where s: "bus_ok b'" "os_fresh ex_os b'" "bus_stripe b' m' (stripe_addrs s) s"
    by (rule ex_alloc_stripe)
  have "\<exists>err s1 m1 b1. AllocBlocksForStripe ex_os m' b' s 2 = Some (err, s1, m1, b1) \<and> bus_ok b1"
    using AllocBlocksForStripe_correct[OF s, of 2] by (auto simp: MaxMakeBlocks_def split: option.splits prod.splits)
  with s(3) show ?thesis by blast
qed

text \<open>C35: \<open>FreeStripe\<close> gives back exactly what the stripe has: on a stripe as \<open>AllocStripe\<close> and
  \<open>AllocBlocksForStripe\<close> leave it, whatever chunks its blocks come from, walking the sequence
  removes the addresses of its blocks from the used ones and no others.\<close>

theorem FreeStripe_correct:
  assumes "bus_ok b" and "bus_stripe b m (stripe_addrs s) s"
  shows "\<exists>b'. FreeStripe b s = Some b' \<and> bus_ok b' \<and> used b' = used b - set (stripe_addrs s) \<and> chunks b' = chunks b"
proof -
  have s: "stripe_blocks (chunks b) (stripe_addrs s) s" "set (stripe_addrs s) \<subseteq> used b"
    using assms(2) by (simp_all add: bus_stripe_def)
  show ?thesis by (rule FreeStripe_blocks[OF assms(1) s]) auto
qed

theorem FreeStripe_correct_witness:
  "\<exists>s m b b'. bus_stripe b m (stripe_addrs s) s \<and> FreeStripe b s = Some b' \<and> used b' = used b - set (stripe_addrs s)"
proof -
  obtain s m' b' where s: "bus_ok b'" "os_fresh ex_os b'" "bus_stripe b' m' (stripe_addrs s) s"
    by (rule ex_alloc_stripe)
  then show ?thesis using FreeStripe_correct[OF s(1,3)] by blast
qed

lemma free_blocks_cong: "free_blocks b (map (block_of cks) as) = free_blocks b (map (block_of cks') as)"
  by (induction as arbitrary: b) (simp_all cong: Option.bind_cong)

text \<open>Allocations are independent: when two allocations succeed one after the other, freeing the
  blocks of the first with \<open>FreeBlock\<close> leaves exactly the blocks of the second in use, beside
  those that were in use before.\<close>

theorem FreeBlock_keeps_other_blocks:
  assumes "bus_ok b" and "os_fresh os b" and "AllocBlocks os b (int n) = Some (Inr blks, b1)"
    and "AllocBlocks os b1 (int k) = Some (Inr blks', b2)"
  shows "\<exists>b3. free_blocks b2 blks = Some b3 \<and> used b3 = used b \<union> set (map block_addr blks')"
proof -
  have a: "alloc_addrs os b n = (Inr (map block_addr blks), b1)" "alloc_addrs os b1 k = (Inr (map block_addr blks'), b2)"
    using assms(3,4) by (simp_all add: alloc_addrs_def)
  have b1: "bus_ok b1 \<and> os_fresh os b1" using ba.alloc_ok[OF _ a(1)] assms(1,2) by simp
  have us: "used (release_addrs b2 (map block_addr blks)) = used b \<union> set (map block_addr blks')"
    using ba.release_keeps_others[OF _ a] assms(1,2) by simp
  have sub: "set (map block_addr blks) \<subseteq> used b2" and b2: "bus_ok b2"
    using ba.allocs_disjoint(2)[OF _ a] ba.alloc_ok[OF b1 a(2)] assms(1,2) by auto
  obtain res b' where "AllocBlocks os b (int n) = Some (res, b')" "bus_ok b'" "alloc_outcome b [] n (res, b')"
    by (rule AllocBlocks_spec[OF assms(1,2) AllocBlocks_Some[OF assms(3)]])
  then obtain as where as: "blks = map (block_of (chunks b1)) as" "used b1 = used b \<union> set as"
    using assms(3) by (auto simp: alloc_outcome_def)
  have "set as \<subseteq> {..<65536}" using as(2) b1 by (intro bus_addr_bound[of b1]) auto
  then have "map block_addr blks = as" unfolding as(1) by (auto simp: block_addr_of intro!: map_idI)
  then have "free_blocks b2 blks = free_blocks b2 (map (block_of (chunks b2)) (map block_addr blks))"
    using free_blocks_cong[of b2 "chunks b1" as "chunks b2"] as(1) by simp
  moreover obtain b3 where "free_blocks b2 (map (block_of (chunks b2)) (map block_addr blks)) = Some b3"
    by (rule free_blocks_bus[OF b2 sub])
  ultimately show ?thesis using us by (simp add: release_addrs_def)
qed

theorem FreeBlock_keeps_other_blocks_witness:
  "\<exists>blks b1 blks' b2 b3. AllocBlocks ex_os ex_bus 3 = Some (Inr blks, b1) \<and> AllocBlocks ex_os b1 2 = Some (Inr blks', b2)
    \<and> free_blocks b2 blks = Some b3 \<and> used b3 = set (map block_addr blks')"
proof -
  have three: "0 < (3 :: nat)" "3 + card (used ex_bus) \<le> 65536" by (simp_all add: ex_bus_used)
  obtain res b1 where al: "AllocBlocks ex_os ex_bus (int 3) = Some (res, b1)" "bus_ok b1" "os_fresh ex_os b1"
    "os_succeeds ex_os \<longrightarrow> 0 < (3 :: nat) \<longrightarrow> 3 + card (used ex_bus) \<le> 65536 \<longrightarrow> (\<exists>blks. res = Inr blks)"
    "alloc_outcome ex_bus [] 3 (res, b1)"
    by (rule AllocBlocks_spec[OF ex_bus_ok ex_os_fresh makeable[of 3]]) simp_all
  then obtain blks where blks: "res = Inr blks" using ex_os_succeeds three by blast
  have "used b1 = set (map block_addr blks)" "length blks = 3"
    using alloc_outcome_addrs[OF al(2), of ex_bus 3 blks] al(5) blks ex_bus_used by auto
  then have "card (used b1) \<le> 3" by (metis card_length length_map)
  then have two: "0 < (2 :: nat)" "2 + card (used b1) \<le> 65536" by simp_all
  obtain res2 b2 where al2: "AllocBlocks ex_os b1 (int 2) = Some (res2, b2)"
    "os_succeeds ex_os \<longrightarrow> 0 < (2 :: nat) \<longrightarrow> 2 + card (used b1) \<le> 65536 \<longrightarrow> (\<exists>blks. res2 = Inr blks)"
    by (rule AllocBlocks_spec[OF al(2,3) makeable[of 2]]) simp_all
  then obtain blks' where blks': "res2 = Inr blks'" using ex_os_succeeds two by blast
  from FreeBlock_keeps_other_blocks[OF ex_bus_ok ex_os_fresh al(1)[unfolded blks] al2(1)[unfolded blks']]
  show ?thesis using al(1) al2(1) blks blks' ex_bus_used by auto
qed

text \<open>C1: No block is shared and none leaks, whatever the hub does. Starting from a new bus, after any
  sequence of allocating, growing, writing, truncating and freeing stripes, failed operations
  included, every live stripe is well-formed, no block belongs to two live stripes or twice to
  one, and the used blocks are exactly those of the live stripes.\<close>

theorem bus_no_sharing_no_leak:
  assumes "NewBus (Some c) True k = Inr b0" and "chunk_ok c" and "os_fresh os b0"
    and "bus_reachable os (m0, b0, []) (m, b, ss)"
  shows "bus_ok b \<and> (\<forall>s \<in> set ss. stripe_ok m s) \<and> distinct (concat (map stripe_addrs ss))
    \<and> used b = set (concat (map stripe_addrs ss))"
proof -
  have "bus_ok b0" "used b0 = {}" using NewBus_ok[OF assms(1)] assms(2) by auto
  then have "sys_ok os (m0, b0, [])" using assms(3) by simp
  from sys_reachable[OF assms(4) this] show ?thesis by (auto simp: bus_stripe_def live_addrs_def)
qed

theorem bus_no_sharing_no_leak_witness:
  "\<exists>s m b. bus_reachable ex_os ((\<lambda>r i. 0), ex_bus, []) (m, b, [s]) \<and> stripe_ok m s \<and> used b = set (stripe_addrs s)"
proof -
  obtain s m b where a: "AllocStripe ex_os (\<lambda>r i. 0) ex_bus (int 3) = Some (Inr s, m, b)"
    by (rule ex_alloc_stripe)
  have "bus_step ex_os ((\<lambda>r i. 0), ex_bus, []) (m, b, [] @ [s])" by (rule bus_step.alloc[OF a])
  then have r: "bus_reachable ex_os ((\<lambda>r i. 0), ex_bus, []) (m, b, [s])"
    using bus_reachable.step[OF bus_reachable.start] by simp
  have "chunk_ok ex_chunk" by (simp add: chunk_ok_def ex_chunk_def)
  from bus_no_sharing_no_leak[OF ex_bus_New this ex_os_fresh r] r show ?thesis by auto
qed

text \<open>C4: Live stripes are isolated from each other: in every reachable state, a step of one stripe
  (growing it, writing to it at any offset, truncating it) or the allocation of another leaves
  the contents of every other live stripe as they were.\<close>

theorem stripes_isolated:
  assumes "NewBus (Some c) True k = Inr b0" and "chunk_ok c" and "os_fresh os b0"
    and "bus_reachable os (m0, b0, []) (m, b, xs @ s # ys)" and "off < 2 ^ 62"
  shows "(\<forall>m' s' n err. WriteAt m s p (int off) = Some (m', s', n, err) \<longrightarrow> (\<forall>t \<in> set (xs @ ys). contents m' t = contents m t))
    \<and> (\<forall>m' s'. Truncate m s newLen = Some (m', s') \<longrightarrow> (\<forall>t \<in> set (xs @ ys). contents m' t = contents m t))
    \<and> (\<forall>err s' m' b'. AllocBlocksForStripe os m b s (int n) = Some (err, s', m', b') \<longrightarrow> (\<forall>t \<in> set (xs @ ys). contents m' t = contents m t))
    \<and> (\<forall>s' m' b'. AllocStripe os m b (int n) = Some (Inr s', m', b') \<longrightarrow> (\<forall>t \<in> set (xs @ s # ys). contents m' t = contents m t))"
proof -
  have "bus_ok b0" "used b0 = {}" using NewBus_ok[OF assms(1)] assms(2) by auto
  then have "sys_ok os (m0, b0, [])" using assms(3) by simp
  from sys_reachable[OF assms(4) this] have ok: "sys_ok os (m, b, xs @ s # ys)" .
  show ?thesis
  proof (intro conjI allI impI)
    fix m' s' n err assume "WriteAt m s p (int off) = Some (m', s', n, err)"
    then show "\<forall>t \<in> set (xs @ ys). contents m' t = contents m t" using assms(5) by (rule sys_write(2)[OF ok])
  qed (erule sys_truncate(2)[OF ok] sys_grow(2)[OF ok] sys_alloc(2)[OF ok])+
qed

theorem stripes_isolated_witness:
  "\<exists>s t m b. bus_reachable ex_os ((\<lambda>r i. 0), ex_bus, []) (m, b, [s, t])
    \<and> (\<forall>m' s' n err. WriteAt m s [1, 2] 5000 = Some (m', s', n, err) \<longrightarrow> contents m' t = contents m t)"
proof -
  obtain s m b where a: "AllocStripe ex_os (\<lambda>r i. 0) ex_bus (int 3) = Some (Inr s, m, b)"
    "bus_ok b" "os_fresh ex_os b" "bus_stripe b m (stripe_addrs s) s" "card (used b) = 3"
    by (rule ex_alloc_stripe)
  have two: "0 < (2 :: nat)" "2 + card (used b) \<le> 65536" by (simp_all add: a(5))
  obtain t m' b' where t: "AllocStripe ex_os m b (int 2) = Some (Inr t, m', b')"
    by (rule AllocStripe_succeeds[OF a(2,3) ex_os_succeeds two])
  have "bus_step ex_os ((\<lambda>r i. 0), ex_bus, []) (m, b, [] @ [s])" "bus_step ex_os (m, b, [s]) (m', b', [s] @ [t])"
    by (rule bus_step.alloc[OF a(1)], rule bus_step.alloc[OF t])
  then have r: "bus_reachable ex_os ((\<lambda>r i. 0), ex_bus, []) (m', b', [] @ s # [t])"
    using bus_reachable.step[OF bus_reachable.step[OF bus_reachable.start]] by simp
  have "chunk_ok ex_chunk" by (simp add: chunk_ok_def ex_chunk_def)
  from stripes_isolated[OF ex_bus_New this ex_os_fresh r, of 5000 "[1, 2]" 0 0] r show ?thesis
    by (intro exI[of _ s] exI[of _ t] exI[of _ m'] exI[of _ b']) simp
qed

end
