(* ===== verification/Bus_Concurrent.thy ===== *)
theory Bus_Concurrent
  imports Bus_Theorems
begin

text \<open>
  The bitmap of the bus under concurrency (\<^verbatim>\<open>AllocBlocks\<close>, \<^verbatim>\<open>FreeBlock\<close> and \<^verbatim>\<open>tryAppendChunk\<close> of
  \<^verbatim>\<open>go/shm/bus.go\<close>): any number of goroutines take the read lock and a snapshot of the bitmap slice,
  load its words and try to change them by compare-and-swap, interleaved in any way; appending a
  chunk takes the write lock, copies the slice to a longer array and publishes that one. \<open>owned t\<close> is
  the set of addresses thread \<open>t\<close> has claimed and not freed or handed over.
\<close>

subsection \<open>The step relation\<close>

datatype bus_thread =
    BIdle                       \<comment> \<open>without the lock\<close>
  | BScan nat int               \<comment> \<open>in the scan, under the read lock: the array of its snapshot, blocks still wanted\<close>
  | BClaim nat nat uint32 int   \<comment> \<open>at a word of the scan: array, word index, the value loaded, blocks still wanted\<close>
  | BFree nat nat uint32        \<comment> \<open>in \<open>FreeBlock\<close>, under the read lock: array, address, the value loaded\<close>

text \<open>\<open>bitmap_arrays\<close> are the arrays bitmaps have lived in and \<open>bitmap_cur\<close> the published one: a
  compare-and-swap on an array that has been replaced would be lost.\<close>

record bus_shared =
  bitmap_arrays :: "nat \<Rightarrow> uint32 list"
  bitmap_cur :: nat
  threads :: "nat \<Rightarrow> bus_thread"
  owned :: "nat \<Rightarrow> nat set"

abbreviation words :: "bus_shared \<Rightarrow> uint32 list" where
  "words st \<equiv> bitmap_arrays st (bitmap_cur st)"

abbreviation set_thread :: "bus_shared \<Rightarrow> nat \<Rightarrow> bus_thread \<Rightarrow> bus_shared" where
  "set_thread st t x \<equiv> st\<lparr>threads := (threads st)(t := x)\<rparr>"

abbreviation set_word :: "bus_shared \<Rightarrow> nat \<Rightarrow> nat \<Rightarrow> uint32 \<Rightarrow> bus_shared" where
  "set_word st g w v \<equiv> st\<lparr>bitmap_arrays := (bitmap_arrays st)(g := (bitmap_arrays st g)[w := v])\<rparr>"

inductive claim_step :: "bus_shared \<Rightarrow> bus_shared \<Rightarrow> bool" where
  scan_rlock: "threads st t = BIdle \<Longrightarrow> 0 < remaining \<Longrightarrow> claim_step st (set_thread st t (BScan (bitmap_cur st) remaining))"
| scan_load: "threads st t = BScan g remaining \<Longrightarrow> w < length (bitmap_arrays st g) \<Longrightarrow>
    claim_step st (set_thread st t (BClaim g w (bitmap_arrays st g ! w) remaining))"
| scan_runlock: "threads st t = BScan g remaining \<Longrightarrow> claim_step st (set_thread st t BIdle)"
| claim_skip: "threads st t = BClaim g w old remaining \<Longrightarrow> old = 0xFFFFFFFF \<Longrightarrow> claim_step st (set_thread st t (BScan g remaining))"
| claim_cas: "threads st t = BClaim g w old remaining \<Longrightarrow> old \<noteq> 0xFFFFFFFF \<Longrightarrow>
    find_bits (NOT old) remaining old [] = (newVal, foundBits) \<Longrightarrow> foundBits \<noteq> [] \<Longrightarrow> bitmap_arrays st g ! w = old \<Longrightarrow>
    claim_step st ((set_word (set_thread st t (if remaining - int (length foundBits) = 0 then BIdle
        else BScan g (remaining - int (length foundBits)))) g w newVal)
      \<lparr>owned := (owned st)(t := owned st t \<union> (\<lambda>i. w * 32 + i) ` set foundBits)\<rparr>)"
| claim_retry: "threads st t = BClaim g w old remaining \<Longrightarrow> bitmap_arrays st g ! w \<noteq> old \<Longrightarrow>
    claim_step st (set_thread st t (BClaim g w (bitmap_arrays st g ! w) remaining))"
| free_load: "threads st t = BIdle \<Longrightarrow> a \<in> owned st t \<Longrightarrow>
    claim_step st (set_thread st t (BFree (bitmap_cur st) a (bitmap_arrays st (bitmap_cur st) ! (a div 32))))"
| free_cas: "threads st t = BFree g a old \<Longrightarrow> bitmap_arrays st g ! (a div 32) = old \<Longrightarrow>
    claim_step st ((set_word (set_thread st t BIdle) g (a div 32) (old AND NOT (push_bit (a mod 32) 1)))
      \<lparr>owned := (owned st)(t := owned st t - {a})\<rparr>)"
| free_retry: "threads st t = BFree g a old \<Longrightarrow> bitmap_arrays st g ! (a div 32) \<noteq> old \<Longrightarrow>
    claim_step st (set_thread st t (BFree g a (bitmap_arrays st g ! (a div 32))))"
| append_chunk: "(\<And>t. threads st t = BIdle) \<Longrightarrow>
    claim_step st (st\<lparr>bitmap_arrays := (bitmap_arrays st)(bitmap_cur st + 1 := words st @ replicate (BlocksPerChunk div 32) 0),
      bitmap_cur := bitmap_cur st + 1\<rparr>)"
| hand_over: "threads st t = BIdle \<Longrightarrow> A \<subseteq> owned st t \<Longrightarrow> t \<noteq> t' \<Longrightarrow>
    claim_step st (st\<lparr>owned := (owned st)(t := owned st t - A, t' := owned st t' \<union> A)\<rparr>)"

inductive claim_reach :: "bus_shared \<Rightarrow> bus_shared \<Rightarrow> bool" for st0 where
  here: "claim_reach st0 st0"
| step: "claim_reach st0 st \<Longrightarrow> claim_step st st' \<Longrightarrow> claim_reach st0 st'"

subsection \<open>The invariant\<close>

text \<open>The read lock keeps every snapshot in use the published one.\<close>

fun thread_ok :: "nat \<Rightarrow> uint32 list \<Rightarrow> nat set \<Rightarrow> bus_thread \<Rightarrow> bool" where
  "thread_ok cur ws own BIdle = True"
| "thread_ok cur ws own (BScan g remaining) = (g = cur \<and> 0 < remaining)"
| "thread_ok cur ws own (BClaim g w old remaining) = (g = cur \<and> w < length ws \<and> 0 < remaining)"
| "thread_ok cur ws own (BFree g a old) = (g = cur \<and> a \<in> own)"

definition claims_ok :: "bus_shared \<Rightarrow> bool" where
  "claims_ok st \<longleftrightarrow> used_bits (words st) = (\<Union>t. owned st t)
     \<and> (\<forall>t t'. t \<noteq> t' \<longrightarrow> owned st t \<inter> owned st t' = {})
     \<and> (\<forall>t. thread_ok (bitmap_cur st) (words st) (owned st t) (threads st t))"

lemma claims_okD:
  assumes "claims_ok st"
  shows "used_bits (words st) = (\<Union>t. owned st t)" "t \<noteq> t' \<Longrightarrow> owned st t \<inter> owned st t' = {}"
    "thread_ok (bitmap_cur st) (words st) (owned st t) (threads st t)"
  using assms unfolding claims_ok_def by blast+

lemma found_free:
  assumes f: "find_bits (NOT (ws ! w)) remaining (ws ! w) [] = (newVal, foundBits)" and w: "w < length ws" and r: "0 < remaining"
  shows "used_bits (ws[w := newVal]) = used_bits ws \<union> (\<lambda>i. w * 32 + i) ` set foundBits"
    and "used_bits ws \<inter> (\<lambda>i. w * 32 + i) ` set foundBits = {}"
proof -
  obtain nv where nv: "find_bits (NOT (ws ! w)) remaining (ws ! w) [] = (nv, take (nat remaining) (set_bits32 (NOT (ws ! w))))"
    "\<forall>i < 32. bit nv i \<longleftrightarrow> bit (ws ! w) i \<or> i \<in> set (take (nat remaining) (set_bits32 (NOT (ws ! w))))"
    using find_bits_spec[of "[]" remaining "NOT (ws ! w)" "ws ! w"] r by auto
  have fb: "foundBits = take (nat remaining) (set_bits32 (NOT (ws ! w)))" "newVal = nv" using nv(1) f by simp_all
  have sub: "set foundBits \<subseteq> set (set_bits32 (NOT (ws ! w)))" unfolding fb by (rule set_take_subset)
  then have "set foundBits \<subseteq> {..<32}" by (auto simp: set_set_bits32)
  then show "used_bits (ws[w := newVal]) = used_bits ws \<union> (\<lambda>i. w * 32 + i) ` set foundBits"
    using used_bits_update[OF w, of nv foundBits] nv(2) fb by simp
  have "set (free_in ws w) \<inter> used_bits ws = {}" using set_free_in[OF w] by auto
  moreover have "(\<lambda>i. w * 32 + i) ` set foundBits \<subseteq> set (free_in ws w)" using sub by (auto simp: free_in_def)
  ultimately show "used_bits ws \<inter> (\<lambda>i. w * 32 + i) ` set foundBits = {}" by blast
qed

lemma found_length:
  assumes "find_bits (NOT v) remaining v [] = (newVal, foundBits)" and "0 < remaining"
  shows "int (length foundBits) \<le> remaining"
  using find_bits_spec[of "[]" remaining "NOT v" v] assms by auto

lemma claims_ok_cas:
  assumes ok: "claims_ok st" and t: "threads st t = BClaim g w old remaining"
    and f: "find_bits (NOT old) remaining old [] = (newVal, foundBits)" and old: "bitmap_arrays st g ! w = old"
  shows "claims_ok ((set_word (set_thread st t (if remaining - int (length foundBits) = 0 then BIdle
        else BScan g (remaining - int (length foundBits)))) g w newVal)
      \<lparr>owned := (owned st)(t := owned st t \<union> (\<lambda>i. w * 32 + i) ` set foundBits)\<rparr>)"
proof -
  note D = claims_okD[OF ok]
  have g: "g = bitmap_cur st" and w: "w < length (words st)" "0 < remaining" using D(3)[of t] t by simp_all
  have "words st ! w = old" using old g by simp
  note fr = found_free[OF f[folded this] w]
  have r: "int (length foundBits) \<le> remaining" by (rule found_length[OF f w(2)])
  let ?A = "(\<lambda>i. w * 32 + i) ` set foundBits"
  let ?own = "(owned st)(t := owned st t \<union> ?A)"
  let ?x = "if remaining - int (length foundBits) = 0 then BIdle else BScan g (remaining - int (length foundBits))"
  have dis: "owned st t' \<inter> ?A = {}" for t' using fr D(1) by auto
  have "(\<Union>t. ?own t) = (\<Union>t. owned st t) \<union> ?A" by (auto split: if_splits)
  then have "used_bits ((words st)[w := newVal]) = (\<Union>t. ?own t)" using fr D(1) by simp
  moreover have "t1 \<noteq> t2 \<Longrightarrow> ?own t1 \<inter> ?own t2 = {}" for t1 t2 using D(2)[of t1 t2] dis by auto
  moreover have "thread_ok g ((words st)[w := newVal]) (?own t') (((threads st)(t := ?x)) t')" for t'
    using D(3)[of t'] g r by (cases "threads st t'") auto
  ultimately show ?thesis by (simp add: claims_ok_def g)
qed

lemma claims_ok_free:
  assumes ok: "claims_ok st" and t: "threads st t = BFree g a old" and old: "bitmap_arrays st g ! (a div 32) = old"
  shows "claims_ok ((set_word (set_thread st t BIdle) g (a div 32) (old AND NOT (push_bit (a mod 32) 1)))
      \<lparr>owned := (owned st)(t := owned st t - {a})\<rparr>)"
proof -
  note D = claims_okD[OF ok]
  have g: "g = bitmap_cur st" and a: "a \<in> owned st t" using D(3)[of t] t by simp_all
  then have "a \<in> used_bits (words st)" using D(1) by auto
  then have w: "a div 32 < length (words st)" by (auto simp: used_bits_def)
  let ?ws = "(words st)[a div 32 := old AND NOT (push_bit (a mod 32) 1)]" and ?own = "(owned st)(t := owned st t - {a})"
  have "used_bits ?ws = used_bits (words st) - {a}"
    using used_bits_clear[OF w, of "a mod 32"] old g by simp
  moreover have "a \<notin> owned st u" if "u \<noteq> t" for u using D(2)[of t u] that a by blast
  then have "(\<Union>t. ?own t) = (\<Union>t. owned st t) - {a}" by (auto split: if_splits; metis)
  moreover have "t1 \<noteq> t2 \<Longrightarrow> ?own t1 \<inter> ?own t2 = {}" for t1 t2 using D(2)[of t1 t2] by auto
  moreover have "thread_ok g ?ws (?own t') (((threads st)(t := BIdle)) t')" for t'
    using D(3)[of t'] g by (cases "threads st t'") auto
  ultimately show ?thesis using D(1) by (simp add: claims_ok_def g)
qed

lemma claims_ok_hand_over:
  assumes ok: "claims_ok st" and t: "threads st t = BIdle" "A \<subseteq> owned st t" "t \<noteq> t'"
  shows "claims_ok (st\<lparr>owned := (owned st)(t := owned st t - A, t' := owned st t' \<union> A)\<rparr>)"
proof -
  note D = claims_okD[OF ok]
  let ?own = "(owned st)(t := owned st t - A, t' := owned st t' \<union> A)"
  have "x \<in> (\<Union>t. ?own t)" if "x \<in> owned st u" for x u
    using that t(3) by (cases "x \<in> A"; cases "u = t") (auto intro: exI[of _ t'] exI[of _ u])
  moreover have "?own u \<subseteq> (\<Union>t. owned st t)" for u using t(2) by auto
  ultimately have "(\<Union>t. ?own t) = (\<Union>t. owned st t)" by blast
  moreover have "t1 \<noteq> t2 \<Longrightarrow> ?own t1 \<inter> ?own t2 = {}" for t1 t2
    using D(2)[of t1 t2] D(2)[of t t1] D(2)[of t t2] t(2,3) by (auto split: if_splits)
  moreover have "thread_ok (bitmap_cur st) (words st) (?own u) (threads st u)" for u
    using D(3)[of u] t(1) by (cases "threads st u") auto
  ultimately show ?thesis using D(1) by (simp add: claims_ok_def)
qed

lemma claims_ok_thread:
  "claims_ok st \<Longrightarrow> thread_ok (bitmap_cur st) (words st) (owned st t) x \<Longrightarrow> claims_ok (set_thread st t x)"
  by (auto simp: claims_ok_def)

lemma claims_ok_step: "claim_step st st' \<Longrightarrow> claims_ok st \<Longrightarrow> claims_ok st'"
proof (induction rule: claim_step.induct)
  case (claim_cas st t g w old remaining newVal foundBits)
  show ?case by (rule claims_ok_cas[OF claim_cas.prems claim_cas(1,3,5)])
next
  case (free_cas st t g a old)
  show ?case by (rule claims_ok_free[OF free_cas.prems free_cas(1,2)])
next
  case (append_chunk st)
  then show ?case using claims_okD[OF append_chunk.prems] by (simp add: claims_ok_def used_bits_zeros)
next
  case (hand_over st t A t')
  show ?case by (rule claims_ok_hand_over[OF hand_over.prems hand_over(1-3)])
qed (rule claims_ok_thread, assumption, (drule_tac t = t in claims_okD(3))?, force)+

lemma claims_ok_reach: "claim_reach st0 st \<Longrightarrow> claims_ok st0 \<Longrightarrow> claims_ok st"
  by (induction rule: claim_reach.induct) (auto intro: claims_ok_step)

subsection \<open>Properties\<close>

definition unclaimed :: "nat \<Rightarrow> bus_shared" where
  "unclaimed n = \<lparr>bitmap_arrays = \<lambda>_. replicate (32 * n) 0, bitmap_cur = 0, threads = \<lambda>_. BIdle, owned = \<lambda>_. {}\<rparr>"

lemma unclaimed_ok: "claims_ok (unclaimed n)"
  using used_bits_zeros[of "[]" "32 * n"] by (simp add: claims_ok_def unclaimed_def used_bits_def)

text \<open>C3: Two goroutines never get the same block. Whatever the interleaving of the loads and
  compare-and-swaps of any number of concurrent allocations and frees, with chunks appended (and
  the bitmap moved to a longer array) in between, the sets of blocks claimed by different goroutines are disjoint at every moment, and
  the bits set in the bitmap are exactly the claimed blocks: none is lost, none is set twice.\<close>

theorem concurrent_claims_exclusive:
  assumes "claim_reach (unclaimed n) st"
  shows "(\<forall>t t'. t \<noteq> t' \<longrightarrow> owned st t \<inter> owned st t' = {}) \<and> used_bits (words st) = (\<Union>t. owned st t)"
  using claims_ok_reach[OF assms unclaimed_ok] by (simp add: claims_ok_def)

lemma ex_claim_run:
  "\<exists>st. claim_reach (unclaimed 1) st \<and> 5 \<in> owned st 7"
proof -
  let ?s0 = "unclaimed 1"
  let ?sr = "set_thread ?s0 7 (BScan 0 6)"
  let ?s1 = "set_thread ?sr 7 (BClaim 0 0 (bitmap_arrays ?sr 0 ! 0) 6)"
  obtain nv where nv: "find_bits (NOT 0) 6 0 [] = (nv, take 6 (set_bits32 (NOT 0)))"
    using find_bits_spec[of "[]" 6 "NOT 0" 0] by auto
  have bits: "take 6 (set_bits32 (NOT 0)) = [0..<6]"
  proof -
    have "set_bits32 (NOT 0) = [0..<32]" by (simp add: set_bits32_def)
    then show ?thesis by simp
  qed
  let ?s2 = "(set_word (set_thread ?s1 7 BIdle) 0 0 nv)\<lparr>
      owned := (owned ?s1)(7 := owned ?s1 7 \<union> (\<lambda>i. 0 * 32 + i) ` set [0..<6])\<rparr>"
  have "claim_step ?s0 ?sr" using scan_rlock[of ?s0 7 6] by (simp add: unclaimed_def)
  moreover have "claim_step ?sr ?s1" using scan_load[of ?sr 7 0 6 0] by (simp add: unclaimed_def)
  moreover have "claim_step ?s1 ?s2"
    using claim_cas[of ?s1 7 0 0 0 6 nv "[0..<6]"] nv bits by (simp add: unclaimed_def)
  ultimately have "claim_reach ?s0 ?s2"
    using claim_reach.step[OF claim_reach.step[OF claim_reach.step[OF claim_reach.here]]] by blast
  moreover have "5 \<in> owned ?s2 7" by simp
  ultimately show ?thesis by blast
qed

theorem concurrent_claims_exclusive_witness:
  "\<exists>st. claim_reach (unclaimed 1) st \<and> 5 \<in> owned st 7 \<and> (\<forall>t. t \<noteq> 7 \<longrightarrow> 5 \<notin> owned st t)"
proof -
  obtain st where st: "claim_reach (unclaimed 1) st" "5 \<in> owned st 7" using ex_claim_run by blast
  with concurrent_claims_exclusive[OF st(1)] show ?thesis by blast
qed

end
