(* ===== verification/Control_Region.thy ===== *)
theory Control_Region
  imports Stripe_Spec
begin

text \<open>
  \<^verbatim>\<open>go/shm/control.go\<close>: the accessors of the control stripe, the ring queues and the registry of
  stripe slots.

  An operation runs here without interference from other threads or processes (\<open>MPSC_Queue\<close>
  treats the interleaved runs of \<open>Push\<close> and \<open>Pop\<close>). \<open>Procyield\<close>, \<open>Gosched\<close> and \<open>Sleep\<close> change no
  state. The outer \<open>option\<close> is \<open>None\<close> when the call does not return: a panic (a nil pointer
  passed to an atomic store or load), or a loop that never ends.
\<close>

subsection \<open>Accessors\<close>

record control =
  cursor :: uint32
  ctl_stripe :: stripe

definition NewControl :: "stripe \<Rightarrow> control" where
  "NewControl s = \<lparr>cursor = 0, ctl_stripe = s\<rparr>"

definition readU32 :: "mem \<Rightarrow> control \<Rightarrow> nat \<Rightarrow> uint32 option" where
  "readU32 m c offset = do {
     ptr \<leftarrow> GetPointer (ctl_stripe c) offset;
     (case ptr of None \<Rightarrow> Some 0 | Some p \<Rightarrow> Some (load32 m p))
   }"

definition writeU32 :: "mem \<Rightarrow> control \<Rightarrow> nat \<Rightarrow> uint32 \<Rightarrow> mem option" where
  "writeU32 m c offset val = do {
     ptr \<leftarrow> GetPointer (ctl_stripe c) offset;
     (case ptr of None \<Rightarrow> Some m | Some p \<Rightarrow> Some (store32 m p val))
   }"

definition casU32 :: "mem \<Rightarrow> control \<Rightarrow> nat \<Rightarrow> uint32 \<Rightarrow> uint32 \<Rightarrow> (mem \<times> bool) option" where
  "casU32 m c offset old new = do {
     ptr \<leftarrow> GetPointer (ctl_stripe c) offset;
     (case ptr of
        None \<Rightarrow> Some (m, False)
      | Some p \<Rightarrow> if load32 m p = old then Some (store32 m p new, True) else Some (m, False))
   }"

subsection \<open>Initialisation\<close>

fun init_queues :: "mem \<Rightarrow> control \<Rightarrow> nat list \<Rightarrow> mem option" where
  "init_queues m c [] = Some m"
| "init_queues m c (i # is) = do {
     let qOff = GetNodeReqQueueOffset i;
     m \<leftarrow> writeU32 m c (qOff + Q_OFF_HEAD) 0;
     m \<leftarrow> writeU32 m c (qOff + Q_OFF_TAIL) 0;
     init_queues m c is
   }"

fun init_slots :: "mem \<Rightarrow> control \<Rightarrow> nat list \<Rightarrow> mem option" where
  "init_slots m c [] = Some m"
| "init_slots m c (i # is) = do {
     m \<leftarrow> writeU32 m c (GetStripeEntryOffset (of_nat i) + STRIPE_OFF_STATUS) StripeStatusIdle;
     init_slots m c is
   }"

definition Init :: "mem \<Rightarrow> control \<Rightarrow> mem option" where
  "Init m c = do {
     m \<leftarrow> writeU32 m c (OFF_RESP_QUEUE + Q_OFF_HEAD) 0;
     m \<leftarrow> writeU32 m c (OFF_RESP_QUEUE + Q_OFF_TAIL) 0;
     m \<leftarrow> init_queues m c [0..<MaxNodes];
     init_slots m c [0..<MaxTotalSlots]
   }"

subsection \<open>Queues\<close>

definition packed_entry :: "uint32 \<Rightarrow> uint32 \<Rightarrow> uint64" where
  "packed_entry slotID cmd = push_bit 32 (ucast (cmd OR Q_READY_BIT)) OR ucast slotID"

partial_function (option) Push_loop :: "mem \<Rightarrow> control \<Rightarrow> nat \<Rightarrow> uint32 \<Rightarrow> uint32 \<Rightarrow> nat \<Rightarrow> (mem \<times> bool) option" where
  "Push_loop m c qOffset slotID cmd spin =
     Option.bind (readU32 m c (qOffset + Q_OFF_HEAD)) (\<lambda>head.
     Option.bind (readU32 m c (qOffset + Q_OFF_TAIL)) (\<lambda>tail.
       if tail - head \<ge> of_nat (QueueSize - 1) then
         (if spin < 75 then Push_loop m c qOffset slotID cmd (spin + 1) else Some (m, False))
       else
         Option.bind (casU32 m c (qOffset + Q_OFF_TAIL) tail (tail + 1)) (\<lambda>(m', ok).
           if ok then
             Option.bind (GetPointer (ctl_stripe c) (queue_entry_off qOffset (unat (tail mod of_nat QueueSize)))) (\<lambda>ptr.
               case ptr of None \<Rightarrow> None | Some p \<Rightarrow> Some (store64 m' p (packed_entry slotID cmd), True))
           else Push_loop m' c qOffset slotID cmd spin)))"

definition Push :: "mem \<Rightarrow> control \<Rightarrow> nat \<Rightarrow> uint32 \<Rightarrow> uint32 \<Rightarrow> (mem \<times> bool) option" where
  "Push m c qOffset slotID cmd = Push_loop m c qOffset slotID cmd 0"

partial_function (option) Pop_loop :: "mem \<Rightarrow> control \<Rightarrow> nat \<Rightarrow> uint32 \<Rightarrow> pointer \<Rightarrow> (mem \<times> uint32 \<times> uint32 \<times> bool) option" where
  "Pop_loop m c qOffset head ptr =
     (let packed = load64 m ptr;
          cmd = ucast (drop_bit 32 packed) :: uint32;
          slotID = ucast (packed AND 0xFFFFFFFF) :: uint32
      in if cmd AND Q_READY_BIT \<noteq> 0 then
           Option.bind (writeU32 (store64 m ptr 0) c (qOffset + Q_OFF_HEAD) (head + 1)) (\<lambda>m'.
             Some (m', slotID, cmd AND NOT Q_READY_BIT, True))
         else Pop_loop m c qOffset head ptr)"

definition Pop :: "mem \<Rightarrow> control \<Rightarrow> nat \<Rightarrow> (mem \<times> uint32 \<times> uint32 \<times> bool) option" where
  "Pop m c qOffset = do {
     head \<leftarrow> readU32 m c (qOffset + Q_OFF_HEAD);
     tail \<leftarrow> readU32 m c (qOffset + Q_OFF_TAIL);
     if head = tail then Some (m, 0, 0, False)
     else do {
       ptr \<leftarrow> GetPointer (ctl_stripe c) (queue_entry_off qOffset (unat (head mod of_nat QueueSize)));
       (case ptr of None \<Rightarrow> None | Some p \<Rightarrow> Pop_loop m c qOffset head p)
     }
   }"

subsection \<open>The registry\<close>

text \<open>\<open>start\<close> is the cursor after its increment; \<open>i\<close> counts the attempts.\<close>

function AllocSlot_loop :: "mem \<Rightarrow> control \<Rightarrow> uint32 \<Rightarrow> nat \<Rightarrow> (mem \<times> uint32 \<times> bool) option" where
  "AllocSlot_loop m c start i =
     (if i < MaxTotalSlots then do {
        let slot = (start + of_nat i - 1) mod of_nat MaxTotalSlots + 1;
        (m, ok) \<leftarrow> casU32 m c (GetStripeEntryOffset slot + STRIPE_OFF_STATUS) StripeStatusIdle StripeStatusBusy;
        if ok then Some (m, slot, True) else AllocSlot_loop m c start (Suc i)
      } else Some (m, 0, False))"
  by pat_completeness auto
termination
  by (relation "measure (\<lambda>(m, c, start, i). MaxTotalSlots - i)") auto

declare AllocSlot_loop.simps [simp del]

definition AllocSlot :: "mem \<Rightarrow> control \<Rightarrow> (mem \<times> control \<times> uint32 \<times> bool) option" where
  "AllocSlot m c = do {
     let c = c\<lparr>cursor := cursor c + 1\<rparr>;
     (m, slot, ok) \<leftarrow> AllocSlot_loop m c (cursor c) 0;
     Some (m, c, slot, ok)
   }"

definition FreeSlot :: "mem \<Rightarrow> control \<Rightarrow> uint32 \<Rightarrow> mem option" where
  "FreeSlot m c slotID = writeU32 m c (GetStripeEntryOffset slotID + STRIPE_OFF_STATUS) StripeStatusIdle"

definition SetStripe :: "mem \<Rightarrow> control \<Rightarrow> uint32 \<Rightarrow> uint32 \<Rightarrow> int16 \<Rightarrow> int16 \<Rightarrow> uint32 \<Rightarrow> mem option" where
  "SetStripe m c slotID status headerCID headerOff owner = do {
     let base = GetStripeEntryOffset slotID;
     let combinedHeader = push_bit 16 (ucast headerCID) OR ucast headerOff;
     m \<leftarrow> writeU32 m c (base + STRIPE_OFF_HEADER) combinedHeader;
     m \<leftarrow> writeU32 m c (base + STRIPE_OFF_OWNER) owner;
     writeU32 m c (base + STRIPE_OFF_STATUS) status
   }"

definition GetStripeStatus :: "mem \<Rightarrow> control \<Rightarrow> uint32 \<Rightarrow> uint32 option" where
  "GetStripeStatus m c slotID = readU32 m c (GetStripeEntryOffset slotID + STRIPE_OFF_STATUS)"

definition GetStripeHeader :: "mem \<Rightarrow> control \<Rightarrow> uint32 \<Rightarrow> (int16 \<times> int16) option" where
  "GetStripeHeader m c slotID = do {
     val \<leftarrow> readU32 m c (GetStripeEntryOffset slotID + STRIPE_OFF_HEADER);
     Some (ucast (drop_bit 16 val), ucast (val AND 0xFFFF))
   }"

definition GetStripeOwner :: "mem \<Rightarrow> control \<Rightarrow> uint32 \<Rightarrow> uint32 option" where
  "GetStripeOwner m c slotID = readU32 m c (GetStripeEntryOffset slotID + STRIPE_OFF_OWNER)"

definition SetStripeStatus :: "mem \<Rightarrow> control \<Rightarrow> uint32 \<Rightarrow> uint32 \<Rightarrow> mem option" where
  "SetStripeStatus m c slotID status = writeU32 m c (GetStripeEntryOffset slotID + STRIPE_OFF_STATUS) status"

subsection \<open>The words of the region\<close>

text \<open>A control stripe: aligned distinct blocks covering the one-megabyte region.\<close>

definition ctl_ok :: "control \<Rightarrow> bool" where
  "ctl_ok c \<longleftrightarrow> blocks_wf (Blocks (ctl_stripe c)) \<and> ControlStripeSize \<le> span (Blocks (ctl_stripe c))"

definition fptr :: "control \<Rightarrow> ctl_field \<Rightarrow> pointer" where
  "fptr c f = slice_ptr (Blocks (ctl_stripe c) ! (field_off f div BlockSize)) (field_off f mod BlockSize)"

definition fget :: "control \<Rightarrow> mem \<Rightarrow> ctl_field \<Rightarrow> nat" where
  "fget c m f = le_val (mem_read m (fst (fptr c f)) (snd (fptr c f)) (field_width f))"

definition fput :: "control \<Rightarrow> mem \<Rightarrow> ctl_field \<Rightarrow> nat \<Rightarrow> mem" where
  "fput c m f v = mem_write m (fst (fptr c f)) (snd (fptr c f)) (le_bytes (field_width f) v)"

definition field_max :: "ctl_field \<Rightarrow> nat" where
  "field_max f = 256 ^ field_width f"

lemma ctl_block: "ctl_ok c \<Longrightarrow> field_valid f \<Longrightarrow> field_off f div BlockSize < length (Blocks (ctl_stripe c))"
proof (rule span_div)
  assume "ctl_ok c" "field_valid f"
  then show "field_off f < span (Blocks (ctl_stripe c))"
    using field_off_bounds[of f] by (cases f) (auto simp: ctl_ok_def)
qed

lemma GetPointer_field: "ctl_ok c \<Longrightarrow> field_valid f \<Longrightarrow> GetPointer (ctl_stripe c) (field_off f) = Some (Some (fptr c f))"
  using ctl_block[of c f] blocks_wf_nth[of "Blocks (ctl_stripe c)" "field_off f div BlockSize"]
  by (simp add: GetPointer_def Let_def fptr_def ctl_ok_def BlockSize_def)

lemma fptr_apart:
  assumes c: "ctl_ok c" and f: "field_valid f" and g: "field_valid g" and ne: "f \<noteq> g"
  shows "apart (fptr c f) (field_width f) (fptr c g) (field_width g)"
proof -
  let ?i = "field_off f div BlockSize" and ?j = "field_off g div BlockSize" and ?b = "Blocks (ctl_stripe c)"
  have wf: "blocks_wf ?b" using c by (simp add: ctl_ok_def)
  have in_f: "field_off f mod BlockSize + field_width f \<le> BlockSize" by (rule field_in_block)
  have in_g: "field_off g mod BlockSize + field_width g \<le> BlockSize" by (rule field_in_block)
  show ?thesis
  proof (cases "?i = ?j")
    case True
    have "field_off f = BlockSize * ?i + field_off f mod BlockSize" "field_off g = BlockSize * ?i + field_off g mod BlockSize"
      by (simp, simp add: True)
    with fields_disjoint[OF f g ne]
    have "field_off f mod BlockSize + field_width f \<le> field_off g mod BlockSize
      \<or> field_off g mod BlockSize + field_width g \<le> field_off f mod BlockSize" by linarith
    then show ?thesis by (auto simp: apart_def fptr_def True)
  next
    case False
    from blocks_wf_apart[OF wf ctl_block[OF c f] ctl_block[OF c g] False] in_f in_g show ?thesis
      by (auto simp: apart_def fptr_def)
  qed
qed

lemma fget_fput:
  assumes "ctl_ok c" "field_valid f" "field_valid g"
  shows "fget c (fput c m f v) g = (if f = g then v mod field_max f else fget c m g)"
proof (cases "f = g")
  case True
  then show ?thesis by (simp add: fget_def fput_def mem_read_write_same le_val_le_bytes field_max_def)
next
  case False
  have "mem_read (fput c m f v) (fst (fptr c g)) (snd (fptr c g)) (field_width g) = mem_read m (fst (fptr c g)) (snd (fptr c g)) (field_width g)"
    unfolding fput_def using fptr_apart[OF assms False] by (intro mem_read_write_disj) (auto simp: apart_def)
  with False show ?thesis by (simp add: fget_def)
qed

lemma fget_less: "fget c m f < field_max f"
  using le_val_less[of "mem_read m (fst (fptr c f)) (snd (fptr c f)) (field_width f)"] by (simp add: fget_def field_max_def)

lemma load32_fget: "field_width f = 4 \<Longrightarrow> load32 m (fptr c f) = of_nat (fget c m f)"
  and load64_fget: "field_width f = 8 \<Longrightarrow> load64 m (fptr c f) = of_nat (fget c m f)"
  and store32_fput: "field_width f = 4 \<Longrightarrow> store32 m (fptr c f) w = fput c m f (unat w)"
  and store64_fput: "field_width f = 8 \<Longrightarrow> store64 m (fptr c f) w64 = fput c m f (unat w64)"
  by (simp_all add: load32_def load64_def store32_def store64_def fget_def fput_def)

lemma read_field: "ctl_ok c \<Longrightarrow> field_valid f \<Longrightarrow> field_width f = 4 \<Longrightarrow> readU32 m c (field_off f) = Some (of_nat (fget c m f))"
  by (simp add: readU32_def GetPointer_field load32_fget)

lemma write_field: "ctl_ok c \<Longrightarrow> field_valid f \<Longrightarrow> field_width f = 4 \<Longrightarrow> writeU32 m c (field_off f) v = Some (fput c m f (unat v))"
  by (simp add: writeU32_def GetPointer_field store32_fput)

lemma cas_field: "ctl_ok c \<Longrightarrow> field_valid f \<Longrightarrow> field_width f = 4 \<Longrightarrow>
  casU32 m c (field_off f) old new = Some (if of_nat (fget c m f) = old then (fput c m f (unat new), True) else (m, False))"
  by (simp add: casU32_def GetPointer_field load32_fget store32_fput)

text \<open>Only the blocks of the control stripe matter, not the cursor of the process; and only they change.\<close>

lemma ctl_cong:
  assumes "Blocks (ctl_stripe c') = Blocks (ctl_stripe c)"
  shows "ctl_ok c' = ctl_ok c" "fget c' = fget c" "fput c' = fput c" "GetPointer (ctl_stripe c') = GetPointer (ctl_stripe c)"
  using assms by (simp_all add: ctl_ok_def fget_def fput_def fptr_def GetPointer_def fun_eq_iff Let_def)

lemma fput_elsewhere:
  assumes "ctl_ok c" "field_valid f"
  shows "same_elsewhere m (fput c m f v) (ctl_stripe c)"
  unfolding same_elsewhere_def
proof (intro allI impI)
  fix r i
  let ?k = "field_off f div BlockSize" and ?b = "Blocks (ctl_stripe c)"
  assume nc: "\<not> covers ?b r i"
  have k: "?k < length ?b" by (rule ctl_block[OF assms])
  have "sl_len (?b ! ?k) = BlockSize" using blocks_wf_nth[OF _ k] assms(1) by (simp add: ctl_ok_def)
  then have "\<not> (sl_region (?b ! ?k) = r \<and> sl_off (?b ! ?k) \<le> i \<and> i < sl_off (?b ! ?k) + BlockSize)"
    using nc k unfolding covers_def list_ex_length by auto
  then show "fput c m f v r i = m r i"
    using field_in_block[of f] unfolding fput_def fptr_def by (intro mem_write_other) auto
qed

lemma same_elsewhere_refl [simp]: "same_elsewhere m m s"
  by (simp add: same_elsewhere_def)

lemma same_elsewhere_trans: "same_elsewhere m m1 s \<Longrightarrow> same_elsewhere m1 m2 s \<Longrightarrow> same_elsewhere m m2 s"
  by (simp add: same_elsewhere_def)

end
