(* ===== verification/Control_Spec.thy ===== *)
theory Control_Spec
  imports Control_Region
begin

text \<open>
  What the control region of \<^verbatim>\<open>go/shm/control.go\<close> promises, over the abstract view of it as a
  store of words (\<open>word_store\<close>): its queues are bounded first-in-first-out queues, as long as the
  32-bit counters do not wrap, and its registry hands out idle slots.
\<close>

subsection \<open>A store of words\<close>

locale word_store =
  fixes sane :: "'m \<Rightarrow> bool"
    and get :: "'m \<Rightarrow> ctl_field \<Rightarrow> nat"
    and put :: "'m \<Rightarrow> ctl_field \<Rightarrow> nat \<Rightarrow> 'm"
  assumes sane_put: "sane m \<Longrightarrow> sane (put m f v)"
    and get_put: "sane m \<Longrightarrow> field_valid f \<Longrightarrow> field_valid g \<Longrightarrow> get (put m f v) g = (if f = g then v mod field_max f else get m g)"
    and get_less: "get m f < field_max f"

text \<open>An entry as \<open>Pop\<close> reads it: slot, and command without the ready bit.\<close>

definition entry_ready :: "nat \<Rightarrow> bool" where
  "entry_ready v \<longleftrightarrow> (ucast (drop_bit 32 (of_nat v :: uint64)) :: uint32) AND Q_READY_BIT \<noteq> 0"

definition entry_item :: "nat \<Rightarrow> uint32 \<times> uint32" where
  "entry_item v = (ucast ((of_nat v :: uint64) AND 0xFFFFFFFF), ucast (drop_bit 32 (of_nat v :: uint64)) AND NOT Q_READY_BIT)"

text \<open>The live entries of queue \<open>q\<close> and the invariant of a queue whose counters have not wrapped.\<close>

definition q_items :: "('m \<Rightarrow> ctl_field \<Rightarrow> nat) \<Rightarrow> 'm \<Rightarrow> nat \<Rightarrow> (uint32 \<times> uint32) list" where
  "q_items get m q = map (\<lambda>i. entry_item (get m (QEntry q (i mod QueueSize)))) [get m (QHead q)..<get m (QTail q)]"

definition q_inv :: "('m \<Rightarrow> ctl_field \<Rightarrow> nat) \<Rightarrow> 'm \<Rightarrow> nat \<Rightarrow> bool" where
  "q_inv get m q \<longleftrightarrow> get m (QHead q) \<le> get m (QTail q) \<and> get m (QTail q) - get m (QHead q) \<le> QueueSize - 1
     \<and> (\<forall>i. get m (QHead q) \<le> i \<longrightarrow> i < get m (QTail q) \<longrightarrow> entry_ready (get m (QEntry q (i mod QueueSize))))"

lemma length_q_items [simp]: "length (q_items get m q) = get m (QTail q) - get m (QHead q)"
  by (simp add: q_items_def)

lemma ring_distinct: "i < j \<Longrightarrow> j - i < n \<Longrightarrow> i mod n \<noteq> j mod (n :: nat)"
proof
  assume a: "i < j" "j - i < n" "i mod n = j mod n"
  then have "n dvd j - i" by (metis less_imp_le mod_eq_dvd_iff_nat)
  with a show False by (simp add: nat_dvd_not_less)
qed

lemma field_max_simps [simp]: "field_max (QHead q) = 4294967296" "field_max (QTail q) = 4294967296"
  "field_max (SlotStatus s) = 4294967296" "field_max (SlotHeader s) = 4294967296" "field_max (SlotOwner s) = 4294967296"
  "field_max (QEntry q i) = 18446744073709551616"
  by (simp_all add: field_max_def)

context word_store
begin

lemma counter_less: "get m (QHead q) < 4294967296" "get m (QTail q) < 4294967296"
  using get_less[of m "QHead q"] get_less[of m "QTail q"] by simp_all

text \<open>Writing an entry at the tail and advancing the tail appends to the queue.\<close>

lemma push_words:
  assumes sn: "sane m" and q: "q < MaxNodes" and inv: "q_inv get m q" and room: "get m (QTail q) - get m (QHead q) < QueueSize - 1"
    and nowrap: "Suc (get m (QTail q)) < 4294967296" and v: "v < field_max (QEntry q 0)" "entry_ready v"
  defines "m' \<equiv> put (put m (QTail q) (Suc (get m (QTail q)))) (QEntry q (get m (QTail q) mod QueueSize)) v"
  shows "q_inv get m' q" "q_items get m' q = q_items get m q @ [entry_item v]"
    "get m' (QTail q) = Suc (get m (QTail q))" "get m' (QHead q) = get m (QHead q)"
    "\<And>f. field_valid f \<Longrightarrow> f \<noteq> QTail q \<Longrightarrow> (\<forall>i. f \<noteq> QEntry q i) \<Longrightarrow> get m' f = get m f"
proof -
  let ?h = "get m (QHead q)" and ?t = "get m (QTail q)"
  have t: "?t mod QueueSize < QueueSize" by (simp add: QueueSize_def)
  have w: "get m' f = (if f = QEntry q (?t mod QueueSize) then v else if f = QTail q then Suc ?t else get m f)"
    if "field_valid f" for f
    using that q t nowrap v(1) sn by (auto simp: m'_def get_put sane_put)
  show f: "get m' (QTail q) = Suc ?t" "get m' (QHead q) = ?h" using q by (simp_all add: w)
  show "get m' f = get m f" if "field_valid f" "f \<noteq> QTail q" "\<forall>i. f \<noteq> QEntry q i" for f
    using that by (simp add: w)
  have ht: "?h \<le> ?t" using inv by (simp add: q_inv_def)
  have ent: "get m' (QEntry q (i mod QueueSize)) = (if i = ?t then v else get m (QEntry q (i mod QueueSize)))"
    if "?h \<le> i" "i \<le> ?t" for i
  proof -
    have "i mod QueueSize < QueueSize" by (simp add: QueueSize_def)
    moreover have "i mod QueueSize = ?t mod QueueSize \<longleftrightarrow> i = ?t"
      using ring_distinct[of i ?t QueueSize] that room by (cases "i = ?t") (auto simp: QueueSize_def)
    ultimately show ?thesis using q by (simp add: w)
  qed
  have "[?h..<Suc ?t] = [?h..<?t] @ [?t]" using ht by simp
  then show "q_items get m' q = q_items get m q @ [entry_item v]"
    using ht by (simp add: q_items_def f ent)
  show "q_inv get m' q"
    using inv room ent v(2) ht by (auto simp: q_inv_def f less_Suc_eq)
qed

text \<open>Clearing the entry at the head and advancing the head removes the first item.\<close>

lemma pop_words:
  assumes sn: "sane m" and q: "q < MaxNodes" and inv: "q_inv get m q" and ne: "get m (QHead q) \<noteq> get m (QTail q)"
  defines "v \<equiv> get m (QEntry q (get m (QHead q) mod QueueSize))"
  defines "m' \<equiv> put (put m (QEntry q (get m (QHead q) mod QueueSize)) 0) (QHead q) (Suc (get m (QHead q)))"
  shows "q_inv get m' q" "q_items get m q = entry_item v # q_items get m' q" "entry_ready v"
    "get m' (QTail q) = get m (QTail q)" "get m' (QHead q) = Suc (get m (QHead q))"
    "\<And>f. field_valid f \<Longrightarrow> f \<noteq> QHead q \<Longrightarrow> (\<forall>i. f \<noteq> QEntry q i) \<Longrightarrow> get m' f = get m f"
proof -
  let ?h = "get m (QHead q)" and ?t = "get m (QTail q)"
  have ht: "?h < ?t" using inv ne by (simp add: q_inv_def)
  have h: "?h mod QueueSize < QueueSize" by (simp add: QueueSize_def)
  have nowrap: "Suc ?h < 4294967296" using ht counter_less(2)[of m q] by linarith
  have w: "get m' f = (if f = QHead q then Suc ?h else if f = QEntry q (?h mod QueueSize) then 0 else get m f)"
    if "field_valid f" for f
    using that q h nowrap sn by (auto simp: m'_def get_put sane_put)
  show f: "get m' (QTail q) = ?t" "get m' (QHead q) = Suc ?h" using q by (simp_all add: w)
  show "get m' f = get m f" if "field_valid f" "f \<noteq> QHead q" "\<forall>i. f \<noteq> QEntry q i" for f
    using that by (simp add: w)
  have ent: "get m' (QEntry q (i mod QueueSize)) = get m (QEntry q (i mod QueueSize))" if "?h < i" "i < ?t" for i
  proof -
    have "i mod QueueSize < QueueSize" by (simp add: QueueSize_def)
    moreover have "?h mod QueueSize \<noteq> i mod QueueSize"
      using that inv by (intro ring_distinct) (auto simp: q_inv_def QueueSize_def)
    ultimately show ?thesis using q by (simp add: w)
  qed
  have "[?h..<?t] = ?h # [Suc ?h..<?t]" using ht by (simp add: upt_conv_Cons)
  then show "q_items get m q = entry_item v # q_items get m' q"
    by (simp add: q_items_def f ent v_def)
  show "entry_ready v" using inv ht by (simp add: q_inv_def v_def)
  show "q_inv get m' q" using inv ent ht by (auto simp: q_inv_def f)
qed

end

interpretation ws: word_store "\<lambda>m. ctl_ok c" "fget c" "fput c" for c
  by unfold_locales (simp_all add: fget_fput fget_less)

subsection \<open>Entries\<close>

lemma packed_entry_parts:
  "ucast (packed_entry slotID cmd AND 0xFFFFFFFF) = slotID"
  "ucast (drop_bit 32 (packed_entry slotID cmd)) = cmd OR Q_READY_BIT"
proof -
  have m: "(0xFFFFFFFF :: uint64) = mask 32" by (simp add: mask_eq_exp_minus_1)
  show "ucast (packed_entry slotID cmd AND 0xFFFFFFFF) = slotID"
    unfolding m packed_entry_def by (rule bit_word_eqI) (simp add: bit_simps)
  show "ucast (drop_bit 32 (packed_entry slotID cmd)) = cmd OR Q_READY_BIT"
    unfolding packed_entry_def by (rule bit_word_eqI) (auto simp: bit_simps dest: bit_imp_le_length)
qed

lemma Q_READY_BIT_nonzero [simp]: "Q_READY_BIT \<noteq> 0"
  by (simp add: Q_READY_BIT_def)

lemma ready_and: "(cmd OR Q_READY_BIT) AND Q_READY_BIT \<noteq> 0" "(cmd OR Q_READY_BIT) AND NOT Q_READY_BIT = cmd AND NOT Q_READY_BIT"
proof -
  have "(cmd OR Q_READY_BIT) AND Q_READY_BIT = Q_READY_BIT" by (rule bit_word_eqI) (auto simp: bit_simps)
  then show "(cmd OR Q_READY_BIT) AND Q_READY_BIT \<noteq> 0" by (simp add: Q_READY_BIT_def)
  show "(cmd OR Q_READY_BIT) AND NOT Q_READY_BIT = cmd AND NOT Q_READY_BIT" by (rule bit_word_eqI) (auto simp: bit_simps)
qed

lemma entry_packed:
  "entry_item (unat (packed_entry slotID cmd)) = (slotID, cmd AND NOT Q_READY_BIT)"
  "entry_ready (unat (packed_entry slotID cmd))"
  "unat (packed_entry slotID cmd) < field_max (QEntry q i)"
  using unsigned_less[of "packed_entry slotID cmd"]
  by (simp_all add: entry_item_def entry_ready_def packed_entry_parts ready_and)

subsection \<open>Push and Pop on a queue\<close>

lemma queue_offs:
  "GetNodeReqQueueOffset q + Q_OFF_HEAD = field_off (QHead q)" "GetNodeReqQueueOffset q + Q_OFF_TAIL = field_off (QTail q)"
  "queue_entry_off (GetNodeReqQueueOffset q) i = field_off (QEntry q i)"
  by simp_all

lemma of_nat_index: "t < 4294967296 \<Longrightarrow> unat ((of_nat t :: uint32) mod of_nat QueueSize) = t mod QueueSize"
  by (simp add: unat_mod unat_of_nat QueueSize_def)

lemma of_nat_used:
  assumes "h \<le> t" "t < 4294967296"
  shows "of_nat (QueueSize - 1) \<le> (of_nat t - of_nat h :: uint32) \<longleftrightarrow> QueueSize - 1 \<le> t - h"
proof -
  have "(of_nat t - of_nat h :: uint32) = of_nat (t - h)" using assms(1) by (simp add: of_nat_diff)
  moreover have "unat (of_nat (t - h) :: uint32) = t - h" using assms by (simp add: unat_of_nat del: of_nat_diff)
  moreover have "unat (of_nat (QueueSize - 1) :: uint32) = QueueSize - 1" by (simp add: QueueSize_def)
  ultimately show ?thesis by (simp add: word_le_nat_alt del: of_nat_diff)
qed


lemma unat_of_nat32: "n < 4294967296 \<Longrightarrow> unat (of_nat n :: uint32) = n"
  by (simp add: unat_of_nat)

lemma of_nat_succ:
  assumes "Suc t < 4294967296"
  shows "unat (of_nat t + 1 :: uint32) = Suc t"
proof -
  have "(of_nat t + 1 :: uint32) = of_nat (Suc t)" by simp
  moreover have "unat (of_nat (Suc t) :: uint32) = Suc t" using assms by (rule unat_of_nat32)
  ultimately show ?thesis by (simp only:)
qed

lemma Push_loop_room:
  assumes c: "ctl_ok c" "q < MaxNodes" and inv: "q_inv (fget c) m q"
    and room: "fget c m (QTail q) - fget c m (QHead q) < QueueSize - 1" and nowrap: "Suc (fget c m (QTail q)) < 4294967296"
  shows "Push_loop m c (GetNodeReqQueueOffset q) slotID cmd spin =
    Some (fput c (fput c m (QTail q) (Suc (fget c m (QTail q)))) (QEntry q (fget c m (QTail q) mod QueueSize))
      (unat (packed_entry slotID cmd)), True)"
proof -
  let ?h = "fget c m (QHead q)" and ?t = "fget c m (QTail q)"
  have ht: "?h \<le> ?t" using inv by (simp add: q_inv_def)
  have tl: "?t < 4294967296" using nowrap by simp
  have t1: "unat (of_nat ?t + 1 :: uint32) = Suc ?t" by (rule of_nat_succ[OF nowrap])
  have e: "field_valid (QEntry q (?t mod QueueSize))" using c(2) by (simp add: QueueSize_def)
  have idx: "unat ((of_nat ?t :: uint32) mod of_nat QueueSize) = ?t mod QueueSize" by (rule of_nat_index[OF tl])
  have rd: "readU32 m c (field_off (QHead q)) = Some (of_nat ?h)" "readU32 m c (field_off (QTail q)) = Some (of_nat ?t)"
    using c by (simp_all add: read_field del: field_off.simps)
  have cas: "casU32 m c (field_off (QTail q)) (of_nat ?t) (of_nat ?t + 1) = Some (fput c m (QTail q) (Suc ?t), True)"
    using c t1 by (simp add: cas_field del: field_off.simps)
  have ptr: "GetPointer (ctl_stripe c) (field_off (QEntry q (?t mod QueueSize))) = Some (Some (fptr c (QEntry q (?t mod QueueSize))))"
    by (rule GetPointer_field[OF c(1) e])
  have full: "\<not> of_nat (QueueSize - 1) \<le> (of_nat ?t - of_nat ?h :: uint32)" using of_nat_used[OF ht tl] room by simp
  have st: "store64 m' (fptr c (QEntry q i)) w = fput c m' (QEntry q i) (unat w)" for m' i w by (simp add: store64_fput)
  show ?thesis
    by (subst Push_loop.simps) (simp only: queue_offs rd Option.bind.simps full if_False cas prod.case
      if_True idx ptr option.case st)
qed

lemma Push_loop_full:
  assumes c: "ctl_ok c" "q < MaxNodes" and inv: "q_inv (fget c) m q"
    and full: "QueueSize - 1 \<le> fget c m (QTail q) - fget c m (QHead q)"
  shows "Push_loop m c (GetNodeReqQueueOffset q) slotID cmd spin = Some (m, False)"
proof (induction "75 - spin" arbitrary: spin)
  case (0 spin)
  let ?h = "fget c m (QHead q)" and ?t = "fget c m (QTail q)"
  have ht: "?h \<le> ?t" using inv by (simp add: q_inv_def)
  have rd: "readU32 m c (field_off (QHead q)) = Some (of_nat ?h)" "readU32 m c (field_off (QTail q)) = Some (of_nat ?t)"
    using c by (simp_all add: read_field del: field_off.simps)
  have f: "of_nat (QueueSize - 1) \<le> (of_nat ?t - of_nat ?h :: uint32)"
    using of_nat_used[OF ht] fget_less[of c m "QTail q"] full by simp
  have "\<not> spin < 75" using 0 by simp
  then show ?case
    by (subst Push_loop.simps) (simp only: queue_offs rd Option.bind.simps f if_True if_False)
next
  case (Suc n spin)
  let ?h = "fget c m (QHead q)" and ?t = "fget c m (QTail q)"
  have ht: "?h \<le> ?t" using inv by (simp add: q_inv_def)
  have rd: "readU32 m c (field_off (QHead q)) = Some (of_nat ?h)" "readU32 m c (field_off (QTail q)) = Some (of_nat ?t)"
    using c by (simp_all add: read_field del: field_off.simps)
  have f: "of_nat (QueueSize - 1) \<le> (of_nat ?t - of_nat ?h :: uint32)"
    using of_nat_used[OF ht] fget_less[of c m "QTail q"] full by simp
  have "Push_loop m c (GetNodeReqQueueOffset q) slotID cmd (spin + 1) = Some (m, False)" using Suc by simp
  moreover have "spin < 75" using Suc(2) by simp
  ultimately show ?case
    by (subst Push_loop.simps) (simp only: queue_offs rd Option.bind.simps f if_True)
qed

text \<open>A queue keeps the rest of the control region: the fields other than its own counters and entries.\<close>

definition queue_field :: "nat \<Rightarrow> ctl_field \<Rightarrow> bool" where
  "queue_field q f \<longleftrightarrow> f = QHead q \<or> f = QTail q \<or> (\<exists>i. f = QEntry q i)"

lemma Push_spec:
  assumes c: "ctl_ok c" "q < MaxNodes" and inv: "q_inv (fget c) m q" and nowrap: "Suc (fget c m (QTail q)) < 4294967296"
  obtains m' where "Push m c (GetNodeReqQueueOffset q) slotID cmd = Some (m', length (q_items (fget c) m q) < QueueSize - 1)"
    "q_inv (fget c) m' q"
    "q_items (fget c) m' q = (if length (q_items (fget c) m q) < QueueSize - 1
       then q_items (fget c) m q @ [(slotID, cmd AND NOT Q_READY_BIT)] else q_items (fget c) m q)"
    "fget c m' (QTail q) \<le> Suc (fget c m (QTail q))"
    "\<forall>f. field_valid f \<longrightarrow> \<not> queue_field q f \<longrightarrow> fget c m' f = fget c m f"
    "same_elsewhere m m' (ctl_stripe c)"
proof (cases "fget c m (QTail q) - fget c m (QHead q) < QueueSize - 1")
  case True
  have "field_valid (QTail q)" "field_valid (QEntry q (fget c m (QTail q) mod QueueSize))" using c(2) by (simp_all add: QueueSize_def)
  note fr = same_elsewhere_trans[OF fput_elsewhere[OF c(1) this(1)] fput_elsewhere[OF c(1) this(2)]]
  note pw = ws.push_words[OF c inv True nowrap entry_packed(3,2)[of slotID cmd]]
  from Push_loop_room[OF c inv True nowrap, of slotID cmd 0] show ?thesis
    by (intro that[of "fput c (fput c m (QTail q) (Suc (fget c m (QTail q)))) (QEntry q (fget c m (QTail q) mod QueueSize))
      (unat (packed_entry slotID cmd))"])
      (use True pw fr in \<open>auto simp: Push_def queue_field_def entry_packed(1)\<close>)
next
  case False
  with Push_loop_full[OF c inv, of slotID cmd 0] inv show ?thesis by (intro that[of m]) (simp_all add: Push_def)
qed

lemma Pop_spec:
  assumes c: "ctl_ok c" "q < MaxNodes" and inv: "q_inv (fget c) m q"
  obtains (empty) "q_items (fget c) m q = []" "Pop m c (GetNodeReqQueueOffset q) = Some (m, 0, 0, False)"
  | (item) slotID cmd items m' where "q_items (fget c) m q = (slotID, cmd) # items"
    "Pop m c (GetNodeReqQueueOffset q) = Some (m', slotID, cmd, True)"
    "q_inv (fget c) m' q" "q_items (fget c) m' q = items" "fget c m' (QTail q) = fget c m (QTail q)"
    "\<forall>f. field_valid f \<longrightarrow> \<not> queue_field q f \<longrightarrow> fget c m' f = fget c m f"
    "same_elsewhere m m' (ctl_stripe c)"
proof -
  let ?h = "fget c m (QHead q)" and ?t = "fget c m (QTail q)"
  have rd: "readU32 m c (field_off (QHead q)) = Some (of_nat ?h)" "readU32 m c (field_off (QTail q)) = Some (of_nat ?t)"
    using c by (simp_all add: read_field del: field_off.simps)
  have lt: "?h < 4294967296" "?t < 4294967296" using fget_less[of c m "QHead q"] fget_less[of c m "QTail q"] by simp_all
  have eq: "(of_nat ?h :: uint32) = of_nat ?t \<longleftrightarrow> ?h = ?t"
    by (metis unat_of_nat32 lt)
  show ?thesis
  proof (cases "?h = ?t")
    case True
    then have "q_items (fget c) m q = []" by (simp add: q_items_def)
    then show ?thesis using empty True rd unfolding Pop_def queue_offs by simp
  next
    case False
    let ?f = "QEntry q (?h mod QueueSize)"
    let ?m = "fput c (fput c m ?f 0) (QHead q) (Suc ?h)" and ?v = "fget c m ?f"
    note pw = ws.pop_words[OF c inv False]
    have e: "field_valid ?f" using c(2) by (simp add: QueueSize_def)
    have "field_valid (QHead q)" using c(2) by simp
    note fr = same_elsewhere_trans[OF fput_elsewhere[OF c(1) e] fput_elsewhere[OF c(1) this]]
    have "?h < ?t" using False inv by (simp add: q_inv_def)
    then have s: "unat (of_nat ?h + 1 :: uint32) = Suc ?h" using lt by (intro of_nat_succ) simp
    have wr: "writeU32 m1 c (field_off (QHead q)) (of_nat ?h + 1) = Some (fput c m1 (QHead q) (Suc ?h))" for m1
      using c s by (simp add: write_field del: field_off.simps)
    have "Pop m c (GetNodeReqQueueOffset q) = Pop_loop m c (GetNodeReqQueueOffset q) (of_nat ?h) (fptr c ?f)"
      using False rd eq GetPointer_field[OF c(1) e] of_nat_index[OF lt(1)] unfolding Pop_def queue_offs by simp
    also have "\<dots> = Some (?m, fst (entry_item ?v), snd (entry_item ?v), True)"
      using pw(3) wr
      by (subst Pop_loop.simps) (simp add: queue_offs entry_ready_def entry_item_def load64_fget store64_fput Let_def del: field_off.simps)
    finally show ?thesis
      using pw fr by (intro item[of "fst (entry_item ?v)" "snd (entry_item ?v)" "q_items (fget c) ?m q" ?m])
        (auto simp: queue_field_def)
  qed
qed

end
