(* ===== verification/Control_Theorems.thy ===== *)
theory Control_Theorems
  imports Control_Spec
begin

text \<open>
  The properties of the control region (\<^verbatim>\<open>go/shm/control.go\<close>): its queues as bounded
  first-in-first-out queues, the registry of slots, and the initialisation.
\<close>

subsection \<open>The contract of a bounded queue\<close>

text \<open>The calls a queue gets, in any order, and their results. The specification is a list of at most \<open>cap\<close>
  items: a push appends the item or is refused when the list is full, a pop takes the first item
  or reports that there is none. \<open>norm\<close> is what the queue keeps of an item.\<close>

datatype 'a queue_op = QPush 'a | QPop

datatype 'a queue_result = Pushed bool | Popped "'a option"

fun fifo_run :: "nat \<Rightarrow> ('a \<Rightarrow> 'a) \<Rightarrow> 'a list \<Rightarrow> 'a queue_op list \<Rightarrow> 'a list \<times> 'a queue_result list" where
  "fifo_run cap norm xs [] = (xs, [])"
| "fifo_run cap norm xs (QPush x # ops) =
     (case fifo_run cap norm (if length xs < cap then xs @ [norm x] else xs) ops of (ys, rs) \<Rightarrow> (ys, Pushed (length xs < cap) # rs))"
| "fifo_run cap norm xs (QPop # ops) =
     (case fifo_run cap norm (tl xs) ops of (ys, rs) \<Rightarrow> (ys, Popped (if xs = [] then None else Some (hd xs)) # rs))"

text \<open>The same calls on an implementation, where a call may fail to return (\<open>None\<close>).\<close>

fun queue_run :: "('s \<Rightarrow> 'a \<Rightarrow> ('s \<times> bool) option) \<Rightarrow> ('s \<Rightarrow> ('s \<times> 'a option) option) \<Rightarrow> 's \<Rightarrow> 'a queue_op list \<Rightarrow>
    ('s \<times> 'a queue_result list) option" where
  "queue_run push pop s [] = Some (s, [])"
| "queue_run push pop s (QPush x # ops) = do {
     (s, ok) \<leftarrow> push s x;
     (s, rs) \<leftarrow> queue_run push pop s ops;
     Some (s, Pushed ok # rs)
   }"
| "queue_run push pop s (QPop # ops) = do {
     (s, x) \<leftarrow> pop s;
     (s, rs) \<leftarrow> queue_run push pop s ops;
     Some (s, Popped x # rs)
   }"

definition pushes :: "'a queue_op list \<Rightarrow> nat" where
  "pushes ops = length (filter (\<lambda>p. p \<noteq> QPop) ops)"

text \<open>\<open>budget\<close> bounds the number of pushes the counters still allow.\<close>

locale bounded_fifo =
  fixes inv :: "'s \<Rightarrow> bool"
    and items :: "'s \<Rightarrow> 'a list"
    and cap :: nat
    and budget :: "'s \<Rightarrow> nat"
    and norm :: "'a \<Rightarrow> 'a"
    and push :: "'s \<Rightarrow> 'a \<Rightarrow> ('s \<times> bool) option"
    and pop :: "'s \<Rightarrow> ('s \<times> 'a option) option"
  assumes push_law: "inv s \<Longrightarrow> 0 < budget s \<Longrightarrow> \<exists>s'. push s x = Some (s', length (items s) < cap) \<and> inv s'
      \<and> items s' = (if length (items s) < cap then items s @ [norm x] else items s) \<and> budget s - 1 \<le> budget s'"
    and pop_law: "inv s \<Longrightarrow> \<exists>s'. inv s' \<and> budget s' = budget s
      \<and> pop s = Some (s', if items s = [] then None else Some (hd (items s))) \<and> items s' = tl (items s)"
begin

lemma run_refines:
  "inv s \<Longrightarrow> pushes ops \<le> budget s \<Longrightarrow> fifo_run cap norm (items s) ops = (ys, rs) \<Longrightarrow>
   \<exists>s'. queue_run push pop s ops = Some (s', rs) \<and> inv s' \<and> items s' = ys"
proof (induction ops arbitrary: s ys rs)
  case (Cons p ops)
  show ?case
  proof (cases p)
    case (QPush x)
    then have "0 < budget s" using Cons.prems(2) by (simp add: pushes_def)
    with push_law[OF Cons.prems(1) this, of x] obtain s1 where s1: "push s x = Some (s1, length (items s) < cap)" "inv s1"
      "items s1 = (if length (items s) < cap then items s @ [norm x] else items s)" "budget s - 1 \<le> budget s1" by auto
    obtain rs' where rs': "fifo_run cap norm (items s1) ops = (ys, rs')" "rs = Pushed (length (items s) < cap) # rs'"
      using Cons.prems(3) s1(3) QPush by (auto split: prod.splits)
    have "pushes ops \<le> budget s1" using Cons.prems(2) s1(4) QPush by (simp add: pushes_def)
    from Cons.IH[OF s1(2) this rs'(1)] s1(1) rs'(2) QPush show ?thesis by auto
  next
    case QPop
    obtain s1 where s1: "inv s1" "budget s1 = budget s" "pop s = Some (s1, if items s = [] then None else Some (hd (items s)))"
      "items s1 = tl (items s)" using pop_law[OF Cons.prems(1)] by auto
    obtain rs' where rs': "fifo_run cap norm (items s1) ops = (ys, rs')" "rs = Popped (if items s = [] then None else Some (hd (items s))) # rs'"
      using Cons.prems(3) s1(4) QPop by (auto split: prod.splits)
    have "pushes ops \<le> budget s1" using Cons.prems(2) s1(2) QPop by (simp add: pushes_def)
    from Cons.IH[OF s1(1) this rs'(1)] s1(3) rs'(2) QPop show ?thesis by auto
  qed
qed simp

end

subsection \<open>The queues are bounded queues\<close>

definition push_item :: "control \<Rightarrow> nat \<Rightarrow> mem \<Rightarrow> uint32 \<times> uint32 \<Rightarrow> (mem \<times> bool) option" where
  "push_item c q m x = Push m c (GetNodeReqQueueOffset q) (fst x) (snd x)"

definition pop_item :: "control \<Rightarrow> nat \<Rightarrow> mem \<Rightarrow> (mem \<times> (uint32 \<times> uint32) option) option" where
  "pop_item c q m = map_option (\<lambda>(m', slotID, cmd, ok). (m', if ok then Some (slotID, cmd) else None)) (Pop m c (GetNodeReqQueueOffset q))"

definition queue_ok :: "control \<Rightarrow> nat \<Rightarrow> mem \<Rightarrow> bool" where
  "queue_ok c q m \<longleftrightarrow> ctl_ok c \<and> q < MaxNodes \<and> q_inv (fget c) m q"

text \<open>The number of pushes before the 32-bit tail counter wraps.\<close>

definition pushes_left :: "control \<Rightarrow> nat \<Rightarrow> mem \<Rightarrow> nat" where
  "pushes_left c q m = 4294967295 - fget c m (QTail q)"

interpretation cq: bounded_fifo "queue_ok c q" "\<lambda>m. q_items (fget c) m q" "QueueSize - 1" "pushes_left c q"
  "\<lambda>x. (fst x, snd x AND NOT Q_READY_BIT)" "push_item c q" "pop_item c q" for c q
proof
  fix m :: mem and x :: "uint32 \<times> uint32"
  assume "queue_ok c q m" and b: "0 < pushes_left c q m"
  then have ok: "ctl_ok c" "q < MaxNodes" "q_inv (fget c) m q" by (simp_all add: queue_ok_def)
  have nw: "Suc (fget c m (QTail q)) < 4294967296" using b by (simp add: pushes_left_def)
  obtain m' where "Push m c (GetNodeReqQueueOffset q) (fst x) (snd x) = Some (m', length (q_items (fget c) m q) < QueueSize - 1)"
    "q_inv (fget c) m' q"
    "q_items (fget c) m' q = (if length (q_items (fget c) m q) < QueueSize - 1
       then q_items (fget c) m q @ [(fst x, snd x AND NOT Q_READY_BIT)] else q_items (fget c) m q)"
    "fget c m' (QTail q) \<le> Suc (fget c m (QTail q))"
    by (rule Push_spec[OF ok nw])
  with ok show "\<exists>s'. push_item c q m x = Some (s', length (q_items (fget c) m q) < QueueSize - 1) \<and> queue_ok c q s'
      \<and> q_items (fget c) s' q = (if length (q_items (fget c) m q) < QueueSize - 1
          then q_items (fget c) m q @ [(fst x, snd x AND NOT Q_READY_BIT)] else q_items (fget c) m q)
      \<and> pushes_left c q m - 1 \<le> pushes_left c q s'"
    by (intro exI[of _ m']) (auto simp: push_item_def queue_ok_def pushes_left_def)
next
  fix m :: mem
  assume "queue_ok c q m"
  then have ok: "ctl_ok c" "q < MaxNodes" "q_inv (fget c) m q" by (simp_all add: queue_ok_def)
  then show "\<exists>s'. queue_ok c q s' \<and> pushes_left c q s' = pushes_left c q m
      \<and> pop_item c q m = Some (s', if q_items (fget c) m q = [] then None else Some (hd (q_items (fget c) m q)))
      \<and> q_items (fget c) s' q = tl (q_items (fget c) m q)"
    by (rule Pop_spec) (use ok in \<open>auto simp: pop_item_def queue_ok_def pushes_left_def\<close>)
qed

subsection \<open>The registry\<close>

definition slot_status :: "control \<Rightarrow> mem \<Rightarrow> uint32 \<Rightarrow> nat" where
  "slot_status c m s = fget c m (SlotStatus s)"

text \<open>The slot of attempt \<open>i\<close>.\<close>

definition attempt :: "uint32 \<Rightarrow> nat \<Rightarrow> uint32" where
  "attempt start i = (start + of_nat i - 1) mod of_nat MaxTotalSlots + 1"

lemma unat_attempt: "unat (attempt start i) = Suc ((unat start + 4095 + i) mod 4096)"
proof -
  let ?x = "unat start + 4294967295 + i"
  have "start + of_nat i - 1 = of_nat ?x"
  proof -
    have "(4294967295 :: uint32) = - 1" by simp
    then show ?thesis by simp
  qed
  then have "unat (start + of_nat i - 1) = ?x mod 4294967296" by (simp only: unat_of_nat) simp
  then have "unat ((start + of_nat i - 1) mod of_nat MaxTotalSlots) = ?x mod 4294967296 mod 4096"
    by (simp add: unat_mod MaxTotalSlots_def)
  also have "\<dots> = ?x mod 4096" by (rule mod_mod_cancel) simp
  also have "\<dots> = (unat start + 4095 + i) mod 4096" 
  proof -
    have "?x = unat start + 4095 + i + 1048575 * 4096" by simp
    then show ?thesis by (simp only: mod_mult_self1)
  qed
  finally have u: "unat ((start + of_nat i - 1) mod of_nat MaxTotalSlots) = (unat start + 4095 + i) mod 4096" .
  have "unat (w + 1) = Suc (unat w)" if "unat w < 4096" for w :: uint32
    using that by (simp add: unat_word_ariths)
  then show ?thesis unfolding attempt_def using u by simp
qed

lemma attempt_valid: "valid_slot (attempt start i)"
  using unat_attempt[of start i] by (simp add: valid_slot_unat)

lemma attempt_covers:
  assumes "valid_slot s"
  shows "\<exists>i < MaxTotalSlots. attempt start i = s"
proof -
  have s: "1 \<le> unat s" "unat s \<le> 4096" using assms by (simp_all add: valid_slot_unat)
  then have "unat s - 1 \<in> {..<4096}" by auto
  then obtain i where i: "i < 4096" "(unat start + 4095 + i) mod 4096 = unat s - 1"
    using rot_surj[of "unat start + 4095" 4096] by (metis (no_types, lifting) imageE lessThan_iff)
  then have "unat (attempt start i) = unat s" using s by (simp add: unat_attempt)
  then show ?thesis using i(1) by (auto simp: MaxTotalSlots_def intro!: exI[of _ i] simp: word_unat_eq_iff)
qed

lemma of_nat32_0:
  assumes "n < 4294967296"
  shows "(of_nat n :: uint32) = 0 \<longleftrightarrow> n = 0"
proof
  assume "(of_nat n :: uint32) = 0"
  then have "unat (of_nat n :: uint32) = 0" by (simp only: unsigned_0)
  then show "n = 0" using unat_of_nat32[OF assms] by (simp only:)
qed simp

lemma slot_cas:
  assumes "ctl_ok c" "valid_slot s"
  shows "casU32 m c (GetStripeEntryOffset s + STRIPE_OFF_STATUS) StripeStatusIdle StripeStatusBusy =
    Some (if slot_status c m s = 0 then (fput c m (SlotStatus s) 1, True) else (m, False))"
proof -
  have "(of_nat (fget c m (SlotStatus s)) :: uint32) = 0 \<longleftrightarrow> fget c m (SlotStatus s) = 0"
    using fget_less[of c m "SlotStatus s"] by (intro of_nat32_0) simp
  then show ?thesis
    using cas_field[OF assms(1), of "SlotStatus s" m StripeStatusIdle StripeStatusBusy] assms(2)
    by (simp add: slot_status_def StripeStatusIdle_def StripeStatusBusy_def)
qed

lemma AllocSlot_loop_spec:
  assumes c: "ctl_ok c"
  shows "AllocSlot_loop m c start i = Some (case find (\<lambda>j. slot_status c m (attempt start j) = 0) [i..<MaxTotalSlots] of
      None \<Rightarrow> (m, 0, False)
    | Some j \<Rightarrow> (fput c m (SlotStatus (attempt start j)) 1, attempt start j, True))"
proof (induction "MaxTotalSlots - i" arbitrary: i)
  case 0
  then show ?case by (simp add: AllocSlot_loop.simps)
next
  case (Suc n)
  then have i: "i < MaxTotalSlots" "n = MaxTotalSlots - Suc i" by simp_all
  have "[i..<MaxTotalSlots] = i # [Suc i..<MaxTotalSlots]" using i(1) by (simp add: upt_conv_Cons)
  moreover have "AllocSlot_loop m c start i = (if slot_status c m (attempt start i) = 0
      then Some (fput c m (SlotStatus (attempt start i)) 1, attempt start i, True) else AllocSlot_loop m c start (Suc i))"
    using i(1) slot_cas[OF c attempt_valid, of m start i]
    by (subst AllocSlot_loop.simps) (simp add: attempt_def Let_def)
  ultimately show ?case using Suc.hyps(1)[OF i(2)] by simp
qed

lemma fget_status:
  assumes "ctl_ok c" "valid_slot s" "field_valid f"
  shows "fget c (fput c m (SlotStatus s) v) f = (if f = SlotStatus s then v mod 4294967296 else fget c m f)"
  using fget_fput[OF assms(1), of "SlotStatus s" f m v] assms(2,3) by auto

lemma slot_writes:
  assumes c: "ctl_ok c" and s: "valid_slot s"
  shows "writeU32 m c (GetStripeEntryOffset s + STRIPE_OFF_STATUS) v = Some (fput c m (SlotStatus s) (unat v))"
    "writeU32 m c (GetStripeEntryOffset s + STRIPE_OFF_HEADER) v = Some (fput c m (SlotHeader s) (unat v))"
    "writeU32 m c (GetStripeEntryOffset s + STRIPE_OFF_OWNER) v = Some (fput c m (SlotOwner s) (unat v))"
  using write_field[OF c, of "SlotStatus s"] write_field[OF c, of "SlotHeader s"] write_field[OF c, of "SlotOwner s"] s by simp_all

lemma slot_reads:
  assumes c: "ctl_ok c" and s: "valid_slot s"
  shows "readU32 m c (GetStripeEntryOffset s + STRIPE_OFF_STATUS) = Some (of_nat (fget c m (SlotStatus s)))"
    "readU32 m c (GetStripeEntryOffset s + STRIPE_OFF_HEADER) = Some (of_nat (fget c m (SlotHeader s)))"
    "readU32 m c (GetStripeEntryOffset s + STRIPE_OFF_OWNER) = Some (of_nat (fget c m (SlotOwner s)))"
  using read_field[OF c, of "SlotStatus s"] read_field[OF c, of "SlotHeader s"] read_field[OF c, of "SlotOwner s"] s by simp_all

lemma header_parts:
  "ucast (drop_bit 16 (push_bit 16 (ucast cid) OR ucast off :: uint32)) = (cid :: int16)"
  "ucast ((push_bit 16 (ucast cid) OR ucast off :: uint32) AND 0xFFFF) = (off :: int16)"
proof -
  have m: "(0xFFFF :: uint32) = mask 16" by (simp add: mask_eq_exp_minus_1)
  show "ucast (drop_bit 16 (push_bit 16 (ucast cid) OR ucast off :: uint32)) = cid"
    by (rule bit_word_eqI) (auto simp: bit_simps dest: bit_imp_le_length)
  show "ucast ((push_bit 16 (ucast cid) OR ucast off :: uint32) AND 0xFFFF) = off"
    unfolding m by (rule bit_word_eqI) (simp add: bit_simps)
qed

subsection \<open>Initialisation\<close>

text \<open>Slot 0 lies outside every control stripe, so a write to it is ignored.\<close>

lemma write_slot_0:
  assumes "length (Blocks (ctl_stripe c)) \<le> 65536"
  shows "writeU32 m c (GetStripeEntryOffset 0 + STRIPE_OFF_STATUS) v = Some m"
proof -
  have "length (Blocks (ctl_stripe c)) \<le> (GetStripeEntryOffset 0 + STRIPE_OFF_STATUS) div BlockSize"
    using assms unfolding entry_offset_zero STRIPE_OFF_STATUS_def BlockSize_def by simp
  then show ?thesis by (simp add: writeU32_def GetPointer_def Let_def)
qed

lemma valid_slot_of_nat: "i < 4096 \<Longrightarrow> valid_slot (of_nat i) \<longleftrightarrow> i \<noteq> 0"
  using unat_of_nat32[of i] by (auto simp: valid_slot_unat)

lemma init_slots_spec:
  assumes c: "ctl_ok c" "length (Blocks (ctl_stripe c)) \<le> 65536" and "set is \<subseteq> {..<4096}"
  shows "\<exists>m'. init_slots m c is = Some m' \<and> (\<forall>f. field_valid f \<longrightarrow>
    fget c m' f = (if \<exists>i \<in> set is. i \<noteq> 0 \<and> f = SlotStatus (of_nat i) then 0 else fget c m f))"
  using assms(3)
proof (induction "is" arbitrary: m)
  case (Cons i "is")
  define m1 where "m1 = (if i = 0 then m else fput c m (SlotStatus (of_nat i)) 0)"
  have "writeU32 m c (GetStripeEntryOffset (of_nat i) + STRIPE_OFF_STATUS) StripeStatusIdle = Some m1"
    using write_slot_0[OF c(2)] slot_writes(1)[OF c(1), of "of_nat i"] Cons.prems valid_slot_of_nat[of i]
    by (simp add: m1_def StripeStatusIdle_def)
  moreover have "fget c m1 f = (if i \<noteq> 0 \<and> f = SlotStatus (of_nat i) then 0 else fget c m f)" if "field_valid f" for f
    using fget_status[OF c(1) _ that, of "of_nat i" m 0] Cons.prems valid_slot_of_nat[of i] by (auto simp: m1_def)
  ultimately show ?case using Cons.IH[of m1] Cons.prems by auto
qed simp

lemma init_queues_spec:
  assumes c: "ctl_ok c" and "set is \<subseteq> {..<MaxNodes}"
  shows "\<exists>m'. init_queues m c is = Some m' \<and> (\<forall>f. field_valid f \<longrightarrow>
    fget c m' f = (if \<exists>i \<in> set is. f = QHead i \<or> f = QTail i then 0 else fget c m f))"
  using assms(2)
proof (induction "is" arbitrary: m)
  case (Cons i "is")
  let ?m = "fput c (fput c m (QHead i) 0) (QTail i) 0"
  have w: "writeU32 m c (GetNodeReqQueueOffset i + Q_OFF_HEAD) 0 = Some (fput c m (QHead i) 0)"
    "writeU32 (fput c m (QHead i) 0) c (GetNodeReqQueueOffset i + Q_OFF_TAIL) 0 = Some ?m"
    using write_field[OF c, of "QHead i"] write_field[OF c, of "QTail i"] Cons.prems by simp_all
  have "fget c ?m f = (if f = QHead i \<or> f = QTail i then 0 else fget c m f)" if "field_valid f" for f
    using that Cons.prems by (auto simp: fget_fput[OF c])
  with w Cons.IH[of ?m] Cons.prems show ?case by (simp add: Let_def) (auto split: if_splits)
qed simp

lemma Init_spec:
  assumes c: "ctl_ok c" "length (Blocks (ctl_stripe c)) \<le> 65536"
  obtains m' where "Init m c = Some m'" "\<forall>f. field_valid f \<longrightarrow> fget c m' f =
    (if (\<exists>q. f = QHead q \<or> f = QTail q) \<or> (\<exists>s. f = SlotStatus s \<and> s \<noteq> 4096) then 0 else fget c m f)"
proof -
  let ?m = "fput c (fput c m (QHead 0) 0) (QTail 0) 0"
  have w: "writeU32 m c (OFF_RESP_QUEUE + Q_OFF_HEAD) 0 = Some (fput c m (QHead 0) 0)"
    "writeU32 (fput c m (QHead 0) 0) c (OFF_RESP_QUEUE + Q_OFF_TAIL) 0 = Some ?m"
    using write_field[OF c(1), of "QHead 0"] write_field[OF c(1), of "QTail 0"]
    by (simp_all add: GetNodeReqQueueOffset_def MaxNodes_def)
  have fm: "fget c ?m f = (if f = QHead 0 \<or> f = QTail 0 then 0 else fget c m f)" if "field_valid f" for f
    using that by (auto simp: fget_fput[OF c(1)] MaxNodes_def)
  obtain m1 where m1: "init_queues ?m c [0..<MaxNodes] = Some m1" "\<forall>f. field_valid f \<longrightarrow>
      fget c m1 f = (if \<exists>i \<in> set [0..<MaxNodes]. f = QHead i \<or> f = QTail i then 0 else fget c ?m f)"
    using init_queues_spec[OF c(1), of "[0..<MaxNodes]" ?m] by (auto simp: atLeast0LessThan)
  obtain m2 where m2: "init_slots m1 c [0..<MaxTotalSlots] = Some m2" "\<forall>f. field_valid f \<longrightarrow>
      fget c m2 f = (if \<exists>i \<in> set [0..<MaxTotalSlots]. i \<noteq> 0 \<and> f = SlotStatus (of_nat i) then 0 else fget c m1 f)"
  proof -
    have "set [0..<MaxTotalSlots] \<subseteq> {..<4096}" by (auto simp: MaxTotalSlots_def)
    from init_slots_spec[OF c this, of m1] show ?thesis using that by blast
  qed
  have st: "(\<exists>i \<in> set [0..<MaxTotalSlots]. i \<noteq> 0 \<and> SlotStatus s = SlotStatus (of_nat i)) \<longleftrightarrow> s \<noteq> 4096" if "valid_slot s" for s
  proof -
    have u: "unat s \<noteq> 0" "unat s \<le> 4096" "s = of_nat (unat s)" using that by (auto simp: valid_slot_unat)
    have e: "unat s = 4096 \<longleftrightarrow> s = 4096" by (simp add: word_unat_eq_iff)
    show ?thesis
    proof
      assume "\<exists>i \<in> set [0..<MaxTotalSlots]. i \<noteq> 0 \<and> SlotStatus s = SlotStatus (of_nat i)"
      then obtain i where "i < 4096" "s = of_nat i" by (auto simp: MaxTotalSlots_def)
      then have "unat s = i" using unat_of_nat32[of i] by simp
      with \<open>i < 4096\<close> e show "s \<noteq> 4096" by auto
    next
      assume "s \<noteq> 4096"
      then have "unat s < 4096" using u(2) e by simp
      then show "\<exists>i \<in> set [0..<MaxTotalSlots]. i \<noteq> 0 \<and> SlotStatus s = SlotStatus (of_nat i)"
        using u by (intro bexI[of _ "unat s"]) (simp_all add: MaxTotalSlots_def)
    qed
  qed
  have "fget c m2 f = (if (\<exists>q. f = QHead q \<or> f = QTail q) \<or> (\<exists>s. f = SlotStatus s \<and> s \<noteq> 4096) then 0 else fget c m f)"
    if v: "field_valid f" for f
    using m2(2)[rule_format, OF v] m1(2)[rule_format, OF v] fm[OF v] st v by (cases f) (auto split: if_splits)
  moreover have "Init m c = Some m2" using w m1(1) m2(1) by (simp add: Init_def)
  ultimately show ?thesis by (intro that) auto
qed

subsection \<open>Properties\<close>

text \<open>A control stripe of 256 blocks at the start of region 0, over zero-filled memory.\<close>

definition ex_ctl :: control where
  "ex_ctl = NewControl \<lparr>Sequence = [], BlockCount = 256,
     Blocks = map (\<lambda>i. \<lparr>sl_region = 0, sl_off = 4096 * i, sl_len = 4096\<rparr>) [0..<256], DataLen = 0\<rparr>"

definition zero_mem :: mem where
  "zero_mem = (\<lambda>r i. 0)"

lemma ex_ctl_ok: "ctl_ok ex_ctl" "length (Blocks (ctl_stripe ex_ctl)) = 256"
  by (auto simp: ctl_ok_def ex_ctl_def NewControl_def blocks_wf_def block_ok_def list_all_iff span_def ControlStripeSize_def
      BlockSize_def distinct_map inj_on_def)

lemma fget_zero [simp]: "fget c zero_mem f = 0"
proof -
  have "le_val (map (\<lambda>i. 0) xs) = 0" for xs :: "nat list" by (induction xs) simp_all
  then show ?thesis by (simp add: fget_def mem_read_def zero_mem_def)
qed

lemma ex_queue_ok: "q < MaxNodes \<Longrightarrow> queue_ok ex_ctl q zero_mem"
  by (simp add: queue_ok_def ex_ctl_ok q_inv_def)

text \<open>C15: The queues of the control region refine a first-in-first-out list of at most 509 messages. Whatever
  calls of \<open>Push\<close> and \<open>Pop\<close> are made on a queue in a consistent state, in whatever order, each of them returns,
  with the answer the list gives: a push is accepted exactly when fewer than 509 messages are pending and
  refused otherwise, a pop takes the oldest message (the ready bit is masked out of its command) or
  reports that there is none; and the messages left in the ring are those left in the list. (The calls
  come one after the other, with fewer pushes than the tail counter has left before it wraps.)\<close>

theorem queue_fifo:
  assumes "queue_ok c q m" and "pushes ops \<le> pushes_left c q m"
    and "fifo_run 509 (\<lambda>(slotID, cmd). (slotID, cmd AND NOT Q_READY_BIT)) (q_items (fget c) m q) ops = (ys, rs)"
  shows "\<exists>m'. queue_run (push_item c q) (pop_item c q) m ops = Some (m', rs) \<and> queue_ok c q m' \<and> q_items (fget c) m' q = ys"
proof -
  have "QueueSize - 1 = 509" by (simp add: QueueSize_def)
  then show ?thesis using cq.run_refines[OF assms(1,2), of ys rs] assms(3) by (simp add: case_prod_unfold)
qed

theorem queue_fifo_witness:
  "\<exists>m'. queue_run (push_item ex_ctl 3) (pop_item ex_ctl 3) zero_mem [QPop, QPush (7, CMD_PROCESS), QPush (9, CMD_RELEASE), QPop]
    = Some (m', [Popped None, Pushed True, Pushed True, Popped (Some (7, CMD_PROCESS))])
    \<and> q_items (fget ex_ctl) m' 3 = [(9, CMD_RELEASE)]"
proof -
  let ?ops = "[QPop, QPush (7, CMD_PROCESS), QPush (9, CMD_RELEASE), QPop]"
  have "CMD_PROCESS AND NOT Q_READY_BIT = CMD_PROCESS" "CMD_RELEASE AND NOT Q_READY_BIT = CMD_RELEASE"
    by (simp_all add: cmd_consts Q_READY_BIT_def)
  then have "fifo_run 509 (\<lambda>(slotID, cmd). (slotID, cmd AND NOT Q_READY_BIT)) (q_items (fget ex_ctl) zero_mem 3) ?ops
      = ([(9, CMD_RELEASE)], [Popped None, Pushed True, Pushed True, Popped (Some (7, CMD_PROCESS))])"
    by (simp add: q_items_def)
  moreover have "3 < MaxNodes" "pushes ?ops \<le> pushes_left ex_ctl 3 zero_mem" by (simp_all add: MaxNodes_def pushes_def pushes_left_def)
  ultimately show ?thesis using queue_fifo[OF ex_queue_ok] by blast
qed

text \<open>\<open>Push\<close> and \<open>Pop\<close> always return on a queue in a consistent state and touch nothing else of the
  control region. \<open>Push\<close> appends the message and answers true when fewer than 509 are pending;
  otherwise it gives up after its spins, answers false and changes nothing. (The tail counter is
  below its maximum.)\<close>

theorem Push_correct:
  assumes "queue_ok c q m" and "0 < pushes_left c q m"
  shows "\<exists>m'. Push m c (GetNodeReqQueueOffset q) slotID cmd = Some (m', length (q_items (fget c) m q) < 509)
    \<and> queue_ok c q m'
    \<and> q_items (fget c) m' q = (if length (q_items (fget c) m q) < 509
        then q_items (fget c) m q @ [(slotID, cmd AND NOT Q_READY_BIT)] else q_items (fget c) m q)
    \<and> (\<forall>f. field_valid f \<longrightarrow> \<not> queue_field q f \<longrightarrow> fget c m' f = fget c m f)"
proof -
  have ok: "ctl_ok c" "q < MaxNodes" "q_inv (fget c) m q" using assms(1) by (simp_all add: queue_ok_def)
  have nw: "Suc (fget c m (QTail q)) < 4294967296" using assms(2) by (simp add: pushes_left_def)
  have n: "QueueSize - 1 = 509" by (simp add: QueueSize_def)
  obtain m' where "Push m c (GetNodeReqQueueOffset q) slotID cmd = Some (m', length (q_items (fget c) m q) < 509)"
    "q_inv (fget c) m' q"
    "q_items (fget c) m' q = (if length (q_items (fget c) m q) < 509
       then q_items (fget c) m q @ [(slotID, cmd AND NOT Q_READY_BIT)] else q_items (fget c) m q)"
    "\<forall>f. field_valid f \<longrightarrow> \<not> queue_field q f \<longrightarrow> fget c m' f = fget c m f"
    by (rule Push_spec[OF ok nw, unfolded n])
  with ok show ?thesis by (intro exI[of _ m']) (simp add: queue_ok_def)
qed

theorem Push_correct_witness:
  "\<exists>m'. Push zero_mem ex_ctl (GetNodeReqQueueOffset 5) 42 CMD_PROCESS = Some (m', True)
    \<and> q_items (fget ex_ctl) m' 5 = [(42, CMD_PROCESS)]"
proof -
  have "queue_ok ex_ctl 5 zero_mem" "0 < pushes_left ex_ctl 5 zero_mem"
    by (rule ex_queue_ok) (simp_all add: MaxNodes_def pushes_left_def)
  from Push_correct[OF this, of 42 CMD_PROCESS] show ?thesis
    by (auto simp: q_items_def cmd_consts Q_READY_BIT_def)
qed

text \<open>C37: The index into the ring is taken from the 32-bit counter modulo 510, and 510 does not divide
  \<open>2 ^ 32\<close>. When the tail counter wraps to 0 with 400 messages pending, the next \<open>Push\<close> succeeds
  and overwrites the entry of message number 144, which has not been popped.\<close>

theorem Push_overwrites_at_wrap:
  assumes "ctl_ok c" and "q < MaxNodes" and "fget c m (QHead q) = 4294966896" and "fget c m (QTail q) = 0"
  shows "\<exists>m'. Push m c (GetNodeReqQueueOffset q) slotID cmd = Some (m', True)
    \<and> fget c m' (QEntry q ((fget c m (QHead q) + 144) mod QueueSize)) = unat (packed_entry slotID cmd)
    \<and> unat (of_nat (fget c m (QTail q)) - of_nat (fget c m (QHead q)) :: uint32) = 400"
proof -
  let ?m = "fput c (fput c m (QTail q) 1) (QEntry q 0) (unat (packed_entry slotID cmd))"
  have rd: "readU32 m c (field_off (QHead q)) = Some 4294966896" "readU32 m c (field_off (QTail q)) = Some 0"
    using assms by (simp_all add: read_field del: field_off.simps)
  have cas: "casU32 m c (field_off (QTail q)) 0 (0 + 1) = Some (fput c m (QTail q) 1, True)"
    using assms by (simp add: cas_field del: field_off.simps)
  have e: "field_valid (QEntry q 0)" using assms(2) by (simp add: QueueSize_def)
  have ptr: "GetPointer (ctl_stripe c) (field_off (QEntry q (unat (0 mod of_nat QueueSize :: uint32)))) = Some (Some (fptr c (QEntry q 0)))"
    using GetPointer_field[OF assms(1) e] by (simp del: field_off.simps)
  have st: "store64 m' (fptr c (QEntry q i)) w = fput c m' (QEntry q i) (unat w)" for m' i w by (simp add: store64_fput)
  have full: "\<not> of_nat (QueueSize - 1) \<le> (0 - 4294966896 :: uint32)" by (simp add: QueueSize_def)
  have "Push m c (GetNodeReqQueueOffset q) slotID cmd = Some (?m, True)"
    unfolding Push_def
    by (subst Push_loop.simps) (simp only: queue_offs rd Option.bind.simps full if_False cas prod.case if_True ptr option.case st)
  moreover have "fget c ?m (QEntry q 0) = unat (packed_entry slotID cmd)"
    using fget_fput[OF assms(1) e e] entry_packed(3)[of slotID cmd q 0] by simp
  moreover have "(4294966896 + 144) mod QueueSize = 0" by (simp add: QueueSize_def)
  ultimately show ?thesis using assms(3,4) by (intro exI[of _ ?m]) simp
qed

theorem Push_overwrites_at_wrap_witness:
  "\<exists>m m'. fget ex_ctl m (QHead 1) = 4294966896 \<and> fget ex_ctl m (QTail 1) = 0
    \<and> Push m ex_ctl (GetNodeReqQueueOffset 1) 7 CMD_PROCESS = Some (m', True)"
proof -
  let ?m = "fput ex_ctl zero_mem (QHead 1) 4294966896"
  have "fget ex_ctl ?m (QHead 1) = 4294966896" "fget ex_ctl ?m (QTail 1) = 0"
    by (simp_all add: fget_fput ex_ctl_ok MaxNodes_def)
  with Push_overwrites_at_wrap[OF ex_ctl_ok(1) _ this, of 7 CMD_PROCESS] show ?thesis
    by (auto simp: MaxNodes_def)
qed

lemma AllocSlot_spec:
  assumes "ctl_ok c"
  obtains (none) "AllocSlot m c = Some (m, c\<lparr>cursor := cursor c + 1\<rparr>, 0, False)" "\<forall>s. valid_slot s \<longrightarrow> slot_status c m s \<noteq> 0"
  | (slot) slot where "AllocSlot m c = Some (fput c m (SlotStatus slot) 1, c\<lparr>cursor := cursor c + 1\<rparr>, slot, True)"
      "valid_slot slot" "slot_status c m slot = 0"
proof -
  let ?c = "c\<lparr>cursor := cursor c + 1\<rparr>" and ?start = "cursor c + 1"
  let ?P = "\<lambda>j. slot_status c m (attempt ?start j) = 0"
  have same: "ctl_ok ?c" "fput ?c = fput c" "slot_status ?c = slot_status c"
    using assms ctl_cong[of ?c c] by (simp_all add: slot_status_def fun_eq_iff)
  have al: "AllocSlot m c = Some (case find ?P [0..<MaxTotalSlots] of
      None \<Rightarrow> (m, ?c, 0, False)
    | Some j \<Rightarrow> (fput c m (SlotStatus (attempt ?start j)) 1, ?c, attempt ?start j, True))"
    using AllocSlot_loop_spec[OF same(1), of m ?start 0] unfolding same AllocSlot_def Let_def by (simp split: option.splits)
  show ?thesis
  proof (cases "find ?P [0..<MaxTotalSlots]")
    case None
    then have "\<not> ?P j" if "j < MaxTotalSlots" for j using that by (auto simp: find_None_iff)
    then have "slot_status c m s \<noteq> 0" if "valid_slot s" for s using attempt_covers[OF that] by metis
    then show ?thesis using none al None by simp
  next
    case (Some j)
    then have "?P j" by (auto simp: find_Some_iff)
    then show ?thesis using slot[of "attempt ?start j"] al Some attempt_valid by simp
  qed
qed

lemma SetStripe_spec:
  assumes "ctl_ok c" "valid_slot s"
  obtains m' where "SetStripe m c s status cid off owner = Some m'" "fget c m' (SlotStatus s) = unat status"
    "GetStripeHeader m' c s = Some (cid, off)" "fget c m' (SlotOwner s) = unat owner"
    "\<forall>f. field_valid f \<longrightarrow> f \<notin> {SlotStatus s, SlotHeader s, SlotOwner s} \<longrightarrow> fget c m' f = fget c m f"
    "same_elsewhere m m' (ctl_stripe c)"
proof -
  let ?h = "push_bit 16 (ucast cid) OR ucast off :: uint32"
  let ?m = "fput c (fput c (fput c m (SlotHeader s) (unat ?h)) (SlotOwner s) (unat owner)) (SlotStatus s) (unat status)"
  have w: "unat (x :: uint32) mod 4294967296 = unat x" for x
    using unsigned_less[of x, where 'a = nat] by simp
  have fld: "field_valid (SlotStatus s)" "field_valid (SlotHeader s)" "field_valid (SlotOwner s)" using assms(2) by simp_all
  have g: "fget c ?m (SlotStatus s) = unat status" "fget c ?m (SlotHeader s) = unat ?h" "fget c ?m (SlotOwner s) = unat owner"
    using fld by (simp_all only: fget_fput[OF assms(1)] ctl_field.distinct ctl_field.simps field_max_simps if_True if_False w simp_thms)
  show ?thesis
  proof (rule that[of ?m])
    show "SetStripe m c s status cid off owner = Some ?m" using slot_writes[OF assms] by (simp add: SetStripe_def Let_def)
    show "GetStripeHeader ?m c s = Some (cid, off)"
      using g(2) header_parts[of cid off] by (simp add: GetStripeHeader_def slot_reads[OF assms])
    show "\<forall>f. field_valid f \<longrightarrow> f \<notin> {SlotStatus s, SlotHeader s, SlotOwner s} \<longrightarrow> fget c ?m f = fget c m f"
      using fld by (auto simp: fget_fput[OF assms(1)])
    show "same_elsewhere m ?m (ctl_stripe c)"
      using same_elsewhere_trans[OF same_elsewhere_trans[OF fput_elsewhere fput_elsewhere] fput_elsewhere] assms(1) fld by blast
  qed (use g in simp_all)
qed

text \<open>C17: \<open>AllocSlot\<close> hands out an idle slot whenever there is one, wherever the cursor is and also when
  it wraps around: it answers false exactly when none of the slots 1 to 4096 is idle. The slot it
  returns was idle and is busy afterwards, so that it is not handed out again, and no other word
  of the control region changes.\<close>

theorem AllocSlot_correct:
  assumes "ctl_ok c"
  shows "\<exists>m' c' slot ok. AllocSlot m c = Some (m', c', slot, ok) \<and> c' = c\<lparr>cursor := cursor c + 1\<rparr>
    \<and> (ok \<longleftrightarrow> (\<exists>s. valid_slot s \<and> slot_status c m s = 0))
    \<and> (if ok then valid_slot slot \<and> slot_status c m slot = 0 \<and> slot_status c m' slot = 1
         \<and> (\<forall>f. field_valid f \<longrightarrow> f \<noteq> SlotStatus slot \<longrightarrow> fget c m' f = fget c m f)
       else slot = 0 \<and> m' = m)"
proof (rule AllocSlot_spec[OF assms, of m])
  assume "AllocSlot m c = Some (m, c\<lparr>cursor := cursor c + 1\<rparr>, 0, False)" "\<forall>s. valid_slot s \<longrightarrow> slot_status c m s \<noteq> 0"
  then show ?thesis by auto
next
  fix slot
  assume s: "AllocSlot m c = Some (fput c m (SlotStatus slot) 1, c\<lparr>cursor := cursor c + 1\<rparr>, slot, True)"
    and v: "valid_slot slot" "slot_status c m slot = 0"
  have "slot_status c (fput c m (SlotStatus slot) 1) slot = 1"
    using fget_status[OF assms v(1), of "SlotStatus slot" m 1] v(1) by (simp add: slot_status_def)
  moreover have "\<forall>f. field_valid f \<longrightarrow> f \<noteq> SlotStatus slot \<longrightarrow> fget c (fput c m (SlotStatus slot) 1) f = fget c m f"
    using fget_status[OF assms v(1)] by simp
  ultimately show ?thesis using s v by auto
qed

theorem AllocSlot_correct_witness:
  "\<exists>m' c' slot. AllocSlot zero_mem ex_ctl = Some (m', c', slot, True) \<and> slot_status ex_ctl m' slot = 1"
proof -
  have "\<exists>s. valid_slot s \<and> slot_status ex_ctl zero_mem s = 0" by (rule exI[of _ 1]) (simp add: slot_status_def)
  with AllocSlot_correct[OF ex_ctl_ok(1), of zero_mem] show ?thesis by auto
qed

lemma set_status:
  fixes m :: mem and v :: uint32
  assumes "ctl_ok c" "valid_slot s"
  shows "SetStripeStatus m c s v = Some (fput c m (SlotStatus s) (unat v))"
    "GetStripeStatus (fput c m (SlotStatus s) (unat v)) c s = Some v"
    "GetStripeHeader (fput c m (SlotStatus s) (unat v)) c s = GetStripeHeader m c s"
    "fget c (fput c m (SlotStatus s) (unat v)) (SlotOwner s) = fget c m (SlotOwner s)"
    "\<forall>f. field_valid f \<longrightarrow> f \<noteq> SlotStatus s \<longrightarrow> fget c (fput c m (SlotStatus s) (unat v)) f = fget c m f"
    "same_elsewhere m (fput c m (SlotStatus s) (unat v)) (ctl_stripe c)"
proof -
  have fld: "field_valid (SlotStatus s)" "field_valid (SlotHeader s)" "field_valid (SlotOwner s)" using assms(2) by simp_all
  have w: "unat v mod 4294967296 = unat v" using unsigned_less[of v, where 'a = nat] by simp
  note f = fget_status[OF assms(1,2), of _ m "unat v"]
  show "SetStripeStatus m c s v = Some (fput c m (SlotStatus s) (unat v))"
    by (simp add: SetStripeStatus_def slot_writes[OF assms(1,2)])
  show "GetStripeStatus (fput c m (SlotStatus s) (unat v)) c s = Some v"
    using f[OF fld(1)] w by (simp add: GetStripeStatus_def slot_reads[OF assms(1,2)])
  show "GetStripeHeader (fput c m (SlotStatus s) (unat v)) c s = GetStripeHeader m c s"
    using f[OF fld(2)] by (simp add: GetStripeHeader_def slot_reads[OF assms(1,2)])
  show "fget c (fput c m (SlotStatus s) (unat v)) (SlotOwner s) = fget c m (SlotOwner s)" using f[OF fld(3)] by simp
  show "\<forall>f. field_valid f \<longrightarrow> f \<noteq> SlotStatus s \<longrightarrow> fget c (fput c m (SlotStatus s) (unat v)) f = fget c m f"
    using f by simp
  show "same_elsewhere m (fput c m (SlotStatus s) (unat v)) (ctl_stripe c)" by (rule fput_elsewhere[OF assms(1) fld(1)])
qed

text \<open>C21: A registry entry is read as it was set: after \<open>SetStripe\<close> on a slot, status, header chunk and
  block (as signed 16-bit numbers) and owner are returned by the getters, and no other slot and no queue is
  touched. \<open>SetStripeStatus\<close> and \<open>FreeSlot\<close> then change the status of that slot and no other word of the control
  region: header and owner are kept, also by \<open>FreeSlot\<close>. None of the three writes outside the region.\<close>

theorem SetStripe_roundtrip:
  assumes "ctl_ok c" and "valid_slot s"
  shows "\<exists>m'. SetStripe m c s status cid off owner = Some m'
    \<and> GetStripeStatus m' c s = Some status \<and> GetStripeHeader m' c s = Some (cid, off) \<and> GetStripeOwner m' c s = Some owner
    \<and> (\<forall>f. field_valid f \<longrightarrow> f \<notin> {SlotStatus s, SlotHeader s, SlotOwner s} \<longrightarrow> fget c m' f = fget c m f)
    \<and> same_elsewhere m m' (ctl_stripe c)
    \<and> (\<exists>m''. SetStripeStatus m' c s st = Some m'' \<and> GetStripeStatus m'' c s = Some st
         \<and> GetStripeHeader m'' c s = Some (cid, off) \<and> GetStripeOwner m'' c s = Some owner
         \<and> (\<forall>f. field_valid f \<longrightarrow> f \<noteq> SlotStatus s \<longrightarrow> fget c m'' f = fget c m' f) \<and> same_elsewhere m' m'' (ctl_stripe c))
    \<and> (\<exists>m''. FreeSlot m' c s = Some m'' \<and> GetStripeStatus m'' c s = Some StripeStatusIdle
         \<and> GetStripeHeader m'' c s = Some (cid, off) \<and> GetStripeOwner m'' c s = Some owner
         \<and> (\<forall>f. field_valid f \<longrightarrow> f \<noteq> SlotStatus s \<longrightarrow> fget c m'' f = fget c m' f) \<and> same_elsewhere m' m'' (ctl_stripe c))"
proof -
  obtain m' where m': "SetStripe m c s status cid off owner = Some m'" "fget c m' (SlotStatus s) = unat status"
    "GetStripeHeader m' c s = Some (cid, off)" "fget c m' (SlotOwner s) = unat owner"
    "\<forall>f. field_valid f \<longrightarrow> f \<notin> {SlotStatus s, SlotHeader s, SlotOwner s} \<longrightarrow> fget c m' f = fget c m f"
    "same_elsewhere m m' (ctl_stripe c)"
    by (rule SetStripe_spec[OF assms, of m status cid off owner]) blast
  have st: "SetStripeStatus m' c s v = Some m'' \<and> GetStripeStatus m'' c s = Some v
      \<and> GetStripeHeader m'' c s = Some (cid, off) \<and> GetStripeOwner m'' c s = Some owner
      \<and> (\<forall>f. field_valid f \<longrightarrow> f \<noteq> SlotStatus s \<longrightarrow> fget c m'' f = fget c m' f) \<and> same_elsewhere m' m'' (ctl_stripe c)"
    if "m'' = fput c m' (SlotStatus s) (unat v)" for v m''
    using set_status[OF assms, of m' v] m'(3,4) that by (simp add: GetStripeOwner_def slot_reads[OF assms])
  have "FreeSlot m' c s = SetStripeStatus m' c s StripeStatusIdle" by (simp add: FreeSlot_def SetStripeStatus_def)
  moreover have "GetStripeStatus m' c s = Some status" "GetStripeOwner m' c s = Some owner"
    using m'(2,4) by (simp_all add: GetStripeStatus_def GetStripeOwner_def slot_reads[OF assms])
  ultimately show ?thesis
    by (intro exI[of _ m'] conjI exI[of _ "fput c m' (SlotStatus s) (unat st)"] exI[of _ "fput c m' (SlotStatus s) (unat StripeStatusIdle)"])
      (use m' st in \<open>simp_all\<close>)
qed

theorem SetStripe_roundtrip_witness:
  "\<exists>m' m''. SetStripe zero_mem ex_ctl 4096 StripeStatusBusy (NOT 2) 17 3 = Some m'
    \<and> GetStripeHeader m' ex_ctl 4096 = Some (NOT 2, 17) \<and> GetStripeOwner m' ex_ctl 4096 = Some 3
    \<and> FreeSlot m' ex_ctl 4096 = Some m'' \<and> GetStripeOwner m'' ex_ctl 4096 = Some 3"
proof -
  have "valid_slot 4096" by simp
  from SetStripe_roundtrip[OF ex_ctl_ok(1) this, of zero_mem StripeStatusBusy "NOT 2" 17 3 StripeStatusDone]
  show ?thesis by (elim exE conjE) blast
qed

text \<open>C36: \<open>Init\<close> empties every queue and frees the slots 1 to 4095, but not the last one: its loop runs over
  0 to 4095 while slots are numbered from 1, so that its first write falls outside the control
  stripe and is ignored, and the status of slot 4096 stays whatever it was.\<close>

theorem Init_correct:
  assumes "ctl_ok c" and "length (Blocks (ctl_stripe c)) \<le> 65536"
  shows "\<exists>m'. Init m c = Some m'
    \<and> (\<forall>q < MaxNodes. queue_ok c q m' \<and> q_items (fget c) m' q = [])
    \<and> (\<forall>s. valid_slot s \<longrightarrow> slot_status c m' s = (if s = 4096 then slot_status c m 4096 else 0))"
proof -
  obtain m' where "Init m c = Some m'" "\<forall>f. field_valid f \<longrightarrow> fget c m' f =
    (if (\<exists>q. f = QHead q \<or> f = QTail q) \<or> (\<exists>s. f = SlotStatus s \<and> s \<noteq> 4096) then 0 else fget c m f)"
    by (rule Init_spec[OF assms])
  then show ?thesis
    using assms(1) by (intro exI[of _ m']) (simp add: queue_ok_def q_inv_def q_items_def slot_status_def)
qed

theorem Init_correct_witness:
  "\<exists>m'. Init (fput ex_ctl zero_mem (SlotStatus 4096) 1) ex_ctl = Some m' \<and> slot_status ex_ctl m' 4096 = 1
    \<and> slot_status ex_ctl m' 1 = 0"
proof -
  let ?m = "fput ex_ctl zero_mem (SlotStatus 4096) 1"
  have "length (Blocks (ctl_stripe ex_ctl)) \<le> 65536" by (simp add: ex_ctl_ok)
  from Init_correct[OF ex_ctl_ok(1) this, of ?m] obtain m' where m': "Init ?m ex_ctl = Some m'"
    "\<forall>s. valid_slot s \<longrightarrow> slot_status ex_ctl m' s = (if s = 4096 then slot_status ex_ctl ?m 4096 else 0)" by blast
  have "slot_status ex_ctl ?m 4096 = 1" by (simp add: slot_status_def fget_fput ex_ctl_ok)
  with m'(1) m'(2)[rule_format, of 4096] m'(2)[rule_format, of 1] show ?thesis by simp
qed

end
