(* ===== verification/MPSC_Queue.thy ===== *)
theory MPSC_Queue
  imports Control_Theorems
begin

text \<open>
  The queues of \<^verbatim>\<open>go/shm/control.go\<close> under concurrency: any number of producers run \<open>Push\<close> on one
  queue while a single consumer runs \<open>Pop\<close>, interleaved at every access to the shared memory.

  A producer's state is its place in \<open>Push\<close> with the local variables, and the same for the
  consumer in \<open>Pop\<close>. \<open>claims\<close> records the messages in the order in which the
  compare-and-swap of the tail succeeded, and \<open>popped\<close> those \<open>Pop\<close> has returned.
\<close>

subsection \<open>The step relation\<close>

datatype producer =
    PIdle
  | PHead uint32 uint32 nat                \<comment> \<open>about to read the head: slot, command, spin\<close>
  | PTail uint32 uint32 nat uint32         \<comment> \<open>about to read the tail; the head it read\<close>
  | PCas uint32 uint32 nat uint32 uint32   \<comment> \<open>about to claim: head and tail it read\<close>
  | PStore uint32 uint32 uint32            \<comment> \<open>about to store its entry at the claimed tail\<close>

datatype consumer =
    CIdle
  | CTail uint32          \<comment> \<open>about to read the tail; the head it read\<close>
  | CPoll uint32          \<comment> \<open>polling the entry at the head\<close>
  | CClear uint32 uint64  \<comment> \<open>about to clear the entry it loaded\<close>
  | CAdv uint32 uint64    \<comment> \<open>about to advance the head\<close>

record mpsc =
  qmem :: mem
  producers :: "nat \<Rightarrow> producer"
  consumer :: consumer
  claims :: "(uint32 \<times> uint32) list"
  popped :: "(uint32 \<times> uint32) list"

definition word_item :: "uint64 \<Rightarrow> uint32 \<times> uint32" where
  "word_item w = (ucast (w AND 0xFFFFFFFF), ucast (drop_bit 32 w) AND NOT Q_READY_BIT)"

definition word_ready :: "uint64 \<Rightarrow> bool" where
  "word_ready w \<longleftrightarrow> (ucast (drop_bit 32 w) :: uint32) AND Q_READY_BIT \<noteq> 0"

abbreviation set_producer :: "mpsc \<Rightarrow> nat \<Rightarrow> producer \<Rightarrow> mpsc" where
  "set_producer st p x \<equiv> st\<lparr>producers := (producers st)(p := x)\<rparr>"

inductive mpsc_step :: "control \<Rightarrow> nat \<Rightarrow> mpsc \<Rightarrow> mpsc \<Rightarrow> bool" for c qOffset where
  push_start: "producers st p = PIdle \<Longrightarrow> mpsc_step c qOffset st (set_producer st p (PHead s k 0))"
| push_head: "producers st p = PHead s k n \<Longrightarrow> readU32 (qmem st) c (qOffset + Q_OFF_HEAD) = Some h \<Longrightarrow>
    mpsc_step c qOffset st (set_producer st p (PTail s k n h))"
| push_full: "producers st p = PTail s k n h \<Longrightarrow> readU32 (qmem st) c (qOffset + Q_OFF_TAIL) = Some t \<Longrightarrow>
    t - h \<ge> of_nat (QueueSize - 1) \<Longrightarrow>
    mpsc_step c qOffset st (set_producer st p (if n < 75 then PHead s k (n + 1) else PIdle))"
| push_room: "producers st p = PTail s k n h \<Longrightarrow> readU32 (qmem st) c (qOffset + Q_OFF_TAIL) = Some t \<Longrightarrow>
    \<not> t - h \<ge> of_nat (QueueSize - 1) \<Longrightarrow> mpsc_step c qOffset st (set_producer st p (PCas s k n h t))"
| push_claim: "producers st p = PCas s k n h t \<Longrightarrow> casU32 (qmem st) c (qOffset + Q_OFF_TAIL) t (t + 1) = Some (m', True) \<Longrightarrow>
    mpsc_step c qOffset st ((set_producer st p (PStore s k t))\<lparr>qmem := m', claims := claims st @ [(s, k AND NOT Q_READY_BIT)]\<rparr>)"
| push_retry: "producers st p = PCas s k n h t \<Longrightarrow> casU32 (qmem st) c (qOffset + Q_OFF_TAIL) t (t + 1) = Some (m', False) \<Longrightarrow>
    mpsc_step c qOffset st ((set_producer st p (PHead s k n))\<lparr>qmem := m'\<rparr>)"
| push_store: "producers st p = PStore s k t \<Longrightarrow>
    GetPointer (ctl_stripe c) (queue_entry_off qOffset (unat (t mod of_nat QueueSize))) = Some (Some ptr) \<Longrightarrow>
    mpsc_step c qOffset st ((set_producer st p PIdle)\<lparr>qmem := store64 (qmem st) ptr (packed_entry s k)\<rparr>)"
| pop_head: "consumer st = CIdle \<Longrightarrow> readU32 (qmem st) c (qOffset + Q_OFF_HEAD) = Some h \<Longrightarrow>
    mpsc_step c qOffset st (st\<lparr>consumer := CTail h\<rparr>)"
| pop_tail: "consumer st = CTail h \<Longrightarrow> readU32 (qmem st) c (qOffset + Q_OFF_TAIL) = Some t \<Longrightarrow>
    mpsc_step c qOffset st (st\<lparr>consumer := (if h = t then CIdle else CPoll h)\<rparr>)"
| pop_poll: "consumer st = CPoll h \<Longrightarrow>
    GetPointer (ctl_stripe c) (queue_entry_off qOffset (unat (h mod of_nat QueueSize))) = Some (Some ptr) \<Longrightarrow>
    mpsc_step c qOffset st (st\<lparr>consumer := (if word_ready (load64 (qmem st) ptr) then CClear h (load64 (qmem st) ptr) else CPoll h)\<rparr>)"
| pop_clear: "consumer st = CClear h w \<Longrightarrow>
    GetPointer (ctl_stripe c) (queue_entry_off qOffset (unat (h mod of_nat QueueSize))) = Some (Some ptr) \<Longrightarrow>
    mpsc_step c qOffset st (st\<lparr>qmem := store64 (qmem st) ptr 0, consumer := CAdv h w\<rparr>)"
| pop_return: "consumer st = CAdv h w \<Longrightarrow> writeU32 (qmem st) c (qOffset + Q_OFF_HEAD) (h + 1) = Some m' \<Longrightarrow>
    mpsc_step c qOffset st (st\<lparr>qmem := m', consumer := CIdle, popped := popped st @ [word_item w]\<rparr>)"

inductive mpsc_reach :: "control \<Rightarrow> nat \<Rightarrow> mpsc \<Rightarrow> mpsc \<Rightarrow> bool" for c qOffset where
  here: "mpsc_reach c qOffset st st"
| step: "mpsc_reach c qOffset st st1 \<Longrightarrow> mpsc_step c qOffset st1 st2 \<Longrightarrow> mpsc_reach c qOffset st st2"

subsection \<open>The ring\<close>

text \<open>
  The state of a queue apart from its representation: head and tail counters \<open>H\<close> and \<open>T\<close>, the entries \<open>e\<close> of
  the ring, the producers \<open>wr\<close> that have claimed an index and are about to store their message there,
  whether the consumer has cleared the entry at the head (\<open>clr\<close>), and all claims \<open>cl\<close> so far.
  An index in the window is settled when its entry is the claimed message, and owed when a producer
  is about to store it; outside the window the ring is zero.
\<close>

definition settled :: "nat \<Rightarrow> (nat \<Rightarrow> nat) \<Rightarrow> bool \<Rightarrow> (uint32 \<times> uint32) list \<Rightarrow> nat \<Rightarrow> bool" where
  "settled H e clr cl i \<longleftrightarrow> (if clr \<and> i = H then e (i mod QueueSize) = 0
     else entry_ready (e (i mod QueueSize)) \<and> entry_item (e (i mod QueueSize)) = cl ! i)"

definition owed :: "nat \<Rightarrow> nat \<Rightarrow> (nat \<Rightarrow> nat) \<Rightarrow> bool \<Rightarrow> (uint32 \<times> uint32) list \<Rightarrow> uint32 \<times> uint32 \<times> nat \<Rightarrow> bool" where
  "owed H T e clr cl x \<longleftrightarrow> (case x of (s, k, i) \<Rightarrow>
     H \<le> i \<and> i < T \<and> cl ! i = (s, k AND NOT Q_READY_BIT) \<and> e (i mod QueueSize) = 0 \<and> \<not> (clr \<and> i = H))"

definition ring_ok ::
  "nat \<Rightarrow> nat \<Rightarrow> (nat \<Rightarrow> nat) \<Rightarrow> (nat \<Rightarrow> (uint32 \<times> uint32 \<times> nat) option) \<Rightarrow> bool \<Rightarrow> (uint32 \<times> uint32) list \<Rightarrow> bool" where
  "ring_ok H T e wr clr cl \<longleftrightarrow> T = length cl \<and> H \<le> T \<and> T - H \<le> QueueSize - 1 \<and> (clr \<longrightarrow> H < T)
     \<and> (\<forall>j < QueueSize. (\<forall>i. H \<le> i \<longrightarrow> i < T \<longrightarrow> i mod QueueSize \<noteq> j) \<longrightarrow> e j = 0)
     \<and> (\<forall>i. H \<le> i \<longrightarrow> i < T \<longrightarrow> (\<forall>p s k. wr p \<noteq> Some (s, k, i)) \<longrightarrow> settled H e clr cl i)
     \<and> (\<forall>p x. wr p = Some x \<longrightarrow> owed H T e clr cl x)
     \<and> (\<forall>p p' s k s' k' i. wr p = Some (s, k, i) \<longrightarrow> wr p' = Some (s', k', i) \<longrightarrow> p' = p)"

lemma ring_okD:
  assumes "ring_ok H T e wr clr cl"
  shows "T = length cl" "H \<le> T" "T - H \<le> QueueSize - 1" "clr \<Longrightarrow> H < T"
    "j < QueueSize \<Longrightarrow> (\<And>i. H \<le> i \<Longrightarrow> i < T \<Longrightarrow> i mod QueueSize \<noteq> j) \<Longrightarrow> e j = 0"
    "H \<le> i \<Longrightarrow> i < T \<Longrightarrow> \<forall>p s k. wr p \<noteq> Some (s, k, i) \<Longrightarrow> settled H e clr cl i"
    "wr p = Some x \<Longrightarrow> owed H T e clr cl x"
    "wr p = Some (s, k, i) \<Longrightarrow> wr p' = Some (s', k', i) \<Longrightarrow> p' = p"
  using assms unfolding ring_ok_def by blast+

lemma ring_okI:
  assumes "T = length cl" "H \<le> T" "T - H \<le> QueueSize - 1" "clr \<Longrightarrow> H < T"
    "\<And>j. j < QueueSize \<Longrightarrow> (\<And>i. H \<le> i \<Longrightarrow> i < T \<Longrightarrow> i mod QueueSize \<noteq> j) \<Longrightarrow> e j = 0"
    "\<And>i. H \<le> i \<Longrightarrow> i < T \<Longrightarrow> \<forall>p s k. wr p \<noteq> Some (s, k, i) \<Longrightarrow> settled H e clr cl i"
    "\<And>p s k i. wr p = Some (s, k, i) \<Longrightarrow> owed H T e clr cl (s, k, i)"
    "\<And>p s k i p' s' k'. wr p = Some (s, k, i) \<Longrightarrow> wr p' = Some (s', k', i) \<Longrightarrow> p' = p"
  shows "ring_ok H T e wr clr cl"
proof -
  have "\<forall>p x. wr p = Some x \<longrightarrow> owed H T e clr cl x" using assms(7) by auto
  then show ?thesis unfolding ring_ok_def using assms(1-6,8) by blast
qed

lemma owedD:
  assumes "owed H T e clr cl (s, k, i)"
  shows "H \<le> i" "i < T" "cl ! i = (s, k AND NOT Q_READY_BIT)" "e (i mod QueueSize) = 0" "clr \<Longrightarrow> i \<noteq> H"
  using assms by (auto simp: owed_def)

lemma mod_QueueSize [simp]: "i mod QueueSize < QueueSize"
  by (simp add: QueueSize_def)

lemma ring_ok_cong:
  assumes "\<And>j. j < QueueSize \<Longrightarrow> e j = e' j"
  shows "ring_ok H T e wr clr cl = ring_ok H T e' wr clr cl"
proof -
  have "settled H e clr cl = settled H e' clr cl" "owed H T e clr cl = owed H T e' clr cl"
    using assms[of "_ mod QueueSize"] by (simp_all add: fun_eq_iff settled_def owed_def)
  then show ?thesis using assms unfolding ring_ok_def by simp
qed

lemma window_index:
  assumes "H \<le> i" "i < T" "H \<le> j" "j < T" "T - H \<le> QueueSize - 1"
  shows "i mod QueueSize = j mod QueueSize \<longleftrightarrow> i = j"
proof -
  have q: "0 < QueueSize" by (simp add: QueueSize_def)
  have "a mod QueueSize \<noteq> b mod QueueSize" if "H \<le> a" "a < b" "b < T" for a b
    using that assms(5) q by (intro ring_distinct) linarith+
  from this[of i j] this[of j i] assms(1-4) show ?thesis by (metis linorder_neqE_nat)
qed

lemma window_end:
  assumes "H \<le> i" "i < T" "T - H < QueueSize - 1"
  shows "i mod QueueSize \<noteq> T mod QueueSize"
  using assms by (intro ring_distinct) linarith+

lemma entry_item_word: "entry_item (unat w) = word_item w" "entry_ready (unat w) = word_ready w"
  by (simp_all add: entry_item_def word_item_def entry_ready_def word_ready_def)

lemma not_ready_0 [simp]: "\<not> word_ready 0" "\<not> entry_ready 0"
  by (simp_all add: word_ready_def entry_ready_def)

text \<open>The four steps that change it: a claim, a store, the clearing of the head entry, and the advance of the head.\<close>

lemma ring_claim:
  assumes ok: "ring_ok H T e wr clr cl" and room: "T - H < QueueSize - 1" and p: "wr p = None"
  shows "ring_ok H (Suc T) e (wr(p \<mapsto> (s, k, T))) clr (cl @ [(s, k AND NOT Q_READY_BIT)])"
    (is "ring_ok H (Suc T) e ?wr clr ?cl")
proof -
  note D = ring_okD[OF ok]
  have new: "wr p' \<noteq> Some (s', k', T)" for p' s' k' using D(7)[of p' "(s', k', T)"] by (auto simp: owed_def)
  have zero: "e (T mod QueueSize) = 0" using window_end[OF _ _ room] by (intro D(5)) auto
  show ?thesis
  proof (rule ring_okI)
    show "e j = 0" if "j < QueueSize" "\<And>i. H \<le> i \<Longrightarrow> i < Suc T \<Longrightarrow> i mod QueueSize \<noteq> j" for j
      using that by (intro D(5)) auto
    show "settled H e clr ?cl i" if i: "H \<le> i" "i < Suc T" "\<forall>p s k. ?wr p \<noteq> Some (s, k, i)" for i
    proof -
      have "i \<noteq> T" using i(3)[rule_format, of p] by auto
      moreover have "\<forall>p s k. wr p \<noteq> Some (s, k, i)" using i(3) p by (metis fun_upd_other option.distinct(1))
      ultimately have "settled H e clr cl i" "i < T" using D(6)[of i] i(1,2) by simp_all
      then show ?thesis using D(1) by (auto simp: settled_def nth_append)
    qed
    show "owed H (Suc T) e clr ?cl (s', k', i)" if "?wr p' = Some (s', k', i)" for p' s' k' i
      using that D(1,2,4) zero D(7)[of p' "(s', k', i)"] by (auto simp: owed_def nth_append split: if_splits)
    show "p' = p''" if "?wr p'' = Some (s', k', i)" "?wr p' = Some (s'', k'', i)" for p' p'' s' k' s'' k'' i
      using that new D(8) by (auto split: if_splits)
  qed (use D(1-4) room in simp_all)
qed

lemma ring_store:
  assumes ok: "ring_ok H T e wr clr cl" and p: "wr p = Some (s, k, i)"
    and v: "entry_ready v" "entry_item v = (s, k AND NOT Q_READY_BIT)"
  shows "ring_ok H T (e(i mod QueueSize := v)) (wr(p := None)) clr cl" (is "ring_ok H T ?e ?wr clr cl")
proof -
  note D = ring_okD[OF ok]
  note o = owedD[OF D(7)[OF p]]
  have e: "?e (j mod QueueSize) = (if j = i then v else e (j mod QueueSize))" if "H \<le> j" "j < T" for j
    using window_index[OF that o(1,2) D(3)] by auto
  show ?thesis
  proof (rule ring_okI)
    show "?e j = 0" if "j < QueueSize" "\<And>i. H \<le> i \<Longrightarrow> i < T \<Longrightarrow> i mod QueueSize \<noteq> j" for j
      using that(2)[OF o(1,2)] D(5)[OF that] by auto
    show "settled H ?e clr cl j" if j: "H \<le> j" "j < T" "\<forall>p s k. ?wr p \<noteq> Some (s, k, j)" for j
    proof (cases "j = i")
      case True
      then show ?thesis unfolding settled_def e[OF j(1,2)] using o(3,5) v by auto
    next
      case False
      then have "\<forall>p s k. wr p \<noteq> Some (s, k, j)" using j(3) p by (metis Pair_inject fun_upd_other option.inject)
      from D(6)[OF j(1,2) this] show ?thesis unfolding settled_def e[OF j(1,2)] using False by auto
    qed
    show "owed H T ?e clr cl (s', k', j)" if x: "?wr p' = Some (s', k', j)" for p' s' k' j
    proof -
      have p': "p' \<noteq> p" "wr p' = Some (s', k', j)" using x by (auto split: if_splits)
      note o' = owedD[OF D(7)[OF p'(2)]]
      have "j \<noteq> i" using D(8)[OF p] p' by auto
      then show ?thesis unfolding owed_def prod.case e[OF o'(1,2)] using o' by simp
    qed
    show "p' = p''" if "?wr p'' = Some (s', k', i)" "?wr p' = Some (s'', k'', i)" for p' p'' s' k' s'' k'' i
      using that D(8) by (auto split: if_splits)
  qed (use D(1-4) in simp_all)
qed

lemma ring_clear:
  assumes ok: "ring_ok H T e wr False cl" and H: "H < T" "entry_ready (e (H mod QueueSize))"
  shows "entry_item (e (H mod QueueSize)) = cl ! H" "ring_ok H T (e(H mod QueueSize := 0)) wr True cl"
proof -
  note D = ring_okD[OF ok]
  have no: "\<forall>p s k. wr p \<noteq> Some (s, k, H)" using owedD(4)[OF D(7)] H(2) by (metis not_ready_0(2))
  show "entry_item (e (H mod QueueSize)) = cl ! H" using D(6)[OF order_refl H(1) no] by (simp add: settled_def)
  let ?e = "e(H mod QueueSize := 0)"
  have e: "?e (j mod QueueSize) = (if j = H then 0 else e (j mod QueueSize))" if "H \<le> j" "j < T" for j
    using window_index[OF that order_refl H(1) D(3)] by auto
  show "ring_ok H T ?e wr True cl"
  proof (rule ring_okI)
    show "?e j = 0" if "j < QueueSize" "\<And>i. H \<le> i \<Longrightarrow> i < T \<Longrightarrow> i mod QueueSize \<noteq> j" for j
      using D(5)[OF that] by simp
    show "settled H ?e True cl j" if "H \<le> j" "j < T" "\<forall>p s k. wr p \<noteq> Some (s, k, j)" for j
      using D(6)[OF that] unfolding settled_def e[OF that(1,2)] by auto
    show "owed H T ?e True cl (s, k, j)" if x: "wr p = Some (s, k, j)" for p s k j
    proof -
      note o = owedD[OF D(7)[OF x]]
      have "j \<noteq> H" using no x by auto
      then show ?thesis unfolding owed_def prod.case e[OF o(1,2)] using o by simp
    qed
  qed (use D(1-3,8) H(1) in simp_all)
qed

lemma ring_return:
  assumes ok: "ring_ok H T e wr True cl"
  shows "ring_ok (Suc H) T e wr False cl"
proof -
  note D = ring_okD[OF ok]
  have H: "H < T" using D(4) by simp
  have no: "\<forall>p s k. wr p \<noteq> Some (s, k, H)" using owedD(5)[OF D(7)] by blast
  have z: "e (H mod QueueSize) = 0" using D(6)[OF order_refl H no] by (simp add: settled_def)
  show ?thesis
  proof (rule ring_okI)
    show "e j = 0" if j: "j < QueueSize" "\<And>i. Suc H \<le> i \<Longrightarrow> i < T \<Longrightarrow> i mod QueueSize \<noteq> j" for j
    proof (cases "j = H mod QueueSize")
      case False
      then have "i mod QueueSize \<noteq> j" if "H \<le> i" "i < T" for i using that j(2)[of i] by (cases "i = H") auto
      then show ?thesis by (rule D(5)[OF j(1)])
    qed (simp add: z)
    show "settled (Suc H) e False cl j" if "Suc H \<le> j" "j < T" "\<forall>p s k. wr p \<noteq> Some (s, k, j)" for j
      using D(6)[of j] that by (simp add: settled_def)
    show "owed (Suc H) T e False cl (s, k, j)" if "wr p = Some (s, k, j)" for p s k j
      using owedD[OF D(7)[OF that]] by (simp add: owed_def)
  qed (use D(1-3,8) H in simp_all)
qed

subsection \<open>The invariant\<close>

abbreviation qh :: "control \<Rightarrow> nat \<Rightarrow> mpsc \<Rightarrow> nat" where
  "qh c q st \<equiv> fget c (qmem st) (QHead q)"

abbreviation qt :: "control \<Rightarrow> nat \<Rightarrow> mpsc \<Rightarrow> nat" where
  "qt c q st \<equiv> fget c (qmem st) (QTail q)"

abbreviation qe :: "control \<Rightarrow> nat \<Rightarrow> mpsc \<Rightarrow> nat \<Rightarrow> nat" where
  "qe c q st \<equiv> \<lambda>j. fget c (qmem st) (QEntry q j)"

definition storing :: "mpsc \<Rightarrow> nat \<Rightarrow> (uint32 \<times> uint32 \<times> nat) option" where
  "storing st p = (case producers st p of PStore s k t \<Rightarrow> Some (s, k, unat t) | _ \<Rightarrow> None)"

definition cleared :: "mpsc \<Rightarrow> bool" where
  "cleared st \<longleftrightarrow> (\<exists>h w. consumer st = CAdv h w)"

fun producer_ok :: "nat \<Rightarrow> nat \<Rightarrow> producer \<Rightarrow> bool" where
  "producer_ok H T (PTail s k n h) = (unat h \<le> H)"
| "producer_ok H T (PCas s k n h t) = (unat h \<le> H \<and> unat t \<le> T \<and> unat h \<le> unat t \<and> unat t - unat h < QueueSize - 1)"
| "producer_ok H T _ = True"

fun consumer_ok :: "nat \<Rightarrow> nat \<Rightarrow> (nat \<Rightarrow> nat) \<Rightarrow> (uint32 \<times> uint32) list \<Rightarrow> consumer \<Rightarrow> bool" where
  "consumer_ok H T e cl CIdle = True"
| "consumer_ok H T e cl (CTail h) = (unat h = H)"
| "consumer_ok H T e cl (CPoll h) = (unat h = H \<and> H < T)"
| "consumer_ok H T e cl (CClear h w) = (unat h = H \<and> H < T \<and> unat w = e (H mod QueueSize) \<and> word_ready w)"
| "consumer_ok H T e cl (CAdv h w) = (unat h = H \<and> H < T \<and> word_item w = cl ! H)"

definition mpsc_inv :: "control \<Rightarrow> nat \<Rightarrow> mpsc \<Rightarrow> bool" where
  "mpsc_inv c q st \<longleftrightarrow> ring_ok (qh c q st) (qt c q st) (qe c q st) (storing st) (cleared st) (claims st)
     \<and> popped st = take (qh c q st) (claims st)
     \<and> (\<forall>p. producer_ok (qh c q st) (qt c q st) (producers st p))
     \<and> consumer_ok (qh c q st) (qt c q st) (qe c q st) (claims st) (consumer st)"

lemma mpsc_invD:
  assumes "mpsc_inv c q st"
  shows "ring_ok (qh c q st) (qt c q st) (qe c q st) (storing st) (cleared st) (claims st)"
    "popped st = take (qh c q st) (claims st)" "producer_ok (qh c q st) (qt c q st) (producers st p)"
    "consumer_ok (qh c q st) (qt c q st) (qe c q st) (claims st) (consumer st)"
  using assms by (simp_all add: mpsc_inv_def)

lemma storing_simps [simp]:
  "storing (st\<lparr>qmem := m\<rparr>) = storing st" "storing (st\<lparr>consumer := x\<rparr>) = storing st"
  "storing (st\<lparr>claims := cl\<rparr>) = storing st" "storing (st\<lparr>popped := l\<rparr>) = storing st"
  "cleared (st\<lparr>qmem := m\<rparr>) = cleared st" "cleared (st\<lparr>producers := ps\<rparr>) = cleared st"
  "cleared (st\<lparr>claims := cl\<rparr>) = cleared st" "cleared (st\<lparr>popped := l\<rparr>) = cleared st"
  by (simp_all add: storing_def cleared_def fun_eq_iff)

lemma storing_move:
  "storing (set_producer st p x) = (storing st)(p := (case x of PStore s k t \<Rightarrow> Some (s, k, unat t) | _ \<Rightarrow> None))"
  by (simp add: storing_def fun_eq_iff)

lemma producer_ok_mono: "producer_ok H T x \<Longrightarrow> H \<le> H' \<Longrightarrow> T \<le> T' \<Longrightarrow> producer_ok H' T' x"
  by (cases x) auto

subsection \<open>Every step keeps the invariant\<close>

lemma queue_read:
  assumes "ctl_ok c" "q < MaxNodes" "readU32 m c (GetNodeReqQueueOffset q + Q_OFF_HEAD) = Some h"
  shows "unat h = fget c m (QHead q)"
proof -
  have "h = of_nat (fget c m (QHead q))" using assms read_field[of c "QHead q" m] by (simp add: MaxNodes_def)
  then show ?thesis using unat_of_nat32 fget_less[of c m "QHead q"] by simp
qed

lemma queue_read_tail:
  assumes "ctl_ok c" "q < MaxNodes" "readU32 m c (GetNodeReqQueueOffset q + Q_OFF_TAIL) = Some t"
  shows "unat t = fget c m (QTail q)"
proof -
  have "t = of_nat (fget c m (QTail q))" using assms read_field[of c "QTail q" m] by (simp add: MaxNodes_def)
  then show ?thesis using unat_of_nat32 fget_less[of c m "QTail q"] by simp
qed

lemma queue_cas:
  assumes c: "ctl_ok c" "q < MaxNodes" and cas: "casU32 m c (GetNodeReqQueueOffset q + Q_OFF_TAIL) t (t + 1) = Some (m', ok)"
  shows "if ok then unat t = fget c m (QTail q) \<and> m' = fput c m (QTail q) (unat (t + 1)) else m' = m"
proof -
  have "(of_nat (fget c m (QTail q)) = t) = ok \<and> m' = (if ok then fput c m (QTail q) (unat (t + 1)) else m)"
    using cas cas_field[OF c(1), of "QTail q" m t "t + 1"] c(2) by (auto split: if_splits)
  then show ?thesis using unat_of_nat32 fget_less[of c m "QTail q"] by auto
qed

lemma queue_entry_ptr:
  fixes t :: uint32
  assumes c: "ctl_ok c" "q < MaxNodes"
    and ptr: "GetPointer (ctl_stripe c) (queue_entry_off (GetNodeReqQueueOffset q) (unat (t mod of_nat QueueSize))) = Some (Some ptr)"
  shows "ptr = fptr c (QEntry q (unat t mod QueueSize))"
proof -
  have "unat (t mod of_nat QueueSize) = unat t mod QueueSize" by (simp add: unat_mod QueueSize_def)
  moreover have "field_valid (QEntry q (unat t mod QueueSize))" using c(2) by (simp add: QueueSize_def)
  ultimately show ?thesis using ptr GetPointer_field[OF c(1)] by fastforce
qed

lemma room_nat:
  assumes "unat h \<le> unat t" "\<not> of_nat (QueueSize - 1) \<le> (t - h :: uint32)"
  shows "unat t - unat h < QueueSize - 1"
proof -
  have "unat (t - h) = unat t - unat h" using assms(1) by (simp add: unat_sub word_le_nat_alt)
  moreover have "unat (of_nat (QueueSize - 1) :: uint32) = QueueSize - 1" by (simp add: QueueSize_def)
  ultimately show ?thesis using assms(2) by (simp add: word_le_nat_alt not_le)
qed

lemma claims_grow: "mpsc_step c qo st st' \<Longrightarrow> length (claims st) \<le> length (claims st')"
  by (induction rule: mpsc_step.induct) simp_all

lemma mpsc_producer_move:
  assumes inv: "mpsc_inv c q st" and old: "\<forall>s k t. producers st p \<noteq> PStore s k t"
    and new: "\<forall>s k t. x \<noteq> PStore s k t" "producer_ok (qh c q st) (qt c q st) x"
  shows "mpsc_inv c q (set_producer st p x)"
proof -
  have "storing (set_producer st p x) = storing st"
    using old new(1) by (auto simp: storing_def fun_eq_iff split: producer.splits)
  then show ?thesis using mpsc_invD[OF inv] new(2) by (simp add: mpsc_inv_def)
qed

lemma mpsc_consumer_move:
  assumes inv: "mpsc_inv c q st" and old: "\<not> cleared st" and new: "\<forall>h w. x \<noteq> CAdv h w"
    "consumer_ok (qh c q st) (qt c q st) (qe c q st) (claims st) x"
  shows "mpsc_inv c q (st\<lparr>consumer := x\<rparr>)"
proof -
  have "cleared (st\<lparr>consumer := x\<rparr>) = cleared st" using old new(1) by (simp add: cleared_def)
  then show ?thesis using mpsc_invD[OF inv] new(2) by (simp add: mpsc_inv_def)
qed

lemma mpsc_room:
  assumes c: "ctl_ok c" "q < MaxNodes" and inv: "mpsc_inv c q st" and p: "producers st p = PTail s k n h"
    and t: "readU32 (qmem st) c (GetNodeReqQueueOffset q + Q_OFF_TAIL) = Some t" "\<not> of_nat (QueueSize - 1) \<le> t - h"
  shows "mpsc_inv c q (set_producer st p (PCas s k n h t))"
proof -
  have t': "unat t = qt c q st" by (rule queue_read_tail[OF c t(1)])
  have h: "unat h \<le> qh c q st" using mpsc_invD(3)[OF inv, of p] p by simp
  then have "unat h \<le> unat t" using t' ring_okD(2)[OF mpsc_invD(1)[OF inv]] by simp
  then have "producer_ok (qh c q st) (qt c q st) (PCas s k n h t)" using h t' room_nat[OF _ t(2)] by simp
  then show ?thesis using p by (intro mpsc_producer_move[OF inv]) simp_all
qed

lemma mpsc_claim:
  assumes c: "ctl_ok c" "q < MaxNodes" and inv: "mpsc_inv c q st" and p: "producers st p = PCas s k n h t"
    and cas: "casU32 (qmem st) c (GetNodeReqQueueOffset q + Q_OFF_TAIL) t (t + 1) = Some (m', True)"
    and nowrap: "Suc (length (claims st)) < 4294967296"
  shows "mpsc_inv c q ((set_producer st p (PStore s k t))\<lparr>qmem := m', claims := claims st @ [(s, k AND NOT Q_READY_BIT)]\<rparr>)"
    (is "mpsc_inv c q ?st")
proof -
  let ?H = "qh c q st" and ?T = "qt c q st"
  note I = mpsc_invD[OF inv] and R = ring_okD[OF mpsc_invD(1)[OF inv]]
  have t: "unat t = ?T" "m' = fput c (qmem st) (QTail q) (unat (t + 1))" using queue_cas[OF c cas] by simp_all
  have nw: "Suc ?T < 4294967296" using nowrap R(1) by simp
  have "t = of_nat (unat t)" by simp
  then have "t = of_nat ?T" unfolding t(1) .
  then have m': "m' = fput c (qmem st) (QTail q) (Suc ?T)" using t(2) of_nat_succ[OF nw] by simp
  have f: "fget c m' f = (if f = QTail q then Suc ?T else fget c (qmem st) f)" if "field_valid f" for f
    using that c nw by (auto simp: m' fget_fput)
  have ht: "fget c m' (QHead q) = ?H" "fget c m' (QTail q) = Suc ?T"
    and en: "\<And>j. j < QueueSize \<Longrightarrow> fget c m' (QEntry q j) = qe c q st j" using c by (simp_all add: f)
  have "?T - ?H < QueueSize - 1" using I(3)[of p] p t(1) by auto
  from ring_claim[OF I(1) this, of p s k] have "ring_ok ?H (Suc ?T) (qe c q st) ((storing st)(p \<mapsto> (s, k, ?T))) (cleared st) (claims ?st)"
    using p by (simp add: storing_def)
  then have "ring_ok ?H (Suc ?T) (qe c q ?st) ((storing st)(p \<mapsto> (s, k, ?T))) (cleared st) (claims ?st)"
    by (rule iffD1[OF ring_ok_cong, rotated]) (simp add: en)
  moreover have "consumer_ok ?H (Suc ?T) (qe c q ?st) (claims ?st) (consumer st)"
    using I(4) R(1) en by (cases "consumer st") (simp_all add: nth_append)
  moreover have "producer_ok ?H (Suc ?T) (producers st p')" for p' by (rule producer_ok_mono[OF I(3)]) simp_all
  ultimately show ?thesis using ht t(1) I(2) R(1,2) by (simp add: mpsc_inv_def storing_move)
qed

text \<open>Writing an entry of the ring.\<close>

lemma fget_entry:
  assumes "ctl_ok c" "q < MaxNodes" "v < field_max (QEntry q 0)" "i < QueueSize"
  shows "fget c (fput c m (QEntry q i) v) (QHead q) = fget c m (QHead q)" "fget c (fput c m (QEntry q i) v) (QTail q) = fget c m (QTail q)"
    "j < QueueSize \<Longrightarrow> fget c (fput c m (QEntry q i) v) (QEntry q j) = ((\<lambda>j. fget c m (QEntry q j))(i := v)) j"
  using assms by (auto simp: fget_fput)

lemma mpsc_store:
  assumes c: "ctl_ok c" "q < MaxNodes" and inv: "mpsc_inv c q st" and p: "producers st p = PStore s k t"
  shows "mpsc_inv c q ((set_producer st p PIdle)\<lparr>qmem := fput c (qmem st) (QEntry q (unat t mod QueueSize)) (unat (packed_entry s k))\<rparr>)"
    (is "mpsc_inv c q ?st")
proof -
  let ?H = "qh c q st" and ?T = "qt c q st" and ?i = "unat t mod QueueSize" and ?v = "unat (packed_entry s k)"
  note I = mpsc_invD[OF inv] and R = ring_okD[OF mpsc_invD(1)[OF inv]]
  note f = fget_entry[OF c entry_packed(3)[of s k] mod_QueueSize]
  have sp: "storing st p = Some (s, k, unat t)" using p by (simp add: storing_def)
  note o = owedD[OF R(7)[OF sp]]
  have "ring_ok ?H ?T ((qe c q st)(?i := ?v)) ((storing st)(p := None)) (cleared st) (claims st)"
    by (rule ring_store[OF I(1) sp entry_packed(2,1)])
  then have "ring_ok ?H ?T (qe c q ?st) ((storing st)(p := None)) (cleared st) (claims st)"
    by (rule iffD1[OF ring_ok_cong, rotated]) (simp add: f(3))
  moreover have "consumer_ok ?H ?T (qe c q ?st) (claims st) (consumer st)"
  proof (cases "consumer st")
    case (CClear h w)
    then have w: "?H < ?T" "unat w = qe c q st (?H mod QueueSize)" "word_ready w" using I(4) by simp_all
    then have "qe c q st (?H mod QueueSize) \<noteq> 0" by (metis not_ready_0(1) unat_eq_zero)
    then have "?H mod QueueSize \<noteq> ?i" using o(4) by auto
    then show ?thesis using CClear I(4) f(3)[of "?H mod QueueSize"] by simp
  qed (use I(4) in simp_all)
  ultimately show ?thesis using f(1,2) I(2,3) by (simp add: mpsc_inv_def storing_move)
qed

lemma mpsc_clear:
  assumes c: "ctl_ok c" "q < MaxNodes" and inv: "mpsc_inv c q st" and cs: "consumer st = CClear h w"
  shows "mpsc_inv c q (st\<lparr>qmem := fput c (qmem st) (QEntry q (qh c q st mod QueueSize)) 0, consumer := CAdv h w\<rparr>)"
    (is "mpsc_inv c q ?st")
proof -
  let ?H = "qh c q st" and ?T = "qt c q st"
  note I = mpsc_invD[OF inv]
  have "0 < field_max (QEntry q 0)" by simp
  note f = fget_entry[OF c this mod_QueueSize]
  have w: "unat h = ?H" "?H < ?T" "unat w = qe c q st (?H mod QueueSize)" "word_ready w" using I(4) cs by simp_all
  have "\<not> cleared st" "cleared ?st" using cs by (simp_all add: cleared_def)
  moreover have "entry_ready (qe c q st (?H mod QueueSize))" using w(3,4) by (metis entry_item_word(2))
  moreover note ring_clear[of ?H ?T "qe c q st" "storing st" "claims st"] I(1) w(2)
  ultimately have r: "entry_item (qe c q st (?H mod QueueSize)) = claims st ! ?H"
    "ring_ok ?H ?T ((qe c q st)(?H mod QueueSize := 0)) (storing st) (cleared ?st) (claims st)" by simp_all
  from r(2) have "ring_ok ?H ?T (qe c q ?st) (storing st) (cleared ?st) (claims st)"
    by (rule iffD1[OF ring_ok_cong, rotated]) (simp add: f(3))
  moreover have "word_item w = claims st ! ?H" using r(1) w(3) by (metis entry_item_word(1))
  ultimately show ?thesis using w(1,2) f(1,2) I(2,3) by (simp add: mpsc_inv_def)
qed

lemma mpsc_return:
  assumes c: "ctl_ok c" "q < MaxNodes" and inv: "mpsc_inv c q st" and cs: "consumer st = CAdv h w"
    and wr: "writeU32 (qmem st) c (GetNodeReqQueueOffset q + Q_OFF_HEAD) (h + 1) = Some m'"
  shows "mpsc_inv c q (st\<lparr>qmem := m', consumer := CIdle, popped := popped st @ [word_item w]\<rparr>)" (is "mpsc_inv c q ?st")
proof -
  let ?H = "qh c q st" and ?T = "qt c q st"
  note I = mpsc_invD[OF inv] and R = ring_okD[OF mpsc_invD(1)[OF inv]]
  have w: "unat h = ?H" "?H < ?T" "word_item w = claims st ! ?H" using I(4) cs by simp_all
  have nw: "Suc ?H < 4294967296" using w(2) fget_less[of c "qmem st" "QTail q"] by simp
  have "h = of_nat (unat h)" by simp
  then have "h = of_nat ?H" unfolding w(1) .
  then have m': "m' = fput c (qmem st) (QHead q) (Suc ?H)"
    using wr write_field[OF c(1), of "QHead q" "qmem st" "h + 1"] c(2) of_nat_succ[OF nw] by simp
  have f: "fget c m' f = (if f = QHead q then Suc ?H else fget c (qmem st) f)" if "field_valid f" for f
    using that c nw by (auto simp: m' fget_fput)
  have ht: "fget c m' (QHead q) = Suc ?H" "fget c m' (QTail q) = ?T"
    and en: "\<And>j. j < QueueSize \<Longrightarrow> fget c m' (QEntry q j) = qe c q st j" using c by (simp_all add: f)
  have cl: "cleared st" "\<not> cleared ?st" using cs by (simp_all add: cleared_def)
  then have "ring_ok (Suc ?H) ?T (qe c q st) (storing st) (cleared ?st) (claims st)" using ring_return I(1) by simp
  then have "ring_ok (Suc ?H) ?T (qe c q ?st) (storing st) (cleared ?st) (claims st)"
    by (rule iffD1[OF ring_ok_cong, rotated]) (simp add: en)
  moreover have "popped ?st = take (Suc ?H) (claims st)" using I(2) w(2,3) R(1) by (simp add: take_Suc_conv_app_nth)
  moreover have "producer_ok (Suc ?H) ?T (producers st p)" for p by (rule producer_ok_mono[OF I(3)]) simp_all
  ultimately show ?thesis using ht by (simp add: mpsc_inv_def)
qed

lemma mpsc_poll:
  assumes c: "ctl_ok c" "q < MaxNodes" and inv: "mpsc_inv c q st" and cs: "consumer st = CPoll h"
    and ptr: "GetPointer (ctl_stripe c) (queue_entry_off (GetNodeReqQueueOffset q) (unat (h mod of_nat QueueSize))) = Some (Some ptr)"
  shows "mpsc_inv c q (st\<lparr>consumer := (if word_ready (load64 (qmem st) ptr) then CClear h (load64 (qmem st) ptr) else CPoll h)\<rparr>)"
proof -
  let ?v = "qe c q st (qh c q st mod QueueSize)"
  have h: "unat h = qh c q st" "qh c q st < qt c q st" using mpsc_invD(4)[OF inv] cs by simp_all
  have "load64 (qmem st) ptr = of_nat ?v" using queue_entry_ptr[OF c ptr] by (simp add: load64_fget h(1))
  moreover have "?v < 2 ^ 64" using fget_less[of c "qmem st" "QEntry q (qh c q st mod QueueSize)"] by simp
  ultimately have "unat (load64 (qmem st) ptr) = ?v" by (simp add: unat_of_nat)
  then show ?thesis using h cs by (intro mpsc_consumer_move[OF inv]) (simp_all add: cleared_def)
qed

lemma mpsc_inv_step:
  assumes "mpsc_step c (GetNodeReqQueueOffset q) st st'" and c: "ctl_ok c" "q < MaxNodes"
    and "mpsc_inv c q st" "length (claims st') < 4294967296"
  shows "mpsc_inv c q st'"
  using assms(1,4,5)
proof (induction rule: mpsc_step.induct)
  case (push_head st p s k n h)
  then show ?case using queue_read[OF c push_head(2)] by (intro mpsc_producer_move) simp_all
next
  case (push_room st p s k n h t)
  show ?case by (rule mpsc_room[OF c push_room(4,1,2,3)])
next
  case (push_claim st p s k n h t m')
  then show ?case by (intro mpsc_claim[OF c]) simp_all
next
  case (push_retry st p s k n h t m')
  have "m' = qmem st" using queue_cas[OF c push_retry(2)] by simp
  moreover have "mpsc_inv c q (set_producer st p (PHead s k n))" using push_retry by (intro mpsc_producer_move) simp_all
  ultimately show ?case by simp
next
  case (push_store st p s k t ptr)
  show ?case using mpsc_store[OF c push_store(3,1)] queue_entry_ptr[OF c push_store(2)] by (simp add: store64_fput)
next
  case (pop_head st h)
  then show ?case using queue_read[OF c pop_head(2)] by (intro mpsc_consumer_move) (simp_all add: cleared_def)
next
  case (pop_tail st h t)
  have t: "unat t = qt c q st" by (rule queue_read_tail[OF c pop_tail(2)])
  have h: "unat h = qh c q st" "qh c q st \<le> qt c q st"
    using mpsc_invD(4)[OF pop_tail(3)] pop_tail(1) ring_okD(2)[OF mpsc_invD(1)[OF pop_tail(3)]] by simp_all
  have "h \<noteq> t \<Longrightarrow> qh c q st < qt c q st" using t h by (metis le_neq_implies_less word_unat_eq_iff)
  then show ?case using pop_tail h by (intro mpsc_consumer_move) (auto simp: cleared_def)
next
  case (pop_poll st h ptr)
  show ?case by (rule mpsc_poll[OF c pop_poll(3,1,2)])
next
  case (pop_clear st h w ptr)
  have "unat h = qh c q st" using mpsc_invD(4)[OF pop_clear(3)] pop_clear(1) by simp
  then show ?case using mpsc_clear[OF c pop_clear(3,1)] queue_entry_ptr[OF c pop_clear(2)] by (simp add: store64_fput)
next
  case (pop_return st h w m')
  show ?case by (rule mpsc_return[OF c pop_return(3,1,2)])
qed (auto intro!: mpsc_producer_move)

lemma mpsc_inv_reach:
  assumes "mpsc_reach c (GetNodeReqQueueOffset q) st st'" "ctl_ok c" "q < MaxNodes" "mpsc_inv c q st" "length (claims st') < 4294967296"
  shows "mpsc_inv c q st'"
  using assms(1,4,5)
proof (induction rule: mpsc_reach.induct)
  case (step st st1 st2)
  have "length (claims st1) < 4294967296" using claims_grow[OF step(2)] step.prems by simp
  with step.IH mpsc_inv_step[OF step(2) assms(2,3)] step.prems show ?case by blast
qed simp

subsection \<open>Properties\<close>

text \<open>A queue nobody has used: counters and entries are zero and no call is running.\<close>

definition fresh_queue :: "control \<Rightarrow> nat \<Rightarrow> mpsc \<Rightarrow> bool" where
  "fresh_queue c q st \<longleftrightarrow> qh c q st = 0 \<and> qt c q st = 0 \<and> (\<forall>j < QueueSize. fget c (qmem st) (QEntry q j) = 0)
     \<and> (\<forall>p. producers st p = PIdle) \<and> consumer st = CIdle \<and> claims st = [] \<and> popped st = []"

lemma fresh_queue_inv: "fresh_queue c q st \<Longrightarrow> mpsc_inv c q st"
  by (simp add: fresh_queue_def mpsc_inv_def ring_ok_def storing_def cleared_def)

lemma quiet_items:
  assumes inv: "mpsc_inv c q st" and quiet: "\<forall>p. producers st p = PIdle" "consumer st = CIdle"
  shows "q_items (fget c) (qmem st) q = drop (length (popped st)) (claims st)"
proof -
  note R = ring_okD[OF mpsc_invD(1)[OF inv]]
  have len: "length (popped st) = qh c q st" using R(1,2) mpsc_invD(2)[OF inv] by simp
  have "entry_item (qe c q st (i mod QueueSize)) = claims st ! i" if "qh c q st \<le> i" "i < qt c q st" for i
    using R(6)[OF that] quiet by (simp add: storing_def cleared_def settled_def)
  then show ?thesis
    unfolding q_items_def len by (intro nth_equalityI) (simp_all add: R(1)[symmetric])
qed

definition ex_idle :: mpsc where
  "ex_idle = \<lparr>qmem = zero_mem, producers = \<lambda>_. PIdle, consumer = CIdle, claims = [], popped = []\<rparr>"

lemma ex_idle_fresh: "fresh_queue c q ex_idle"
  by (simp add: fresh_queue_def ex_idle_def)

text \<open>C2: The queue loses, duplicates and reorders nothing under concurrency. With any number of
  producers in \<open>Push\<close> and one consumer in \<open>Pop\<close>, interleaved at every memory access, the messages
  \<open>Pop\<close> has returned are at every moment the first of the messages claimed by the producers'
  compare-and-swaps, in that order; at most 509 are pending; and when no call is in progress,
  the ring holds exactly the rest. (For fewer than \<open>2 ^ 32\<close> messages in the life of the queue.)\<close>

theorem mpsc_fifo:
  assumes "ctl_ok c" and "q < MaxNodes" and "fresh_queue c q st0"
    and "mpsc_reach c (GetNodeReqQueueOffset q) st0 st" and "length (claims st) < 4294967296"
  shows "popped st = take (length (popped st)) (claims st)
    \<and> length (claims st) - length (popped st) \<le> 509
    \<and> ((\<forall>p. producers st p = PIdle) \<longrightarrow> consumer st = CIdle \<longrightarrow>
         q_items (fget c) (qmem st) q = drop (length (popped st)) (claims st))"
proof -
  have inv: "mpsc_inv c q st" by (rule mpsc_inv_reach[OF assms(4,1,2) fresh_queue_inv[OF assms(3)] assms(5)])
  note R = ring_okD(1-3)[OF mpsc_invD(1)[OF inv]] and pop = mpsc_invD(2)[OF inv]
  have "length (popped st) = qh c q st" using R(1,2) pop by simp
  with R pop quiet_items[OF inv] show ?thesis by (simp add: QueueSize_def)
qed

text \<open>One complete \<open>Push\<close> of the message (7, 1) on queue 3 by producer 0.\<close>

definition ex_pushed :: mpsc where
  "ex_pushed = ex_idle\<lparr>qmem := fput ex_ctl (fput ex_ctl zero_mem (QTail 3) 1) (QEntry 3 0) (unat (packed_entry 7 1)),
     producers := (\<lambda>_. PIdle)(0 := PIdle), claims := [(7, 1 AND NOT Q_READY_BIT)]\<rparr>"

lemma ex_push_run: "mpsc_reach ex_ctl (GetNodeReqQueueOffset 3) ex_idle ex_pushed"
proof -
  let ?q = "GetNodeReqQueueOffset 3"
  have v: "field_valid (QHead 3)" "field_valid (QTail 3)" "field_valid (QEntry 3 0)" by (simp_all add: MaxNodes_def QueueSize_def)
  have rd: "readU32 zero_mem ex_ctl (?q + Q_OFF_HEAD) = Some 0" "readU32 zero_mem ex_ctl (?q + Q_OFF_TAIL) = Some 0"
    using read_field[OF ex_ctl_ok(1) v(1), of zero_mem] read_field[OF ex_ctl_ok(1) v(2), of zero_mem] by simp_all
  have cas: "casU32 zero_mem ex_ctl (?q + Q_OFF_TAIL) 0 (0 + 1) = Some (fput ex_ctl zero_mem (QTail 3) 1, True)"
    using cas_field[OF ex_ctl_ok(1) v(2), of zero_mem 0 "0 + 1"] by simp
  have ptr: "GetPointer (ctl_stripe ex_ctl) (queue_entry_off ?q (unat ((0 :: uint32) mod of_nat QueueSize))) = Some (Some (fptr ex_ctl (QEntry 3 0)))"
    using GetPointer_field[OF ex_ctl_ok(1) v(3)] by simp
  let ?s1 = "set_producer ex_idle 0 (PHead 7 1 0)"
  let ?s2 = "set_producer ?s1 0 (PTail 7 1 0 0)"
  let ?s3 = "set_producer ?s2 0 (PCas 7 1 0 0 0)"
  let ?s4 = "(set_producer ?s3 0 (PStore 7 1 0))\<lparr>qmem := fput ex_ctl zero_mem (QTail 3) 1, claims := claims ?s3 @ [(7, 1 AND NOT Q_READY_BIT)]\<rparr>"
  have s1: "mpsc_step ex_ctl ?q ex_idle ?s1" by (rule push_start) (simp add: ex_idle_def)
  have s2: "mpsc_step ex_ctl ?q ?s1 ?s2" by (rule push_head[where n = 0]) (simp_all add: ex_idle_def rd)
  have s3: "mpsc_step ex_ctl ?q ?s2 ?s3" by (rule push_room[where n = 0]) (simp_all add: ex_idle_def rd QueueSize_def)
  have s4: "mpsc_step ex_ctl ?q ?s3 ?s4" by (rule push_claim[where n = 0 and h = 0]) (use cas in \<open>simp_all add: ex_idle_def\<close>)
  have s5: "mpsc_step ex_ctl ?q ?s4 ((set_producer ?s4 0 PIdle)\<lparr>qmem := store64 (qmem ?s4) (fptr ex_ctl (QEntry 3 0)) (packed_entry 7 1)\<rparr>)"
    by (rule push_store[where t = 0]) (use ptr in \<open>simp_all add: ex_idle_def\<close>)
  have "(set_producer ?s4 0 PIdle)\<lparr>qmem := store64 (qmem ?s4) (fptr ex_ctl (QEntry 3 0)) (packed_entry 7 1)\<rparr> = ex_pushed"
    by (simp add: ex_pushed_def ex_idle_def store64_fput)
  then show ?thesis
    using mpsc_reach.step[OF mpsc_reach.step[OF mpsc_reach.step[OF mpsc_reach.step[OF mpsc_reach.step[OF mpsc_reach.here s1] s2] s3] s4] s5]
    by (simp only:)
qed

theorem mpsc_fifo_witness:
  "mpsc_reach ex_ctl (GetNodeReqQueueOffset 3) ex_idle ex_pushed
    \<and> q_items (fget ex_ctl) (qmem ex_pushed) 3 = [(7, 1 AND NOT Q_READY_BIT)]"
  using mpsc_fifo[OF ex_ctl_ok(1) _ ex_idle_fresh ex_push_run] ex_push_run
  by (simp add: MaxNodes_def ex_pushed_def ex_idle_def)

text \<open>C16: The consumer only ever waits for a producer that is between its claim and its store: whenever
  it polls the entry at the head, that entry is ready to be taken or one producer has claimed it
  and is about to store it. So every claimed message is returned once its producer has finished.\<close>

theorem Pop_waits_only_for_store:
  assumes "ctl_ok c" and "q < MaxNodes" and "fresh_queue c q st0"
    and "mpsc_reach c (GetNodeReqQueueOffset q) st0 st" and "length (claims st) < 4294967296" and "consumer st = CPoll h"
  shows "(\<exists>p s k. producers st p = PStore s k h)
    \<or> word_ready (load64 (qmem st) (fptr c (QEntry q (unat h mod QueueSize))))"
proof -
  have inv: "mpsc_inv c q st" by (rule mpsc_inv_reach[OF assms(4,1,2) fresh_queue_inv[OF assms(3)] assms(5)])
  then have h: "unat h = qh c q st" "qh c q st < qt c q st" using mpsc_invD(4)[OF inv] assms(6) by simp_all
  show ?thesis
  proof (cases "\<exists>p s k. storing st p = Some (s, k, qh c q st)")
    case True
    then obtain p s k where "storing st p = Some (s, k, unat h)" using h by auto
    then have "producers st p = PStore s k h" by (auto simp: storing_def word_unat_eq_iff split: producer.splits)
    then show ?thesis by blast
  next
    case False
    then have "entry_ready (qe c q st (qh c q st mod QueueSize))"
      using ring_okD(6)[OF mpsc_invD(1)[OF inv] order_refl h(2)] assms(6) by (simp add: cleared_def settled_def)
    then show ?thesis by (simp add: entry_ready_def word_ready_def load64_fget h(1))
  qed
qed

lemma ex_poll_run: "mpsc_reach ex_ctl (GetNodeReqQueueOffset 3) ex_idle (ex_pushed\<lparr>consumer := CPoll 0\<rparr>)"
proof -
  let ?q = "GetNodeReqQueueOffset 3" and ?m = "qmem ex_pushed"
  have v: "field_valid (QHead 3)" "field_valid (QTail 3)" "field_valid (QEntry 3 0)" by (simp_all add: MaxNodes_def QueueSize_def)
  have g: "fget ex_ctl ?m (QHead 3) = 0" "fget ex_ctl ?m (QTail 3) = 1"
    using v by (simp_all add: ex_pushed_def fget_fput ex_ctl_ok)
  have rd: "readU32 ?m ex_ctl (?q + Q_OFF_HEAD) = Some 0" "readU32 ?m ex_ctl (?q + Q_OFF_TAIL) = Some 1"
    using read_field[OF ex_ctl_ok(1) v(1), of ?m] read_field[OF ex_ctl_ok(1) v(2), of ?m] g by simp_all
  have "mpsc_step ex_ctl ?q ex_pushed (ex_pushed\<lparr>consumer := CTail 0\<rparr>)"
    by (rule pop_head) (simp_all add: rd, simp add: ex_pushed_def ex_idle_def)
  moreover have "mpsc_step ex_ctl ?q (ex_pushed\<lparr>consumer := CTail 0\<rparr>) (ex_pushed\<lparr>consumer := CPoll 0\<rparr>)"
    using pop_tail[of "ex_pushed\<lparr>consumer := CTail 0\<rparr>" 0 ex_ctl ?q 1] rd by simp
  ultimately show ?thesis using ex_push_run by (metis mpsc_reach.step)
qed

theorem Pop_waits_only_for_store_witness:
  "word_ready (load64 (qmem ex_pushed) (fptr ex_ctl (QEntry 3 0)))"
  using Pop_waits_only_for_store[OF ex_ctl_ok(1) _ ex_idle_fresh ex_poll_run]
  by (simp add: MaxNodes_def ex_pushed_def ex_idle_def split: if_splits)

lemma Pop_loop_returns:
  assumes "Pop_loop m c qOffset h ptr = Some r"
  shows "word_ready (load64 m ptr)"
  using assms
proof (rule Pop_loop.raw_induct[rotated, where P = "\<lambda>m c qOffset h ptr r. word_ready (load64 m ptr)"])
  fix Pop_loop m c qOffset h ptr r
  assume "\<And>m c qOffset h ptr r. Pop_loop m c qOffset h ptr = Some r \<Longrightarrow> word_ready (load64 m ptr)"
    and "(let packed = load64 m ptr; cmd = ucast (drop_bit 32 packed) :: uint32; slotID = ucast (packed AND 0xFFFFFFFF) :: uint32
      in if cmd AND Q_READY_BIT \<noteq> 0 then
           Option.bind (writeU32 (store64 m ptr 0) c (qOffset + Q_OFF_HEAD) (h + 1)) (\<lambda>m'.
             Some (m', slotID, cmd AND NOT Q_READY_BIT, True))
         else Pop_loop m c qOffset h ptr) = Some r"
  then show "word_ready (load64 m ptr)" by (auto simp: Let_def word_ready_def split: if_splits)
qed

text \<open>A producer that stops between its claim and its store blocks the consumer for good: when the
  entry at the head of a non-empty queue is not ready, \<open>Pop\<close> does not return (unlike \<open>Push\<close> it has
  no limit on its spins).\<close>

theorem Pop_blocks_on_unfinished_push:
  assumes "ctl_ok c" and "q < MaxNodes" and "fget c m (QHead q) \<noteq> fget c m (QTail q)"
    and "\<not> entry_ready (fget c m (QEntry q (fget c m (QHead q) mod QueueSize)))"
  shows "Pop m c (GetNodeReqQueueOffset q) = None"
proof -
  let ?h = "fget c m (QHead q)" and ?t = "fget c m (QTail q)" and ?f = "QEntry q (fget c m (QHead q) mod QueueSize)"
  have rd: "readU32 m c (field_off (QHead q)) = Some (of_nat ?h)" "readU32 m c (field_off (QTail q)) = Some (of_nat ?t)"
    using assms(1,2) by (simp_all add: read_field del: field_off.simps)
  have lt: "?h < 4294967296" "?t < 4294967296" using fget_less[of c m "QHead q"] fget_less[of c m "QTail q"] by simp_all
  have ne: "(of_nat ?h :: uint32) \<noteq> of_nat ?t" using assms(3) by (metis unat_of_nat32 lt)
  have e: "field_valid ?f" using assms(2) by (simp add: QueueSize_def)
  have "\<not> word_ready (load64 m (fptr c ?f))" using assms(4) by (simp add: load64_fget entry_ready_def word_ready_def)
  then have "Pop_loop m c (GetNodeReqQueueOffset q) (of_nat ?h) (fptr c ?f) = None"
    using Pop_loop_returns by (metis option.exhaust)
  then show ?thesis
    using rd ne GetPointer_field[OF assms(1) e] of_nat_index[OF lt(1)] unfolding Pop_def queue_offs by simp
qed

theorem Pop_blocks_on_unfinished_push_witness:
  "Pop (fput ex_ctl zero_mem (QTail 0) 1) ex_ctl (GetNodeReqQueueOffset 0) = None"
proof -
  let ?m = "fput ex_ctl zero_mem (QTail 0) 1"
  have "fget ex_ctl ?m (QHead 0) = 0" "fget ex_ctl ?m (QTail 0) = 1" "fget ex_ctl ?m (QEntry 0 0) = 0"
    by (simp_all add: fget_fput ex_ctl_ok MaxNodes_def QueueSize_def)
  with Pop_blocks_on_unfinished_push[OF ex_ctl_ok(1), of 0 ?m] show ?thesis by (simp add: MaxNodes_def)
qed

end
