(* ===== verification/Messages.thy ===== *)
theory Messages
  imports Chunk_Memory
begin

text \<open>
  \<^verbatim>\<open>go/sync/message.go\<close>, \<^verbatim>\<open>go/sync/eventfd.go\<close> and \<^verbatim>\<open>internal/netutil/netutil.go\<close>: the messages on the
  socket between hub and node, the event counters that wake the loops, and the passing of file
  descriptors.

  \<open>efds\<close> holds the counters behind the open descriptors of the process and \<open>kernel\<close> its descriptor
  table. The results of the system calls and of the parsers of control messages (package \<^verbatim>\<open>unix\<close>) are
  arguments. An \<^verbatim>\<open>eventfd\<close> is a 64-bit counter of the kernel, as its manual page describes it: a
  write adds to it, a read returns it and sets it to zero, or blocks while it is zero. A call that
  blocks for ever is \<open>None\<close>.
\<close>

subsection \<open>Messages\<close>

definition MsgHandshake :: byte where "MsgHandshake = 1"
definition MsgNewChunk :: byte where "MsgNewChunk = 2"
definition MsgHeartbeat :: byte where "MsgHeartbeat = 3"
definition MsgRelease :: byte where "MsgRelease = 4"

lemmas msg_types = MsgHandshake_def MsgNewChunk_def MsgHeartbeat_def MsgRelease_def

definition CONN_HEADER :: "byte list" where "CONN_HEADER = [0x4D, 0x4D, 0x46, 0x47]"
definition CONN_VERSION :: byte where "CONN_VERSION = 2"

definition HandshakeMessage :: "int \<Rightarrow> byte list" where
  "HandshakeMessage nodeID = CONN_HEADER @ [CONN_VERSION, MsgHandshake, word_of_int nodeID]"

definition NewChunkMessage :: "byte list" where "NewChunkMessage = [MsgNewChunk]"
definition HeartbeatMessage :: "byte list" where "HeartbeatMessage = [MsgHeartbeat]"
definition ReleaseMessage :: "byte list" where "ReleaseMessage = [MsgRelease]"

lemma CONN_HEADER_length: "length CONN_HEADER = 4"
  by (simp add: CONN_HEADER_def)

lemma length_HandshakeMessage [simp]: "length (HandshakeMessage nodeID) = 7"
  by (simp add: HandshakeMessage_def CONN_HEADER_def)

text \<open>
  \<open>IsMMFG\<close> looks at the first bytes of the next packet without taking it. \<open>peeks\<close> are the results of
  the successive calls of \<open>recvfrom\<close>, the error number or the bytes of the packet; \<open>rawConn.Read\<close>
  calls again after \<open>EAGAIN\<close> and returns an error of its own when it gives up.
\<close>

definition EAGAIN :: nat where "EAGAIN = 11"

fun peek_loop :: "(nat + byte list) list \<Rightarrow> (nat + byte list) option" where
  "peek_loop [] = None"
| "peek_loop (r # rs) = (if r = Inl EAGAIN then peek_loop rs else Some r)"

definition IsMMFG :: "nat option \<Rightarrow> nat \<Rightarrow> (nat + byte list) list \<Rightarrow> bool \<times> go_error option" where
  "IsMMFG syscallConn_err read_err peeks =
     (case syscallConn_err of
        Some e \<Rightarrow> (False, Some (Errno e))
      | None \<Rightarrow>
          (case peek_loop peeks of
             None \<Rightarrow> (False, Some (Errno read_err))
           | Some (Inl peekErr) \<Rightarrow> (False, Some (Errno peekErr))
           | Some (Inr packet) \<Rightarrow>
               (let n = min (length CONN_HEADER) (length packet) in
                if n < length CONN_HEADER then (False, None)
                else (take n packet = CONN_HEADER, None))))"

lemma peek_loop_again [simp]: "peek_loop (replicate k (Inl EAGAIN) @ r # rs) = peek_loop (r # rs)"
  by (induction k) simp_all

subsection \<open>Event counters\<close>

text \<open>
  The event counters of the kernel: their values (none for a descriptor that is not an open counter) and,
  as parameters, what the system calls \<open>read\<close> and \<open>write\<close> do on them. A call gives the error number or
  none and the values afterwards; \<open>None\<close> is a call that blocks.
\<close>

record efds =
  counters :: "int \<Rightarrow> nat option"
  sys_read :: "(int \<Rightarrow> nat option) \<Rightarrow> int \<Rightarrow> (nat option \<times> (int \<Rightarrow> nat option)) option"
  sys_write :: "(int \<Rightarrow> nat option) \<Rightarrow> int \<Rightarrow> nat \<Rightarrow> (nat option \<times> (int \<Rightarrow> nat option)) option"

record eventfd =
  ev_fd :: int

definition set_counter :: "efds \<Rightarrow> int \<Rightarrow> nat \<Rightarrow> efds" where
  "set_counter k fd n = k\<lparr>counters := (counters k)(fd \<mapsto> n)\<rparr>"

text \<open>What eventfd(2) promises and the code relies on: reading a positive counter succeeds and clears it, and
  writing to a counter succeeds and adds to it as long as it stays below \<open>2 ^ 64 - 1\<close>.\<close>

definition eventfd_kernel :: "efds \<Rightarrow> bool" where
  "eventfd_kernel k \<longleftrightarrow>
     (\<forall>cs fd n. cs fd = Some (Suc n) \<longrightarrow> sys_read k cs fd = Some (None, cs(fd \<mapsto> 0)))
     \<and> (\<forall>cs fd n v. cs fd = Some n \<longrightarrow> n + v < 2 ^ 64 - 1 \<longrightarrow> sys_write k cs fd v = Some (None, cs(fd \<mapsto> n + v)))"

lemma set_counter_simps [simp]: "counters (set_counter k fd n) = (counters k)(fd \<mapsto> n)"
  "eventfd_kernel (set_counter k fd n) = eventfd_kernel k" "set_counter (set_counter k fd n) fd n' = set_counter k fd n'"
  by (simp_all add: set_counter_def eventfd_kernel_def)

definition NewEventfd :: "nat + int \<Rightarrow> kernel \<Rightarrow> efds \<Rightarrow> (go_error + eventfd) \<times> kernel \<times> efds" where
  "NewEventfd sys k ek =
     (case sys of
        Inl e \<Rightarrow> (Inl (EventfdFailed e), k, ek)
      | Inr fd \<Rightarrow> (Inr \<lparr>ev_fd = fd\<rparr>, k\<lparr>open_fds := insert fd (open_fds k)\<rparr>, set_counter ek fd 0))"

definition AttachEventfd :: "int \<Rightarrow> eventfd" where
  "AttachEventfd fd = \<lparr>ev_fd = fd\<rparr>"

definition Notify :: "efds \<Rightarrow> eventfd \<Rightarrow> (go_error option \<times> efds) option" where
  "Notify k e = map_option (\<lambda>(err, cs). (map_option EventfdFailed err, k\<lparr>counters := cs\<rparr>)) (sys_write k (counters k) (ev_fd e) 1)"

definition Wait :: "efds \<Rightarrow> eventfd \<Rightarrow> (go_error option \<times> efds) option" where
  "Wait k e = map_option (\<lambda>(err, cs). (map_option EventfdFailed err, k\<lparr>counters := cs\<rparr>)) (sys_read k (counters k) (ev_fd e))"

lemma Notify_counter:
  "eventfd_kernel k \<Longrightarrow> counters k (ev_fd e) = Some n \<Longrightarrow> n + 1 < 2 ^ 64 - 1 \<Longrightarrow> Notify k e = Some (None, set_counter k (ev_fd e) (Suc n))"
  by (simp add: Notify_def eventfd_kernel_def set_counter_def)

lemma Wait_counter:
  "eventfd_kernel k \<Longrightarrow> counters k (ev_fd e) = Some (Suc n) \<Longrightarrow> Wait k e = Some (None, set_counter k (ev_fd e) 0)"
  by (simp add: Wait_def eventfd_kernel_def set_counter_def)

text \<open>A kernel that keeps the promise; a call on a descriptor that is not open fails with \<open>EBADF\<close>.\<close>

definition EBADF :: nat where "EBADF = 9"

definition ex_efds :: efds where
  "ex_efds = \<lparr>counters = Map.empty,
     sys_read = (\<lambda>cs fd. case cs fd of None \<Rightarrow> Some (Some EBADF, cs) | Some n \<Rightarrow> if n = 0 then None else Some (None, cs(fd \<mapsto> 0))),
     sys_write = (\<lambda>cs fd v. case cs fd of
         None \<Rightarrow> Some (Some EBADF, cs)
       | Some n \<Rightarrow> if n + v < 2 ^ 64 - 1 then Some (None, cs(fd \<mapsto> n + v)) else None)\<rparr>"

lemma ex_efds_kernel [simp]: "eventfd_kernel ex_efds" "eventfd_kernel (ex_efds\<lparr>counters := cs\<rparr>)"
  by (simp_all add: eventfd_kernel_def ex_efds_def)

definition Eventfd_Close :: "nat option \<Rightarrow> kernel \<Rightarrow> efds \<Rightarrow> eventfd \<Rightarrow> go_error option \<times> kernel \<times> efds \<times> eventfd" where
  "Eventfd_Close close_err k ek e =
     (if 0 \<le> ev_fd e then (map_option Errno close_err, sys_close (ev_fd e) k, ek\<lparr>counters := (counters ek)(ev_fd e := None)\<rparr>, e\<lparr>ev_fd := -1\<rparr>)
      else (None, k, ek, e))"

subsection \<open>Descriptor passing\<close>

text \<open>A socket carries packets: the bytes of the message and the descriptors that travel with it.\<close>

type_synonym packets = "(byte list \<times> int list) list"

definition SendMsgWithFDs :: "nat option \<Rightarrow> packets \<Rightarrow> byte list \<Rightarrow> int list \<Rightarrow> go_error option \<times> packets" where
  "SendMsgWithFDs write_err conn msg fds =
     (case write_err of Some e \<Rightarrow> (Some (Errno e), conn) | None \<Rightarrow> (None, conn @ [(msg, fds)]))"

text \<open>
  The results of \<open>ReadMsgUnix\<close> (the count and error number, or the packet and the descriptors that the
  kernel has opened in this process), of \<open>ParseSocketControlMessage\<close>, and of \<open>ParseUnixRights\<close> for
  each control message.
\<close>

record recv_sys =
  rs_read :: "(int \<times> nat) + (byte list \<times> int list)"
  rs_scms :: "nat + (nat + int list) list"

text \<open>The loop over \<open>scms\<close>. Its explicit \<open>return n, nil, err\<close> drops the descriptors already parsed.\<close>

fun parse_rights :: "int list \<Rightarrow> (nat + int list) list \<Rightarrow> nat + int list" where
  "parse_rights fds [] = Inr fds"
| "parse_rights fds (r # rs) = (case r of Inl e \<Rightarrow> Inl e | Inr scmFDs \<Rightarrow> parse_rights (fds @ scmFDs) rs)"

definition close_all :: "int list \<Rightarrow> kernel \<Rightarrow> kernel" where
  "close_all fds k = foldl (\<lambda>k fd. sys_close fd k) k fds"

text \<open>The result: the bytes read, the descriptors and the error; the buffer \<open>msg\<close>; the descriptor table.
  A read of no bytes, at the end of the connection or of an empty packet, is \<open>io.EOF\<close>, reported before the
  control messages are looked at. The deferred function closes the descriptors of the named result,
  which every error return has set to nil.\<close>

definition ReceiveMsgWithFDs ::
  "recv_sys \<Rightarrow> byte list \<Rightarrow> kernel \<Rightarrow> (int \<times> int list \<times> go_error option) \<times> byte list \<times> kernel" where
  "ReceiveMsgWithFDs os msg k =
     (case rs_read os of
        Inl (n, e) \<Rightarrow> ((n, [], Some (Errno e)), msg, k)
      | Inr (packet, got) \<Rightarrow>
          (let n = min (length msg) (length packet);
               msg = take n packet @ drop n msg;
               k = k\<lparr>open_fds := open_fds k \<union> set got\<rparr>
           in if n = 0 then ((0, [], Some EOF), msg, k)
              else case rs_scms os of
                Inl e \<Rightarrow> ((int n, [], Some (Errno e)), msg, close_all [] k)
              | Inr scms \<Rightarrow>
                  (case parse_rights [] scms of
                     Inl e \<Rightarrow> ((int n, [], Some (Errno e)), msg, close_all [] k)
                   | Inr fds \<Rightarrow> ((int n, fds, None), msg, k))))"

lemma parse_rights_ok: "parse_rights fds (map Inr xss) = Inr (fds @ concat xss)"
  by (induction xss arbitrary: fds) simp_all

lemma parse_rights_error: "Inl e \<in> set rs \<Longrightarrow> \<exists>e'. parse_rights fds rs = Inl e'"
  by (induction rs arbitrary: fds) (auto split: sum.splits)

lemma close_all_simps [simp]:
  "open_fds (close_all fds k) = open_fds k - set fds" "mapped (close_all fds k) = mapped k"
  by (induction fds arbitrary: k) (auto simp: close_all_def sys_close_def)

text \<open>A packet that arrives whole, in one control message: what \<open>SendMsgWithFDs\<close> of the peer produces.\<close>

definition recv_packet :: "byte list \<Rightarrow> int list \<Rightarrow> recv_sys" where
  "recv_packet packet fds = \<lparr>rs_read = Inr (packet, fds), rs_scms = Inr [Inr fds]\<rparr>"

lemma Receive_packet:
  assumes "packet \<noteq> []" "msg \<noteq> []"
  shows "ReceiveMsgWithFDs (recv_packet packet fds) msg k =
    ((int (min (length msg) (length packet)), fds, None),
     take (length msg) packet @ drop (length packet) msg, k\<lparr>open_fds := open_fds k \<union> set fds\<rparr>)"
  using assms by (auto simp: ReceiveMsgWithFDs_def recv_packet_def Let_def min_def)

lemma Receive_empty:
  "ReceiveMsgWithFDs (recv_packet [] fds) msg k = ((0, [], Some EOF), msg, k\<lparr>open_fds := open_fds k \<union> set fds\<rparr>)"
  by (simp add: ReceiveMsgWithFDs_def recv_packet_def Let_def)

text \<open>The descriptors that came with a message, and whether \<open>ReceiveMsgWithFDs\<close> fails to hand them on: the packet
  is empty, or its control messages do not parse.\<close>

definition recv_fds :: "recv_sys \<Rightarrow> int list" where
  "recv_fds os = (case rs_read os of Inl _ \<Rightarrow> [] | Inr (packet, fds) \<Rightarrow> fds)"

definition unparsed :: "recv_sys \<Rightarrow> bool" where
  "unparsed os =
     (case rs_read os of
        Inl _ \<Rightarrow> False
      | Inr (packet, _) \<Rightarrow> packet = [] \<or>
          (case rs_scms os of
             Inl _ \<Rightarrow> True
           | Inr scms \<Rightarrow> (case parse_rights [] scms of Inl _ \<Rightarrow> True | Inr _ \<Rightarrow> False)))"

text \<open>What the parsers promise: when all control messages parse, they name the descriptors that came.\<close>

definition rights_complete :: "recv_sys \<Rightarrow> bool" where
  "rights_complete os =
     (case (rs_read os, rs_scms os) of
        (Inr (_, got), Inr scms) \<Rightarrow> (case parse_rights [] scms of Inl _ \<Rightarrow> True | Inr fds \<Rightarrow> fds = got)
      | _ \<Rightarrow> True)"

lemma recv_cases:
  assumes "rights_complete os"
  obtains (error) n e where "rs_read os = Inl (n, e)" "\<not> unparsed os" "recv_fds os = []"
    "\<And>msg k. ReceiveMsgWithFDs os msg k = ((n, [], Some (Errno e)), msg, k)"
  | (whole) packet where "packet \<noteq> []" "\<not> unparsed os"
    "\<And>msg k. msg \<noteq> [] \<Longrightarrow> ReceiveMsgWithFDs os msg k = ReceiveMsgWithFDs (recv_packet packet (recv_fds os)) msg k"
  | (lost) "unparsed os"
    "\<And>msg k. msg \<noteq> [] \<Longrightarrow> \<exists>n e msg'. ReceiveMsgWithFDs os msg k = ((n, [], Some e), msg', k\<lparr>open_fds := open_fds k \<union> set (recv_fds os)\<rparr>)"
proof (cases "rs_read os")
  case (Inl ne)
  then show ?thesis using error[of "fst ne" "snd ne"]
    by (cases ne) (simp add: unparsed_def recv_fds_def ReceiveMsgWithFDs_def)
next
  case (Inr pg)
  then obtain packet got where pg: "rs_read os = Inr (packet, got)" by (cases pg) simp
  have got: "recv_fds os = got" by (simp add: recv_fds_def pg)
  show ?thesis
  proof (cases "unparsed os")
    case True
    show ?thesis
    proof (rule lost[OF True])
      fix msg :: "byte list" and k assume "msg \<noteq> []"
      then show "\<exists>n e msg'. ReceiveMsgWithFDs os msg k = ((n, [], Some e), msg', k\<lparr>open_fds := open_fds k \<union> set (recv_fds os)\<rparr>)"
        using True pg by (auto simp: unparsed_def ReceiveMsgWithFDs_def got Let_def close_all_def split: sum.splits)
    qed
  next
    case False
    then obtain scms fds where sc: "packet \<noteq> []" "rs_scms os = Inr scms" "parse_rights [] scms = Inr fds"
      using pg by (auto simp: unparsed_def split: sum.splits)
    then have "fds = got" using assms by (simp add: rights_complete_def pg got)
    show ?thesis
    proof (rule whole[OF sc(1) False])
      fix msg :: "byte list" and k assume "msg \<noteq> []"
      then show "ReceiveMsgWithFDs os msg k = ReceiveMsgWithFDs (recv_packet packet (recv_fds os)) msg k"
        using sc pg \<open>fds = got\<close> by (simp add: ReceiveMsgWithFDs_def recv_packet_def got Let_def)
    qed
  qed
qed

subsection \<open>Properties\<close>

text \<open>Descriptors and their order survive the transfer. A packet that arrives whole puts exactly its
  bytes in the buffer (cut at the buffer's length) and returns exactly its descriptors, all open;
  when the packet is empty or the control messages do not parse, the call reports an error and returns
  no descriptor, and the descriptors that came with the packet stay open in the process: they are leaked.\<close>

theorem receive_descriptors:
  assumes "msg \<noteq> []"
  shows "(packet \<noteq> [] \<longrightarrow> ReceiveMsgWithFDs (recv_packet packet fds) msg k =
      ((int (min (length msg) (length packet)), fds, None),
       take (length msg) packet @ drop (length packet) msg, k\<lparr>open_fds := open_fds k \<union> set fds\<rparr>))
   \<and> ReceiveMsgWithFDs (recv_packet [] fds) msg k = ((0, [], Some EOF), msg, k\<lparr>open_fds := open_fds k \<union> set fds\<rparr>)
   \<and> (\<exists>e n msg'. ReceiveMsgWithFDs \<lparr>rs_read = Inr (packet, fds), rs_scms = Inr (map Inr xss @ Inl e0 # rest)\<rparr> msg k =
      ((n, [], Some e), msg', k\<lparr>open_fds := open_fds k \<union> set fds\<rparr>))"
proof -
  obtain e where "parse_rights [] (map Inr xss @ Inl e0 # rest) = Inl e"
    using parse_rights_error[of e0 "map Inr xss @ Inl e0 # rest" "[]"] by auto
  then show ?thesis using assms
    by (simp add: Receive_packet Receive_empty) (simp add: ReceiveMsgWithFDs_def Let_def close_all_def)
qed

text \<open>A listener shared with other protocols routes exactly the handshakes: \<open>IsMMFG\<close> answers true, after
  any number of retries, when the next packet starts with the four bytes of the header, and false
  when it is shorter or starts otherwise; every handshake message is recognised.\<close>

theorem IsMMFG_correct:
  "IsMMFG None read_err (replicate k (Inl EAGAIN) @ Inr packet # rest) = (take 4 packet = CONN_HEADER, None)
   \<and> IsMMFG None read_err (replicate k (Inl EAGAIN) @ Inr (HandshakeMessage nodeID) # rest) = (True, None)"
proof -
  have "IsMMFG None read_err (replicate k (Inl EAGAIN) @ Inr p # rest) = (take 4 p = CONN_HEADER, None)" for p
  proof (cases "length p < 4")
    case True
    then have "length (take 4 p) \<noteq> length CONN_HEADER" by (simp add: CONN_HEADER_length)
    then have "take 4 p \<noteq> CONN_HEADER" by metis
    with True show ?thesis using peek_loop_again[of k "Inr p" rest] by (simp add: IsMMFG_def Let_def CONN_HEADER_length)
  next
    case False
    then show ?thesis using peek_loop_again[of k "Inr p" rest] by (simp add: IsMMFG_def Let_def CONN_HEADER_length min_def)
  qed
  then show ?thesis by (simp add: HandshakeMessage_def CONN_HEADER_def)
qed

end
