(* ===== verification/Hub_State.thy ===== *)
theory Hub_State
  imports Messages Bus_Theorems Control_Theorems
begin

text \<open>
  \<^verbatim>\<open>go/hub/hub.go\<close>: the hub, which owns the bus and the control region, dials the nodes, dispatches
  their responses and reclaims what a dead node leaves behind.

  The state is one record. Besides the fields of \<open>Hub\<close> it has \<open>h_mem\<close>, the shared memory, \<open>h_efds\<close>, the
  event counters, \<open>h_chans\<close>, the buffered values of the channels (of capacity 1) that callers of
  \<open>Next\<close> wait on, and \<open>h_spawned\<close>, the calls of \<open>handleExpandRequest\<close> started as goroutines.
  Each operation runs without interference; where the source releases its lock in the middle of an
  operation (\<open>Dial\<close>) it is modelled in parts. An \<open>option\<close> result is \<open>None\<close> when the call does not
  return: a Go panic, or waiting for ever.
\<close>

subsection \<open>State\<close>

record NodeInfo =
  ni_nodeID :: int
  ni_conn :: packets                \<comment> \<open>what has been sent on the connection\<close>
  ni_send_err :: "nat \<Rightarrow> nat option" \<comment> \<open>the error the write number \<open>k\<close> on the connection returns\<close>
  ni_sends :: nat                   \<comment> \<open>the writes so far, failed ones included\<close>
  ni_nodeEv :: eventfd
  ni_closed :: bool

record hub =
  h_bus :: bus
  h_ctrl :: control
  h_respEv :: eventfd
  h_nodes :: "(string \<times> NodeInfo) list"
  h_waiters :: "nat option list"    \<comment> \<open>by slot: the channel of the waiting caller\<close>
  h_nodeIDs :: "uint64 list"
  h_chunk0Name :: string
  h_limit :: nat                    \<comment> \<open>tokens in the channel \<open>limit\<close>\<close>
  h_mem :: mem
  h_efds :: efds
  h_chans :: "nat \<Rightarrow> go_error option list"
  h_spawned :: "(int \<times> uint32) list"

text \<open>A hub option, as \<open>WithChunk0Name\<close>.\<close>

definition WithChunk0Name :: "string \<Rightarrow> hub \<Rightarrow> hub" where
  "WithChunk0Name name h = h\<lparr>h_chunk0Name := name\<rparr>"

subsection \<open>Nodes\<close>

definition notify :: "hub \<Rightarrow> NodeInfo \<Rightarrow> (go_error option \<times> hub) option" where
  "notify h n =
     (if ni_closed n then Some (Some NodeClosed, h)
      else map_option (\<lambda>(err, ek). (err, h\<lparr>h_efds := ek\<rparr>)) (Notify (h_efds h) (ni_nodeEv n)))"

text \<open>The slot of a node in \<open>h_nodes\<close>; updating one changes the object every holder of the pointer sees.\<close>

definition set_node :: "hub \<Rightarrow> string \<Rightarrow> NodeInfo \<Rightarrow> hub" where
  "set_node h name n = h\<lparr>h_nodes := (name, n) # filter (\<lambda>(nm, _). nm \<noteq> name) (h_nodes h)\<rparr>"

fun alloc_id_loop :: "uint64 list \<Rightarrow> nat list \<Rightarrow> (nat \<times> uint64 list) option" where
  "alloc_id_loop ids [] = None"
| "alloc_id_loop ids (i # is) =
     (let idx = i div 64; bit = i mod 64 in
      if ids ! idx AND push_bit bit 1 = 0 then Some (i, ids[idx := ids ! idx OR push_bit bit 1])
      else alloc_id_loop ids is)"

definition allocNodeID :: "hub \<Rightarrow> (go_error + int) \<times> hub" where
  "allocNodeID h =
     (case alloc_id_loop (h_nodeIDs h) [1..<MaxNodes] of
        Some (i, ids) \<Rightarrow> (Inr (int i), h\<lparr>h_nodeIDs := ids\<rparr>)
      | None \<Rightarrow> (Inl MaxNodesReached, h))"

definition freeNodeID :: "hub \<Rightarrow> int \<Rightarrow> hub option" where
  "freeNodeID h i =
     (let idx = i sdiv 64; bit = i smod 64;
          mask = NOT (if bit < 0 then 0 else push_bit (nat bit) 1) :: uint64
      in do {
        w \<leftarrow> go_nth (h_nodeIDs h) idx;
        Some (h\<lparr>h_nodeIDs := (h_nodeIDs h)[nat idx := w AND mask]\<rparr>)
      })"

subsection \<open>Chunks for the nodes\<close>

text \<open>\<open>SendMsgWithFDs\<close> on the connection of a node: each call has a result of its own.\<close>

definition conn_send :: "NodeInfo \<Rightarrow> byte list \<Rightarrow> int list \<Rightarrow> go_error option \<times> NodeInfo" where
  "conn_send n msg fds =
     (case SendMsgWithFDs (ni_send_err n (ni_sends n)) (ni_conn n) msg fds of
        (err, conn) \<Rightarrow> (err, n\<lparr>ni_conn := conn, ni_sends := ni_sends n + 1\<rparr>))"

text \<open>A failed write is ignored.\<close>

definition syncChunk :: "NodeInfo \<Rightarrow> int list \<Rightarrow> NodeInfo" where
  "syncChunk n fds =
     (case conn_send n NewChunkMessage fds of (Some err, n) \<Rightarrow> n | (None, n) \<Rightarrow> n)"

lemma syncChunk_same [simp]: "ni_nodeID (syncChunk n fds) = ni_nodeID n" "ni_nodeEv (syncChunk n fds) = ni_nodeEv n"
  "ni_closed (syncChunk n fds) = ni_closed n"
  by (auto simp: syncChunk_def conn_send_def split: prod.splits option.splits)

definition AppendedChunkBroacast :: "hub \<Rightarrow> chunk \<Rightarrow> hub" where
  "AppendedChunkBroacast h c = h\<lparr>h_nodes := map (\<lambda>(name, n). (name, syncChunk n [ck_Fd c])) (h_nodes h)\<rparr>"

text \<open>The hub after an operation of the bus, with the calls of \<open>onChunkAppended\<close> it has made.\<close>

definition put_bus :: "hub \<Rightarrow> bus \<Rightarrow> hub" where
  "put_bus h b = foldl AppendedChunkBroacast (h\<lparr>h_bus := b\<rparr>) (drop (length (appended (h_bus h))) (appended b))"

subsection \<open>Creation\<close>

text \<open>The kernel state \<open>k\<close>, the memory \<open>m\<close> and the counters \<open>ek\<close> at the start, and the results of the
  system calls: \<open>os\<close> for the chunks, \<open>ev\<close> for the event counter. The dispatch loop is started.\<close>

definition NewHub ::
  "(nat \<Rightarrow> chunk_sys) \<Rightarrow> nat + int \<Rightarrow> (hub \<Rightarrow> hub) list \<Rightarrow> kernel \<Rightarrow> mem \<Rightarrow> efds \<Rightarrow> ((go_error + hub) \<times> kernel) option" where
  "NewHub os ev opts k m ek =
     (case NewChunk (os 0) ''mmfg_chunk0'' k of
        (Inl err, k) \<Rightarrow> Some (Inl err, k)
      | (Inr chunk0, k) \<Rightarrow>
          (case NewBus (Some chunk0) True k of
             Inl err \<Rightarrow> Some (Inl err, k)
           | Inr bus \<Rightarrow> do {
               let h = \<lparr>h_bus = bus, h_ctrl = NewControl \<lparr>Sequence = [], BlockCount = 0, Blocks = [], DataLen = 0\<rparr>,
                 h_respEv = \<lparr>ev_fd = -1\<rparr>, h_nodes = [], h_waiters = replicate (MaxTotalSlots + 1) None,
                 h_nodeIDs = replicate MaxNodes 0, h_chunk0Name = ''mmfg_chunk0'', h_limit = 0,
                 h_mem = m, h_efds = ek, h_chans = (\<lambda>_. []), h_spawned = []\<rparr>;
               let h = foldl (\<lambda>h opt. opt h) h opts;
               (res, m, b) \<leftarrow> AllocStripe os (h_mem h) (h_bus h) (int (ControlStripeSize div BlockSize));
               let h = (put_bus h b)\<lparr>h_mem := m\<rparr>;
               (case res of
                  Inl err \<Rightarrow> Some (Inl err, snd (snd (Chunk_Close None (Some chunk0) (kern b))))
                | Inr ctrlStripe \<Rightarrow> do {
                    let c = NewControl ctrlStripe;
                    m \<leftarrow> Init (h_mem h) c;
                    let h = h\<lparr>h_ctrl := c, h_mem := m\<rparr>;
                    (case NewEventfd ev (kern b) (h_efds h) of
                       (Inl err, k, ek) \<Rightarrow> Some (Inl err, snd (snd (Chunk_Close None (Some chunk0) k)))
                     | (Inr respEv, k, ek) \<Rightarrow>
                         Some (Inr (h\<lparr>h_respEv := respEv, h_efds := ek, h_bus := b\<lparr>kern := k\<rparr>\<rparr>), k))
                  })
             }))"

subsection \<open>Slots and queues\<close>

text \<open>\<open>h.limit <- struct{}{}\<close> blocks while the channel is full.\<close>

definition allocSlot :: "hub \<Rightarrow> stripe \<Rightarrow> ((go_error + uint32) \<times> hub) option" where
  "allocSlot h s =
     (if h_limit h \<ge> MaxTotalSlots then None
      else do {
        (m, c, slotID, ok) \<leftarrow> AllocSlot (h_mem h) (h_ctrl h);
        let h = h\<lparr>h_mem := m, h_ctrl := c\<rparr>;
        if \<not> ok then Some (Inl NoSlots, h)
        else do {
          cid \<leftarrow> go_nth (Sequence s) 0;
          off \<leftarrow> go_nth (Sequence s) 1;
          m \<leftarrow> SetStripe (h_mem h) (h_ctrl h) slotID StripeStatusReady cid off 0;
          Some (Inr slotID, h\<lparr>h_mem := m, h_limit := h_limit h + 1\<rparr>)
        }
      })"

partial_function (option) push_retry_loop :: "bool \<Rightarrow> mem \<Rightarrow> control \<Rightarrow> nat \<Rightarrow> uint32 \<Rightarrow> uint32 \<Rightarrow> (mem \<times> go_error option) option" where
  "push_retry_loop closed m c q slotID cmd =
     Option.bind (Push m c q slotID cmd) (\<lambda>(m, ok).
       if ok then Some (m, None)
       else if closed then Some (m, Some NodeDisconnected)
       else push_retry_loop closed m c q slotID cmd)"

definition pushToNode :: "hub \<Rightarrow> NodeInfo \<Rightarrow> uint32 \<Rightarrow> uint32 \<Rightarrow> (go_error option \<times> hub) option" where
  "pushToNode h n slotID cmd = do {
     (m, err) \<leftarrow> push_retry_loop (ni_closed n) (h_mem h) (h_ctrl h) (GetNodeReqQueueOffset (nat (ni_nodeID n))) slotID cmd;
     Some (err, h\<lparr>h_mem := m\<rparr>)
   }"

definition submit :: "hub \<Rightarrow> NodeInfo \<Rightarrow> uint32 \<Rightarrow> (go_error option \<times> hub) option" where
  "submit h n slotID = do {
     (err, h) \<leftarrow> pushToNode h n slotID CMD_PROCESS;
     (case err of Some e \<Rightarrow> Some (Some e, h) | None \<Rightarrow> notify h n)
   }"

subsection \<open>Waiters\<close>

text \<open>Sending on a channel of capacity 1 blocks while it holds a value.\<close>

definition chan_send :: "hub \<Rightarrow> nat \<Rightarrow> go_error option \<Rightarrow> hub option" where
  "chan_send h ch v = (if h_chans h ch = [] then Some (h\<lparr>h_chans := (h_chans h)(ch := [v])\<rparr>) else None)"

definition wake_error :: "hub \<Rightarrow> uint32 \<Rightarrow> go_error \<Rightarrow> hub option" where
  "wake_error h slotID err = do {
     w \<leftarrow> go_nth (h_waiters h) (uint slotID);
     (case w of None \<Rightarrow> Some h | Some ch \<Rightarrow> chan_send h ch (Some err))
   }"

subsection \<open>The dispatch loop\<close>

datatype dispatch = Dispatch_continue | Dispatch_stop go_error

text \<open>One turn of the loop of \<open>dispatchLoop\<close>.\<close>

definition dispatch_turn :: "hub \<Rightarrow> (dispatch \<times> hub) option" where
  "dispatch_turn h = do {
     (m, slotID, cmd, ok) \<leftarrow> Pop (h_mem h) (h_ctrl h) OFF_RESP_QUEUE;
     let h = h\<lparr>h_mem := m\<rparr>;
     if ok then
       (if cmd = CMD_PROCESS then do {
          w \<leftarrow> go_nth (h_waiters h) (uint slotID);
          let h = h\<lparr>h_waiters := (h_waiters h)[unat slotID := None]\<rparr>;
          (case w of
             None \<Rightarrow> Some (Dispatch_continue, h)
           | Some ch \<Rightarrow> do { h \<leftarrow> chan_send h ch None; Some (Dispatch_continue, h) })
        }
        else if cmd = CMD_REQUEST_EXPAND then do {
          owner \<leftarrow> GetStripeOwner (h_mem h) (h_ctrl h) slotID;
          Some (Dispatch_continue, h\<lparr>h_spawned := h_spawned h @ [(uint owner, slotID)]\<rparr>)
        }
        else Some (Dispatch_continue, h))
     else do {
       (err, ek) \<leftarrow> Wait (h_efds h) (h_respEv h);
       let h = h\<lparr>h_efds := ek\<rparr>;
       (case err of None \<Rightarrow> Some (Dispatch_continue, h) | Some e \<Rightarrow> Some (Dispatch_stop e, h))
     }
   }"

subsection \<open>Expansion requests\<close>

definition find_node :: "hub \<Rightarrow> int \<Rightarrow> NodeInfo option" where
  "find_node h nodeID = map_option snd (List.find (\<lambda>(_, n). ni_nodeID n = nodeID) (h_nodes h))"

definition expandResponse :: "hub \<Rightarrow> int \<Rightarrow> uint32 \<Rightarrow> uint32 \<Rightarrow> hub option" where
  "expandResponse h nodeID slotID cmd =
     (case find_node h nodeID of
        None \<Rightarrow> Some h
      | Some target \<Rightarrow> do {
          (err, h) \<leftarrow> pushToNode h target slotID cmd;
          (case err of Some e \<Rightarrow> Some h | None \<Rightarrow> map_option snd (notify h target))
        })"

definition nil_slice :: slice where
  "nil_slice = \<lparr>sl_region = 0, sl_off = 0, sl_len = 0\<rparr>"

definition handleExpandRequest :: "(nat \<Rightarrow> chunk_sys) \<Rightarrow> hub \<Rightarrow> int \<Rightarrow> uint32 \<Rightarrow> hub option" where
  "handleExpandRequest os h nodeID slotID = do {
     (cid, off) \<leftarrow> GetStripeHeader (h_mem h) (h_ctrl h) slotID;
     chunk \<leftarrow> GetChunk (h_bus h) cid;
     let offset = sint off * int BlockSize;
     headerBlk \<leftarrow> chunk_slice chunk offset (offset + int BlockSize);
     (dataLen, blkCnt, seq) \<leftarrow> DecodeHeader (h_mem h) headerBlk;
     if blkCnt = 0 then None
     else do {
       let s = \<lparr>Sequence = seq, BlockCount = blkCnt, Blocks = headerBlk # replicate (nat blkCnt - 1) nil_slice, DataLen = dataLen\<rparr>;
       owner \<leftarrow> GetStripeOwner (h_mem h) (h_ctrl h) slotID;
       if owner \<noteq> word_of_int nodeID then do {
         h \<leftarrow> expandResponse h nodeID slotID CMD_EXPAND_ERROR;
         wake_error h slotID NotOwner
       }
       else do {
         (err, s, m, b) \<leftarrow> AllocBlocksForStripe os (h_mem h) (h_bus h) s 2;
         let h = (put_bus h b)\<lparr>h_mem := m\<rparr>;
         (case err of
            Some e \<Rightarrow> do {
              h \<leftarrow> expandResponse h nodeID slotID CMD_EXPAND_ERROR;
              wake_error h slotID e
            }
          | None \<Rightarrow> do {
              m \<leftarrow> UpdateStripeHeader (h_mem h) s;
              expandResponse (h\<lparr>h_mem := m\<rparr>) nodeID slotID CMD_EXPAND_READY
            })
       }
     }
   }"

subsection \<open>Dialling\<close>

text \<open>The descriptors of the chunks \<open>i\<close>.\<close>

fun chunk_fds :: "bus \<Rightarrow> nat list \<Rightarrow> int list option" where
  "chunk_fds b [] = Some []"
| "chunk_fds b (i # is) = do {
     c \<leftarrow> GetChunk b (NOT (of_nat i));
     fds \<leftarrow> chunk_fds b is;
     Some (ck_Fd c # fds)
   }"

text \<open>\<open>Dial\<close> up to the point where the handshake is sent: the error, or the number of chunks announced and
  the node. \<open>dial\<close> is the result of \<open>DialUnix\<close>, \<open>ev\<close> of \<open>eventfd\<close>, and \<open>sends k\<close> of the write number \<open>k\<close> on the
  new connection, the handshake being the first. The connection is part of \<open>NodeInfo\<close> from the start.\<close>

definition Dial_send ::
  "nat option \<Rightarrow> nat + int \<Rightarrow> (nat \<Rightarrow> nat option) \<Rightarrow> hub \<Rightarrow> ((go_error + (nat \<times> NodeInfo)) \<times> hub) option" where
  "Dial_send dial ev sends h =
     (case dial of
        Some e \<Rightarrow> Some (Inl (Errno e), h)
      | None \<Rightarrow>
          (case allocNodeID h of
             (Inl err, h) \<Rightarrow> Some (Inl err, h)
           | (Inr nodeID, h) \<Rightarrow>
               (case NewEventfd ev (kern (h_bus h)) (h_efds h) of
                  (Inl err, k, ek) \<Rightarrow> Some (Inl err, h)
                | (Inr nodeEv, k, ek) \<Rightarrow> do {
                    let h = h\<lparr>h_bus := (h_bus h)\<lparr>kern := k\<rparr>, h_efds := ek\<rparr>;
                    let chunkCount = chunkCount (h_bus h);
                    fds \<leftarrow> chunk_fds (h_bus h) [0..<chunkCount];
                    let n = \<lparr>ni_nodeID = nodeID, ni_conn = [], ni_send_err = sends, ni_sends = 0,
                             ni_nodeEv = nodeEv, ni_closed = False\<rparr>;
                    (case conn_send n (HandshakeMessage nodeID) (ev_fd nodeEv # ev_fd (h_respEv h) # fds) of
                       (Some err, n) \<Rightarrow> Some (Inl err, h)
                     | (None, n) \<Rightarrow> Some (Inr (chunkCount, n), h))
                  })))"

text \<open>The rest of \<open>Dial\<close>, under the write lock: announce the chunks appended since, register the node.\<close>

definition Dial_register :: "hub \<Rightarrow> string \<Rightarrow> nat \<Rightarrow> NodeInfo \<Rightarrow> (go_error option \<times> hub) option" where
  "Dial_register h nodeName count n = do {
     let after = chunkCount (h_bus h);
     (err, n) \<leftarrow>
       (if count \<noteq> after \<and> after > count then do {
          fds \<leftarrow> chunk_fds (h_bus h) [count..<after];
          Some (conn_send n NewChunkMessage fds)
        } else Some (None, n));
     (case err of
        Some e \<Rightarrow> Some (Some e, h)
      | None \<Rightarrow> Some (None, set_node h nodeName n))
   }"

subsection \<open>A node that goes away\<close>

fun free_decoded :: "bus \<Rightarrow> int16 \<Rightarrow> int16 list \<Rightarrow> bus option" where
  "free_decoded b chunkID [] = Some b"
| "free_decoded b chunkID (i # ids) =
     (if sint i < 0 then free_decoded b i ids
      else do { b \<leftarrow> FreeBlock b chunkID i; free_decoded b chunkID ids })"

definition reclaim_slot :: "hub \<Rightarrow> uint32 \<Rightarrow> hub option" where
  "reclaim_slot h i = do {
     (cid, off) \<leftarrow> GetStripeHeader (h_mem h) (h_ctrl h) i;
     headerCk \<leftarrow> GetChunk (h_bus h) cid;
     let headerOff = sint off * int BlockSize;
     headerBlk \<leftarrow> chunk_slice headerCk headerOff (headerOff + int BlockSize);
     (_, _, seq) \<leftarrow> DecodeHeader (h_mem h) headerBlk;
     b \<leftarrow> free_decoded (h_bus h) 0 seq;
     m \<leftarrow> FreeSlot (h_mem h) (h_ctrl h) i;
     Some (h\<lparr>h_bus := b, h_mem := m\<rparr>)
   }"

fun cleanup_slots :: "hub \<Rightarrow> int \<Rightarrow> uint32 list \<Rightarrow> hub option" where
  "cleanup_slots h nodeID [] = Some h"
| "cleanup_slots h nodeID (i # is) = do {
     status \<leftarrow> GetStripeStatus (h_mem h) (h_ctrl h) i;
     h \<leftarrow> (if status \<noteq> StripeStatusIdle then do {
             owner \<leftarrow> GetStripeOwner (h_mem h) (h_ctrl h) i;
             if uint owner = nodeID then reclaim_slot h i else Some h
           } else Some h);
     cleanup_slots h nodeID is
   }"

definition CleanupResources :: "hub \<Rightarrow> int \<Rightarrow> hub option" where
  "CleanupResources h nodeID = cleanup_slots h nodeID (map of_nat [0..<MaxTotalSlots])"

text \<open>What \<open>watchdog\<close> does when reading from the node's connection fails. The node object is the one
  given at its start; the entry it removes is looked up by name. Closing the connection is left out.\<close>

definition watchdog_close :: "hub \<Rightarrow> string \<Rightarrow> NodeInfo \<Rightarrow> (NodeInfo \<times> hub) option" where
  "watchdog_close h name n = do {
     h \<leftarrow> CleanupResources h (ni_nodeID n);
     h \<leftarrow> freeNodeID h (ni_nodeID n);
     let h = h\<lparr>h_nodes := filter (\<lambda>(nm, _). nm \<noteq> name) (h_nodes h)\<rparr>;
     (case Eventfd_Close None (kern (h_bus h)) (h_efds h) (ni_nodeEv n) of
        (_, k, ek, e) \<Rightarrow> Some (n\<lparr>ni_closed := True, ni_nodeEv := e\<rparr>, h\<lparr>h_bus := (h_bus h)\<lparr>kern := k\<rparr>, h_efds := ek\<rparr>))
   }"

end
