(* ===== verification/Hub_Conn.thy ===== *)
theory Hub_Conn
  imports Hub_State
begin

text \<open>
  \<^verbatim>\<open>go/hub/conn.go\<close>: the hub's connection objects. A connection owns a stripe; a caller writes a request
  into it, hands it to a node with \<open>Next\<close> and reads the response.

  An operation takes and returns the hub and the connection. \<open>Next\<close> is modelled in two parts, up to
  and after its wait for the response; \<open>pool\<close> is the channel \<open>donePool\<close> returns.
\<close>

subsection \<open>State\<close>

record busConn =
  c_node :: "string option"         \<comment> \<open>the name of the target node\<close>
  c_Stripe :: "stripe option"
  c_readOff :: int
  c_writeOff :: int
  c_slotID :: uint32
  c_done :: "nat option"

definition Request :: "(nat \<Rightarrow> chunk_sys) \<Rightarrow> nat \<Rightarrow> hub \<Rightarrow> int \<Rightarrow> bool \<Rightarrow> ((go_error + busConn) \<times> hub) option" where
  "Request os pool h blockCount needSlot = do {
     (res, m, b) \<leftarrow> AllocStripe os (h_mem h) (h_bus h) (i64 (blockCount + 1));
     let h = (put_bus h b)\<lparr>h_mem := m\<rparr>;
     (case res of
        Inl err \<Rightarrow> Some (Inl err, h)
      | Inr stripe \<Rightarrow>
          let conn = \<lparr>c_node = None, c_Stripe = Some stripe, c_readOff = 0, c_writeOff = 0, c_slotID = 0, c_done = None\<rparr> in
          if needSlot then do {
            (res, h) \<leftarrow> allocSlot h stripe;
            (case res of
               Inl err \<Rightarrow> do {
                 b \<leftarrow> FreeStripe (h_bus h) stripe;
                 Some (Inl NoSlots, h\<lparr>h_bus := b\<rparr>)
               }
             | Inr slotID \<Rightarrow> Some (Inr (conn\<lparr>c_done := Some pool, c_slotID := slotID\<rparr>), h))
          } else Some (Inr conn, h))
   }"

definition conn_DataLen :: "busConn \<Rightarrow> uint32 option" where
  "conn_DataLen c = map_option DataLen (c_Stripe c)"

subsection \<open>Writing\<close>

definition ensureCapacity :: "(nat \<Rightarrow> chunk_sys) \<Rightarrow> hub \<Rightarrow> busConn \<Rightarrow> int \<Rightarrow> (go_error option \<times> hub \<times> busConn) option" where
  "ensureCapacity os h c needed = do {
     s \<leftarrow> c_Stripe c;
     let userCap = (BlockCount s - 1) * int BlockSize;
     if needed \<le> userCap then Some (None, h, c)
     else do {
       let extraBytes = needed - userCap;
       let blocksNeeded = i64 (extraBytes + int BlockSize - 1) sdiv int BlockSize;
       (err, s, m, b) \<leftarrow> AllocBlocksForStripe os (h_mem h) (h_bus h) s blocksNeeded;
       Some (err, (put_bus h b)\<lparr>h_mem := m\<rparr>, c\<lparr>c_Stripe := Some s\<rparr>)
     }
   }"

definition conn_WriteAt :: "(nat \<Rightarrow> chunk_sys) \<Rightarrow> hub \<Rightarrow> busConn \<Rightarrow> byte list \<Rightarrow> int \<Rightarrow> (int \<times> go_error option \<times> hub \<times> busConn) option" where
  "conn_WriteAt os h c data off = do {
     (err, h, c) \<leftarrow> ensureCapacity os h c (i64 (off + int (length data)));
     (case err of
        Some e \<Rightarrow> Some (0, Some e, h, c)
      | None \<Rightarrow> do {
          s \<leftarrow> c_Stripe c;
          (m, s, n, err) \<leftarrow> WriteAt (h_mem h) s data off;
          Some (n, err, h\<lparr>h_mem := m\<rparr>, c\<lparr>c_Stripe := Some s\<rparr>)
        })
   }"

definition conn_Write :: "(nat \<Rightarrow> chunk_sys) \<Rightarrow> hub \<Rightarrow> busConn \<Rightarrow> byte list \<Rightarrow> (int \<times> go_error option \<times> hub \<times> busConn) option" where
  "conn_Write os h c data = do {
     (n, err, h, c) \<leftarrow> conn_WriteAt os h c data (c_writeOff c);
     (case err of
        Some e \<Rightarrow> Some (n, Some e, h, c)
      | None \<Rightarrow> Some (n, None, h, c\<lparr>c_writeOff := i64 (c_writeOff c + n)\<rparr>))
   }"

definition conn_WriteByte :: "(nat \<Rightarrow> chunk_sys) \<Rightarrow> hub \<Rightarrow> busConn \<Rightarrow> byte \<Rightarrow> (go_error option \<times> hub \<times> busConn) option" where
  "conn_WriteByte os h c b = do {
     (err, h, c) \<leftarrow> ensureCapacity os h c (i64 (c_writeOff c + 1));
     (case err of
        Some e \<Rightarrow> Some (Some e, h, c)
      | None \<Rightarrow> do {
          s \<leftarrow> c_Stripe c;
          (m, s, err) \<leftarrow> WriteByteAt (h_mem h) s b (c_writeOff c);
          let c = c\<lparr>c_Stripe := Some s\<rparr>;
          Some (err, h\<lparr>h_mem := m\<rparr>, if err = None then c\<lparr>c_writeOff := i64 (c_writeOff c + 1)\<rparr> else c)
        })
   }"

subsection \<open>Reading\<close>

definition conn_ReadAt :: "hub \<Rightarrow> busConn \<Rightarrow> byte list \<Rightarrow> int \<Rightarrow> (byte list \<times> int \<times> go_error option) option" where
  "conn_ReadAt h c data off = do { s \<leftarrow> c_Stripe c; ReadAt (h_mem h) s data off }"

definition conn_Read :: "hub \<Rightarrow> busConn \<Rightarrow> byte list \<Rightarrow> (byte list \<times> int \<times> go_error option \<times> busConn) option" where
  "conn_Read h c data = do {
     (data, n, err) \<leftarrow> conn_ReadAt h c data (c_readOff c);
     (case err of
        Some e \<Rightarrow> Some (data, n, Some e, c)
      | None \<Rightarrow> Some (data, n, None, c\<lparr>c_readOff := i64 (c_readOff c + n)\<rparr>))
   }"

definition conn_ReadByte :: "hub \<Rightarrow> busConn \<Rightarrow> (byte \<times> go_error option \<times> busConn) option" where
  "conn_ReadByte h c = do {
     s \<leftarrow> c_Stripe c;
     (b, err) \<leftarrow> ReadByteAt (h_mem h) s (c_readOff c);
     Some (b, err, if err = None then c\<lparr>c_readOff := i64 (c_readOff c + 1)\<rparr> else c)
   }"

text \<open>\<open>io.Copy(w, io.LimitReader(c, n))\<close> into a writer that accepts everything: reads of at most 32 KB until
  the limit or the end of the data. \<open>out\<close> is what the writer has received.\<close>

partial_function (option) copy_loop :: "hub \<Rightarrow> busConn \<Rightarrow> int \<Rightarrow> byte list \<Rightarrow> (byte list \<times> go_error option \<times> busConn) option" where
  "copy_loop h c n out =
     (if n \<le> 0 then Some (out, None, c)
      else Option.bind (conn_Read h c (replicate (nat (min n 32768)) 0)) (\<lambda>(data, k, err, c).
        case err of
          None \<Rightarrow> copy_loop h c (n - k) (out @ take (nat k) data)
        | Some e \<Rightarrow> Some (out @ take (nat k) data, if e = EOF then None else Some e, c)))"

definition conn_WriteTo :: "hub \<Rightarrow> busConn \<Rightarrow> (byte list \<times> go_error option \<times> busConn) option" where
  "conn_WriteTo h c = do { s \<leftarrow> c_Stripe c; copy_loop h c (uint (DataLen s)) [] }"

subsection \<open>Handing the stripe to a node\<close>

text \<open>\<open>clearChannel\<close> empties the channel.\<close>

definition clearChannel :: "hub \<Rightarrow> nat \<Rightarrow> hub" where
  "clearChannel h ch = h\<lparr>h_chans := (h_chans h)(ch := [])\<rparr>"

text \<open>\<open>Next\<close> up to its wait. Without interference the status of the slot does not change while \<open>Next\<close> polls
  it: another status than done or ready ends in the time-out.\<close>

definition Next_send :: "nat \<Rightarrow> hub \<Rightarrow> busConn \<Rightarrow> string \<Rightarrow> (go_error option \<times> hub \<times> busConn) option" where
  "Next_send pool h c nodeName =
     (case map_of (h_nodes h) nodeName of
        None \<Rightarrow> Some (Some TargetNotFound, h, c)
      | Some target \<Rightarrow> do {
          let c = c\<lparr>c_node := Some nodeName\<rparr>;
          s \<leftarrow> c_Stripe c;
          (err, h, c) \<leftarrow>
            (if c_slotID c = 0 then do {
               (res, h) \<leftarrow> allocSlot h s;
               (case res of
                  Inl err \<Rightarrow> Some (Some err, h, c)
                | Inr slotID \<Rightarrow> Some (None, h, c\<lparr>c_done := Some pool, c_slotID := slotID\<rparr>))
             } else Some (None, h, c));
          (case err of
             Some e \<Rightarrow> Some (Some e, h, c)
           | None \<Rightarrow> do {
               status \<leftarrow> GetStripeStatus (h_mem h) (h_ctrl h) (c_slotID c);
               if status \<noteq> StripeStatusDone \<and> status \<noteq> StripeStatusReady then Some (Some SlotTimeout, h, c)
               else do {
                 cid \<leftarrow> go_nth (Sequence s) 0;
                 off \<leftarrow> go_nth (Sequence s) 1;
                 m \<leftarrow> SetStripe (h_mem h) (h_ctrl h) (c_slotID c) StripeStatusBusy cid off (word_of_int (ni_nodeID target));
                 ch \<leftarrow> c_done c;
                 _ \<leftarrow> go_nth (h_waiters h) (uint (c_slotID c));
                 let h = clearChannel (h\<lparr>h_mem := m\<rparr>) ch;
                 let h = h\<lparr>h_waiters := (h_waiters h)[unat (c_slotID c) := Some ch]\<rparr>;
                 (err, h) \<leftarrow> submit h target (c_slotID c);
                 (case err of
                    Some e \<Rightarrow> Some (Some e, h, c)
                  | None \<Rightarrow> Some (None, h, c\<lparr>c_writeOff := 0, c_readOff := 0\<rparr>))
               }
             })
        })"

text \<open>The blocks of the entries of \<open>seq\<close> from index \<open>l\<close> on; \<open>i\<close> is the index of the first entry.\<close>

fun refresh_blocks :: "bus \<Rightarrow> nat \<Rightarrow> int16 \<Rightarrow> nat \<Rightarrow> int16 list \<Rightarrow> slice list option" where
  "refresh_blocks b l lastChunkID i [] = Some []"
| "refresh_blocks b l lastChunkID i (v # vs) =
     (if sint v < 0 then refresh_blocks b l v (Suc i) vs
      else if i < l then refresh_blocks b l lastChunkID (Suc i) vs
      else do {
        chunk \<leftarrow> GetChunk b lastChunkID;
        let off = sint v * int BlockSize;
        block \<leftarrow> chunk_slice chunk off (off + int BlockSize);
        blocks \<leftarrow> refresh_blocks b l lastChunkID (Suc i) vs;
        Some (block # blocks)
      })"

definition refreshStripe :: "hub \<Rightarrow> busConn \<Rightarrow> (go_error option \<times> busConn) option" where
  "refreshStripe h c =
     (case c_Stripe c of
        None \<Rightarrow> Some (Some NoActiveRequest, c)
      | Some s \<Rightarrow> do {
          b0 \<leftarrow> go_nth (Blocks s) 0;
          (dataLen, blkCnt, seq) \<leftarrow> DecodeHeader (h_mem h) b0;
          s \<leftarrow> (if blkCnt \<noteq> BlockCount s then do {
                  blocks \<leftarrow> refresh_blocks (h_bus h) (length (Sequence s)) 0 0 seq;
                  Some (s\<lparr>BlockCount := blkCnt, Blocks := Blocks s @ blocks, Sequence := seq\<rparr>)
                } else Some s);
          Some (None, c\<lparr>c_Stripe := Some (s\<lparr>DataLen := dataLen\<rparr>)\<rparr>)
        })"

text \<open>The rest of \<open>Next\<close>: it waits until its channel holds a value (\<open>None\<close> while it is empty).\<close>

definition Next_receive :: "hub \<Rightarrow> busConn \<Rightarrow> (go_error option \<times> hub \<times> busConn) option" where
  "Next_receive h c = do {
     ch \<leftarrow> c_done c;
     (case h_chans h ch of
        [] \<Rightarrow> None
      | err # rest \<Rightarrow>
          let h = h\<lparr>h_chans := (h_chans h)(ch := rest)\<rparr> in
          (case err of
             Some e \<Rightarrow> Some (Some e, h, c)
           | None \<Rightarrow> do { (err, c) \<leftarrow> refreshStripe h c; Some (err, h, c) }))
   }"

subsection \<open>Closing\<close>

text \<open>\<open>FreeStripe\<close> of a nil stripe, on a second \<open>Close\<close>, panics.\<close>

definition conn_Close :: "hub \<Rightarrow> busConn \<Rightarrow> (hub \<times> busConn) option" where
  "conn_Close h c = do {
     s \<leftarrow> c_Stripe c;
     b \<leftarrow> FreeStripe (h_bus h) s;
     let h = h\<lparr>h_bus := b\<rparr>;
     let c = c\<lparr>c_Stripe := None\<rparr>;
     if c_slotID c = 0 then Some (h, c)
     else do {
       _ \<leftarrow> go_nth (h_waiters h) (uint (c_slotID c));
       m \<leftarrow> FreeSlot (h_mem h) (h_ctrl h) (c_slotID c);
       Some (h\<lparr>h_waiters := (h_waiters h)[unat (c_slotID c) := None], h_mem := m, h_limit := h_limit h - 1\<rparr>,
             c\<lparr>c_done := None\<rparr>)
     }
   }"

end
