(* ===== verification/Node_Session.thy ===== *)
theory Node_Session
  imports Messages Control_Theorems "HOL-Library.Multiset"
begin

text \<open>
  \<^verbatim>\<open>go/node/node.go\<close>, the life of a connection to the hub: the handshake, the messages that bring new
  chunks, and the release of everything when the connection ends.

  \<open>mm fd\<close> is the result of mapping the descriptor \<open>fd\<close>: the error number or the region (the memory
  the hub shares under that descriptor). Log output is left out. The outer \<open>option\<close> of an operation
  is a Go panic; of \<open>HandleConn\<close> it is also a connection that is still open.
\<close>

subsection \<open>State\<close>

record nodeSession =
  ns_NodeID :: int
  ns_NodeEv :: int
  ns_HubEv :: int
  ns_ControlStripe :: stripe
  ns_Chunks :: "chunk list"

record node =
  n_nodeID :: int
  n_ctrl :: "control option"
  n_nodeEv :: "eventfd option"
  n_hubEv :: "eventfd option"
  n_chunks :: "chunk list"

definition NewNode :: node where
  "NewNode = \<lparr>n_nodeID = 0, n_ctrl = None, n_nodeEv = None, n_hubEv = None, n_chunks = []\<rparr>"

subsection \<open>The handshake\<close>

text \<open>\<open>controlStripe.Blocks[j] = chunk.Data[offset : offset+shm.BlockSize]\<close> for the given \<open>j\<close>.\<close>

fun control_blocks :: "chunk \<Rightarrow> nat list \<Rightarrow> slice list option" where
  "control_blocks c [] = Some []"
| "control_blocks c (j # js) = do {
     let offset = int (j * BlockSize);
     b \<leftarrow> chunk_slice c offset (offset + int BlockSize);
     bs \<leftarrow> control_blocks c js;
     Some (b # bs)
   }"

text \<open>The loop over the descriptors from index \<open>i\<close>: the error, the two event descriptors, the blocks of
  the control stripe and the chunks so far.\<close>

type_synonym attached = "int \<times> int \<times> slice list \<times> chunk list"

fun attach_fds ::
  "(int \<Rightarrow> nat + nat) \<Rightarrow> nat \<Rightarrow> int list \<Rightarrow> attached \<Rightarrow> kernel \<Rightarrow> (go_error option \<times> attached \<times> kernel) option" where
  "attach_fds mm i [] st k = Some (None, st, k)"
| "attach_fds mm i (fd # fds) (nodeEv, hubEv, blocks, chunks) k =
     (if i = 0 then attach_fds mm (Suc i) fds (fd, hubEv, blocks, chunks) k
      else if i = 1 then attach_fds mm (Suc i) fds (nodeEv, fd, blocks, chunks) k
      else
        case AttachChunk (mm fd) fd k of
          (Inl err, k) \<Rightarrow> Some (Some err, (nodeEv, hubEv, blocks, chunks), k)
        | (Inr chunk, k) \<Rightarrow> do {
            blocks \<leftarrow> (if i = 2 then control_blocks chunk [0..<ControlStripeSize div BlockSize] else Some blocks);
            attach_fds mm (Suc i) fds (nodeEv, hubEv, blocks, chunks @ [chunk\<lparr>ck_Fd := -1\<rparr>]) k
          })"

definition close_chunks :: "chunk list \<Rightarrow> kernel \<Rightarrow> kernel" where
  "close_chunks cs k = foldl (\<lambda>k c. snd (snd (Chunk_Close None (Some c) k))) k cs"

definition handshake ::
  "recv_sys \<Rightarrow> (int \<Rightarrow> nat + nat) \<Rightarrow> kernel \<Rightarrow> ((go_error + nodeSession) \<times> kernel) option" where
  "handshake os mm k =
     (case ReceiveMsgWithFDs os (replicate 7 0) k of
        ((n, fds, Some err), header, k) \<Rightarrow> Some (Inl err, k)
      | ((n, fds, None), header, k) \<Rightarrow>
          (let nodeID = uint (header ! 6) in
           if n \<noteq> 7 then Some (Inl (ShortHeader n), close_all fds k)
           else if take 4 header \<noteq> CONN_HEADER then Some (Inl (InvalidHeader (take 4 header)), close_all fds k)
           else if header ! 4 \<noteq> CONN_VERSION then Some (Inl (UnsupportedVersion (header ! 4)), close_all fds k)
           else if nodeID \<le> 0 \<or> int MaxNodes \<le> nodeID then Some (Inl (InvalidNodeID nodeID), close_all fds k)
           else if length fds < 3 then Some (Inl (TooFewFds (int (length fds))), close_all fds k)
           else
             let blkCnt = ControlStripeSize div BlockSize in
             case attach_fds mm 0 fds (0, 0, replicate blkCnt \<lparr>sl_region = 0, sl_off = 0, sl_len = 0\<rparr>, []) k of
               None \<Rightarrow> None
             | Some (Some err, (_, _, _, chunks), k) \<Rightarrow> Some (Inl err, close_all fds (close_chunks chunks k))
             | Some (None, (nodeEv, hubEv, blocks, chunks), k) \<Rightarrow>
                 Some (Inr \<lparr>ns_NodeID = nodeID, ns_NodeEv = nodeEv, ns_HubEv = hubEv,
                        ns_ControlStripe = \<lparr>Sequence = [], BlockCount = int blkCnt, Blocks = blocks, DataLen = 0\<rparr>,
                        ns_Chunks = chunks\<rparr>,
                       close_all (drop 2 fds) k)))"

definition loadSession :: "node \<Rightarrow> nodeSession \<Rightarrow> node" where
  "loadSession n s =
     n\<lparr>n_nodeID := ns_NodeID s, n_ctrl := Some (NewControl (ns_ControlStripe s)),
       n_nodeEv := Some (AttachEventfd (ns_NodeEv s)), n_hubEv := Some (AttachEventfd (ns_HubEv s)),
       n_chunks := ns_Chunks s\<rparr>"

subsection \<open>Messages from the hub\<close>

fun attach_chunks :: "(int \<Rightarrow> nat + nat) \<Rightarrow> int list \<Rightarrow> chunk list \<Rightarrow> kernel \<Rightarrow> go_error option \<times> chunk list \<times> kernel" where
  "attach_chunks mm [] chunks k = (None, chunks, k)"
| "attach_chunks mm (fd # fds) chunks k =
     (case AttachChunk (mm fd) fd k of
        (Inl err, k) \<Rightarrow> (Some err, chunks, k)
      | (Inr chunk, k) \<Rightarrow> attach_chunks mm fds (chunks @ [chunk\<lparr>ck_Fd := -1\<rparr>]) k)"

definition handleMessage ::
  "recv_sys \<Rightarrow> (int \<Rightarrow> nat + nat) \<Rightarrow> node \<Rightarrow> kernel \<Rightarrow> go_error option \<times> node \<times> kernel" where
  "handleMessage os mm n k =
     (case ReceiveMsgWithFDs os [0] k of
        ((_, fds, Some err), msgHeader, k) \<Rightarrow> (Some err, n, k)
      | ((_, fds, None), msgHeader, k) \<Rightarrow>
          if hd msgHeader = MsgNewChunk then
            (case attach_chunks mm fds [] k of
               (Some err, chunks, k) \<Rightarrow> (Some err, n, close_all fds (close_chunks chunks k))
             | (None, chunks, k) \<Rightarrow> (None, n\<lparr>n_chunks := n_chunks n @ chunks\<rparr>, close_all fds k))
          else (None, n, close_all fds k))"

text \<open>The loop of \<open>HandleConn\<close>, over the messages that arrive, ends with the first error.\<close>

fun handle_messages ::
  "(int \<Rightarrow> nat + nat) \<Rightarrow> recv_sys list \<Rightarrow> node \<Rightarrow> kernel \<Rightarrow> (node \<times> kernel) option" where
  "handle_messages mm [] n k = None"
| "handle_messages mm (os # oss) n k =
     (case handleMessage os mm n k of
        (Some err, n, k) \<Rightarrow> Some (n, k)
      | (None, n, k) \<Rightarrow> handle_messages mm oss n k)"

text \<open>The deferred function of \<open>HandleConn\<close>.\<close>

definition close_session :: "node \<Rightarrow> kernel \<Rightarrow> efds \<Rightarrow> node \<times> kernel \<times> efds" where
  "close_session n k ek =
     (let k = close_chunks (n_chunks n) k;
          n = n\<lparr>n_chunks := []\<rparr>;
          (n, k, ek) = (case n_nodeEv n of
              None \<Rightarrow> (n, k, ek)
            | Some e \<Rightarrow> (case Eventfd_Close None k ek e of (_, k, ek, e) \<Rightarrow> (n\<lparr>n_nodeEv := Some e\<rparr>, k, ek)))
      in case n_hubEv n of
              None \<Rightarrow> (n, k, ek)
            | Some e \<Rightarrow> (case Eventfd_Close None k ek e of (_, k, ek, e) \<Rightarrow> (n\<lparr>n_hubEv := Some e\<rparr>, k, ek)))"

definition HandleConn ::
  "recv_sys \<Rightarrow> recv_sys list \<Rightarrow> (int \<Rightarrow> nat + nat) \<Rightarrow> node \<Rightarrow> kernel \<Rightarrow> efds \<Rightarrow> (node \<times> kernel \<times> efds) option" where
  "HandleConn os oss mm n k ek =
     (case handshake os mm k of
        None \<Rightarrow> None
      | Some (Inl err, k) \<Rightarrow> Some (n, k, ek)
      | Some (Inr session, k) \<Rightarrow>
          (case handle_messages mm oss (loadSession n session) k of
             None \<Rightarrow> None
           | Some (n, k) \<Rightarrow> Some (close_session n k ek)))"

subsection \<open>Attaching and closing\<close>

text \<open>A mapped chunk without a descriptor of its own.\<close>

definition attached_chunk :: "nat \<Rightarrow> chunk" where
  "attached_chunk r = \<lparr>ck_Data = Some \<lparr>sl_region = r, sl_off = 0, sl_len = ChunkSize\<rparr>, ck_Fd = -1\<rparr>"

lemma AttachChunk_attached:
  "AttachChunk x fd k =
    (case x of Inl e \<Rightarrow> (Inl (Errno e), k)
     | Inr r \<Rightarrow> (Inr ((attached_chunk r)\<lparr>ck_Fd := fd\<rparr>), k\<lparr>mapped := r # mapped k\<rparr>))"
  by (simp add: AttachChunk_def attached_chunk_def split: sum.splits)

lemma attached_reset: "(attached_chunk r)\<lparr>ck_Fd := fd, ck_Fd := -1\<rparr> = attached_chunk r"
  by (simp add: attached_chunk_def)

lemma Close_attached: "snd (snd (Chunk_Close None (Some (attached_chunk r)) k)) = k\<lparr>mapped := remove1 r (mapped k)\<rparr>"
  by (simp add: Chunk_Close_def attached_chunk_def)

lemma close_attached: "close_chunks (map attached_chunk rs) k = k\<lparr>mapped := foldl (\<lambda>xs r. remove1 r xs) (mapped k) rs\<rparr>"
  by (induction rs arbitrary: k) (simp_all add: close_chunks_def Close_attached)

lemma unmap_all:
  "mset xs = mset rs \<Longrightarrow> foldl (\<lambda>xs r. remove1 r xs) (xs @ old) rs = old"
proof (induction rs arbitrary: xs)
  case (Cons r rs)
  then have "r \<in> set xs" by (metis list.set_intros(1) mset_eq_setD)
  then have "remove1 r (xs @ old) = remove1 r xs @ old" by (simp add: remove1_append)
  moreover have "mset (remove1 r xs) = mset rs" using Cons.prems by simp
  ultimately show ?case using Cons.IH by simp
qed simp

text \<open>The regions mapped for a list of descriptors, up to the first failure.\<close>

fun map_regions :: "(int \<Rightarrow> nat + nat) \<Rightarrow> int list \<Rightarrow> nat list" where
  "map_regions mm [] = []"
| "map_regions mm (fd # fds) = (case mm fd of Inl e \<Rightarrow> [] | Inr r \<Rightarrow> r # map_regions mm fds)"

fun map_error :: "(int \<Rightarrow> nat + nat) \<Rightarrow> int list \<Rightarrow> go_error option" where
  "map_error mm [] = None"
| "map_error mm (fd # fds) = (case mm fd of Inl e \<Rightarrow> Some (Errno e) | Inr r \<Rightarrow> map_error mm fds)"

lemma map_error_None: "map_error mm fds = None \<longleftrightarrow> length (map_regions mm fds) = length fds"
proof -
  have "length (map_regions mm fds) \<le> length fds" for fds by (induction fds) (auto split: sum.splits)
  then show ?thesis by (induction fds) (auto split: sum.splits)
qed

lemma attach_chunks_spec:
  "attach_chunks mm fds chunks k =
    (map_error mm fds, chunks @ map attached_chunk (map_regions mm fds),
     k\<lparr>mapped := rev (map_regions mm fds) @ mapped k\<rparr>)"
  by (induction fds arbitrary: chunks k) (auto simp: AttachChunk_attached attached_reset split: sum.splits)

text \<open>The first 256 blocks of the chunk in region \<open>r\<close>.\<close>

definition region_block :: "nat \<Rightarrow> nat \<Rightarrow> slice" where
  "region_block r j = \<lparr>sl_region = r, sl_off = j * BlockSize, sl_len = BlockSize\<rparr>"

lemma chunk_slice_block:
  assumes "j < BlocksPerChunk" "ck_Data c = Some \<lparr>sl_region = r, sl_off = 0, sl_len = ChunkSize\<rparr>"
  shows "chunk_slice c (int (j * BlockSize)) (int (j * BlockSize) + int BlockSize) = Some (region_block r j)"
proof -
  have "(j + 1) * BlockSize \<le> BlocksPerChunk * BlockSize" using assms(1) by (intro mult_le_mono1) simp
  then have "j * BlockSize + BlockSize \<le> ChunkSize" by (simp add: BlocksPerChunk_def ChunkSize_def BlockSize_def)
  then have "int (j * BlockSize) + int BlockSize \<le> int ChunkSize" by linarith
  then show ?thesis using assms(2)
    by (simp add: chunk_slice_def go_slice_def region_block_def nat_mult_distrib del: of_nat_mult)
qed

lemma control_blocks_spec:
  assumes "\<forall>j \<in> set js. j < BlocksPerChunk" "ck_Data c = Some \<lparr>sl_region = r, sl_off = 0, sl_len = ChunkSize\<rparr>"
  shows "control_blocks c js = Some (map (region_block r) js)"
  using assms(1) chunk_slice_block[OF _ assms(2)] by (induction js) (simp_all add: Let_def)

lemma attach_fds_rest:
  "2 < i \<Longrightarrow> attach_fds mm i fds (ne, he, blocks, chunks) k =
    Some (map_error mm fds, (ne, he, blocks, chunks @ map attached_chunk (map_regions mm fds)),
          k\<lparr>mapped := rev (map_regions mm fds) @ mapped k\<rparr>)"
  by (induction fds arbitrary: i chunks k) (auto simp: AttachChunk_attached attached_reset split: sum.splits)

lemma attach_fds_spec:
  assumes "length fds \<ge> 3"
  obtains blocks where
    "attach_fds mm 0 fds (0, 0, b0, []) k =
      Some (map_error mm (drop 2 fds), (fds ! 0, fds ! 1, blocks, map attached_chunk (map_regions mm (drop 2 fds))),
            k\<lparr>mapped := rev (map_regions mm (drop 2 fds)) @ mapped k\<rparr>)"
    and "\<And>r. mm (fds ! 2) = Inr r \<Longrightarrow> blocks = map (region_block r) [0..<ControlStripeSize div BlockSize]"
proof -
  obtain f0 f1 f2 rest where fds: "fds = f0 # f1 # f2 # rest"
    using assms by (metis (no_types, opaque_lifting) Suc_le_length_iff numeral_3_eq_3)
  have cb: "control_blocks ((attached_chunk r)\<lparr>ck_Fd := fd\<rparr>) [0..<ControlStripeSize div BlockSize]
      = Some (map (region_block r) [0..<ControlStripeSize div BlockSize])" for r fd
    by (rule control_blocks_spec) (auto simp: attached_chunk_def ControlStripeSize_def BlockSize_def BlocksPerChunk_def)
  show ?thesis
  proof (cases "mm f2")
    case (Inl e)
    then show ?thesis using that[of b0] by (simp add: fds AttachChunk_def numeral_2_eq_2)
  next
    case (Inr r)
    let ?blocks = "map (region_block r) [0..<ControlStripeSize div BlockSize]"
    have at: "AttachChunk (mm f2) f2 k = (Inr ((attached_chunk r)\<lparr>ck_Fd := f2\<rparr>), k\<lparr>mapped := r # mapped k\<rparr>)"
      by (simp add: AttachChunk_attached Inr)
    have two: "attach_fds mm 2 (f2 # rest) (f0, f1, b0, []) k =
        attach_fds mm 3 rest (f0, f1, ?blocks, [attached_chunk r]) (k\<lparr>mapped := r # mapped k\<rparr>)"
      by (simp add: at cb attached_reset)
    have "attach_fds mm 0 fds (0, 0, b0, []) k = attach_fds mm 2 (f2 # rest) (f0, f1, b0, []) k"
      by (simp add: fds numeral_2_eq_2 del: attach_fds.simps(2)) (simp add: numeral_2_eq_2[symmetric])
    also note two
    also have "attach_fds mm 3 rest (f0, f1, ?blocks, [attached_chunk r]) (k\<lparr>mapped := r # mapped k\<rparr>) =
      Some (map_error mm (drop 2 fds), (fds ! 0, fds ! 1, ?blocks, map attached_chunk (map_regions mm (drop 2 fds))),
            k\<lparr>mapped := rev (map_regions mm (drop 2 fds)) @ mapped k\<rparr>)"
      using attach_fds_rest[of 3] by (simp add: fds Inr)
    finally show ?thesis by (rule that) (simp add: fds Inr)
  qed
qed

subsection \<open>The handshake on a packet\<close>

text \<open>What the node accepts: the six leading bytes it checks (the message type, byte 5, is not one of
  them), a node ID between 1 and 63, and two event descriptors with at least one chunk.\<close>

definition accepts :: "byte list \<Rightarrow> int list \<Rightarrow> bool" where
  "accepts packet fds \<longleftrightarrow> 7 \<le> length packet \<and> take 4 packet = CONN_HEADER \<and> packet ! 4 = CONN_VERSION
     \<and> 0 < packet ! 6 \<and> packet ! 6 < of_nat MaxNodes \<and> 3 \<le> length fds"

definition session_of :: "(int \<Rightarrow> nat + nat) \<Rightarrow> byte list \<Rightarrow> int list \<Rightarrow> nodeSession" where
  "session_of mm packet fds =
     (let rs = map_regions mm (drop 2 fds); blkCnt = ControlStripeSize div BlockSize in
      \<lparr>ns_NodeID = uint (packet ! 6), ns_NodeEv = fds ! 0, ns_HubEv = fds ! 1,
       ns_ControlStripe = \<lparr>Sequence = [], BlockCount = int blkCnt,
         Blocks = map (region_block (hd rs)) [0..<blkCnt], DataLen = 0\<rparr>,
       ns_Chunks = map attached_chunk rs\<rparr>)"

lemma node_id_bounds: "\<not> (uint (b :: byte) \<le> 0 \<or> int MaxNodes \<le> uint b) \<longleftrightarrow> 0 < b \<and> b < of_nat MaxNodes"
proof -
  have "0 < b \<longleftrightarrow> 0 < uint b" "b < of_nat MaxNodes \<longleftrightarrow> uint b < int MaxNodes" by (simp_all only: word_less_def) (simp_all add: MaxNodes_def)
  then show ?thesis by linarith
qed

lemma handshake_rejected:
  assumes "\<not> accepts packet fds"
  shows "\<exists>err. handshake (recv_packet packet fds) mm k =
    Some (Inl err, k\<lparr>open_fds := (if packet = [] then open_fds k \<union> set fds else open_fds k - set fds)\<rparr>)"
proof (cases "packet = []")
  case False
  have k: "close_all fds (k\<lparr>open_fds := open_fds k \<union> set fds\<rparr>) = k\<lparr>open_fds := open_fds k - set fds\<rparr>"
    by (rule kernel.equality) auto
  show ?thesis
    using assms k node_id_bounds[of "packet ! 6"] False
    by (auto simp: handshake_def Receive_packet accepts_def Let_def nth_append min_def)
qed (simp add: handshake_def Receive_empty)

lemma handshake_accepted:
  assumes a: "accepts packet fds"
  shows "handshake (recv_packet packet fds) mm k =
    (case map_error mm (drop 2 fds) of
       Some err \<Rightarrow> Some (Inl err, k\<lparr>open_fds := open_fds k - set fds\<rparr>)
     | None \<Rightarrow> Some (Inr (session_of mm packet fds),
                k\<lparr>open_fds := (open_fds k \<union> set fds) - set (drop 2 fds), mapped := rev (map_regions mm (drop 2 fds)) @ mapped k\<rparr>))"
proof -
  let ?rs = "map_regions mm (drop 2 fds)" and ?nb = "ControlStripeSize div BlockSize"
  let ?k = "k\<lparr>open_fds := open_fds k \<union> set fds\<rparr>"
  have len: "3 \<le> length fds" "packet \<noteq> []" using a by (auto simp: accepts_def)
  obtain blocks where at: "attach_fds mm 0 fds (0, 0, replicate ?nb \<lparr>sl_region = 0, sl_off = 0, sl_len = 0\<rparr>, []) ?k =
      Some (map_error mm (drop 2 fds), (fds ! 0, fds ! 1, blocks, map attached_chunk ?rs), ?k\<lparr>mapped := rev ?rs @ mapped ?k\<rparr>)"
    and bl: "\<And>r. mm (fds ! 2) = Inr r \<Longrightarrow> blocks = map (region_block r) [0..<?nb]"
    by (rule attach_fds_spec[OF len(1), of mm "replicate ?nb \<lparr>sl_region = 0, sl_off = 0, sl_len = 0\<rparr>" ?k]) simp_all
  have h: "handshake (recv_packet packet fds) mm k = (case map_error mm (drop 2 fds) of
       Some err \<Rightarrow> Some (Inl err, close_all fds (close_chunks (map attached_chunk ?rs) (?k\<lparr>mapped := rev ?rs @ mapped ?k\<rparr>)))
     | None \<Rightarrow> Some (Inr \<lparr>ns_NodeID = uint (packet ! 6), ns_NodeEv = fds ! 0, ns_HubEv = fds ! 1,
         ns_ControlStripe = \<lparr>Sequence = [], BlockCount = int ?nb, Blocks = blocks, DataLen = 0\<rparr>, ns_Chunks = map attached_chunk ?rs\<rparr>,
         close_all (drop 2 fds) (?k\<lparr>mapped := rev ?rs @ mapped ?k\<rparr>)))"
    using a at node_id_bounds[of "packet ! 6"] len(2)
    by (simp add: handshake_def Receive_packet accepts_def Let_def nth_append split: option.splits)
  have k1: "close_all fds (close_chunks (map attached_chunk ?rs) (?k\<lparr>mapped := rev ?rs @ mapped ?k\<rparr>)) = k\<lparr>open_fds := open_fds k - set fds\<rparr>"
    by (rule kernel.equality) (auto simp: close_attached unmap_all)
  have k2: "close_all (drop 2 fds) (?k\<lparr>mapped := rev ?rs @ mapped ?k\<rparr>) =
      k\<lparr>open_fds := (open_fds k \<union> set fds) - set (drop 2 fds), mapped := rev ?rs @ mapped k\<rparr>"
    by (rule kernel.equality) auto
  show ?thesis
  proof (cases "map_error mm (drop 2 fds)")
    case None
    have "drop 2 fds = fds ! 2 # drop 3 fds" using len Cons_nth_drop_Suc[of 2 fds] by (simp add: numeral_3_eq_3 numeral_2_eq_2)
    with None obtain r where "mm (fds ! 2) = Inr r" "hd ?rs = r" by (auto split: sum.splits)
    with bl None h k2 show ?thesis by (simp add: session_of_def Let_def)
  next
    case (Some err)
    with h k1 show ?thesis by simp
  qed
qed

lemma handshake_failed:
  assumes "packet \<noteq> []" "\<not> (accepts packet fds \<and> map_error mm (drop 2 fds) = None)"
  shows "\<exists>err. handshake (recv_packet packet fds) mm k = Some (Inl err, k\<lparr>open_fds := open_fds k - set fds\<rparr>)"
proof (cases "accepts packet fds")
  case True
  then show ?thesis using assms handshake_accepted[OF True, of mm k] by auto
next
  case False
  then show ?thesis using assms(1) handshake_rejected[OF False, of mm k] by simp
qed

subsection \<open>What a connection leaves behind\<close>

definition holds_chunks :: "kernel \<Rightarrow> kernel \<Rightarrow> node \<Rightarrow> bool" where
  "holds_chunks k0 k n \<longleftrightarrow> (\<exists>rs xs. n_chunks n = map attached_chunk rs \<and> mapped k = xs @ mapped k0 \<and> mset xs = mset rs)"

definition between :: "kernel \<Rightarrow> int set \<Rightarrow> kernel \<Rightarrow> bool" where
  "between k0 E k \<longleftrightarrow> open_fds k0 \<subseteq> open_fds k \<and> open_fds k \<subseteq> open_fds k0 \<union> E"

lemma kernel_eqI: "open_fds k = open_fds k' \<Longrightarrow> mapped k = mapped k' \<Longrightarrow> k = (k' :: kernel)"
  by (rule kernel.equality) simp_all

lemma handle_packet_holds:
  assumes "packet \<noteq> []" "set fds \<inter> open_fds k0 = {}" "holds_chunks k0 k n" "between k0 E k"
    and h: "handleMessage (recv_packet packet fds) mm n k = (err, n', k')"
  shows "holds_chunks k0 k' n' \<and> between k0 E k' \<and> n_nodeEv n' = n_nodeEv n \<and> n_hubEv n' = n_hubEv n"
proof -
  let ?rs = "map_regions mm fds" and ?k = "k\<lparr>open_fds := open_fds k \<union> set fds\<rparr>"
  have op: "open_fds k' = open_fds k \<union> set fds - set fds"
    using h assms(1) by (auto simp: handleMessage_def Receive_packet attach_chunks_spec close_attached split: if_splits option.splits)
  then have btw: "between k0 E k'" using assms(2,4) by (auto simp: between_def)
  obtain rs xs where rx: "n_chunks n = map attached_chunk rs" "mapped k = xs @ mapped k0" "mset xs = mset rs"
    using assms(3) by (auto simp: holds_chunks_def)
  consider (new) "n' = n\<lparr>n_chunks := n_chunks n @ map attached_chunk ?rs\<rparr>" "mapped k' = rev ?rs @ mapped k"
    | (same) "n' = n" "mapped k' = mapped k"
    using h assms(1)
    by (auto simp: handleMessage_def Receive_packet attach_chunks_spec close_attached unmap_all split: if_splits option.splits)
  then have "holds_chunks k0 k' n' \<and> n_nodeEv n' = n_nodeEv n \<and> n_hubEv n' = n_hubEv n"
  proof cases
    case new
    then show ?thesis using rx unfolding holds_chunks_def
      by (intro conjI exI[of _ "rs @ ?rs"] exI[of _ "rev ?rs @ xs"]) simp_all
  next
    case same
    then show ?thesis using rx by (auto simp: holds_chunks_def)
  qed
  with btw show ?thesis by blast
qed

text \<open>The descriptors that stay open after a message that ends the connection.\<close>

definition lost_fds :: "recv_sys \<Rightarrow> int set" where
  "lost_fds os = (if unparsed os then set (recv_fds os) else {})"

lemma handleMessage_holds:
  assumes "rights_complete os" "set (recv_fds os) \<inter> open_fds k0 = {}" "holds_chunks k0 k n" "between k0 E k"
    and h: "handleMessage os mm n k = (err, n', k')"
  shows "(\<exists>k1. holds_chunks k0 k1 n' \<and> between k0 E k1 \<and> k' = k1\<lparr>open_fds := open_fds k1 \<union> lost_fds os\<rparr>)
    \<and> n_nodeEv n' = n_nodeEv n \<and> n_hubEv n' = n_hubEv n \<and> (unparsed os \<longrightarrow> err \<noteq> None)"
  using assms(1)
proof (cases rule: recv_cases)
  case (error c e)
  then show ?thesis using h assms(3,4) by (intro conjI exI[of _ k]) (auto simp: handleMessage_def lost_fds_def)
next
  case (whole packet)
  then have "handleMessage (recv_packet packet (recv_fds os)) mm n k = (err, n', k')" using h by (simp add: handleMessage_def)
  from handle_packet_holds[OF whole(1) assms(2-4) this] whole(2) show ?thesis
    by (intro conjI exI[of _ k']) (auto simp: lost_fds_def)
next
  case lost
  obtain c e buf where "ReceiveMsgWithFDs os [0] k = ((c, [], Some e), buf, k\<lparr>open_fds := open_fds k \<union> set (recv_fds os)\<rparr>)"
    using lost(2)[of "[0]" k] by auto
  with h lost(1) assms(3,4) show ?thesis by (intro conjI exI[of _ k]) (auto simp: handleMessage_def lost_fds_def)
qed

lemma handle_messages_holds:
  assumes "handle_messages mm oss n k = Some (n', k')" "\<forall>os \<in> set oss. rights_complete os \<and> set (recv_fds os) \<inter> open_fds k0 = {}"
    and "holds_chunks k0 k n" "between k0 E k"
  shows "n_nodeEv n' = n_nodeEv n \<and> n_hubEv n' = n_hubEv n \<and> (\<exists>pre os post k1. oss = pre @ os # post \<and> (\<forall>p \<in> set pre. \<not> unparsed p)
    \<and> holds_chunks k0 k1 n' \<and> between k0 E k1 \<and> k' = k1\<lparr>open_fds := open_fds k1 \<union> lost_fds os\<rparr>)"
  using assms
proof (induction oss arbitrary: n k)
  case (Cons os oss)
  obtain err n1 k1 where h: "handleMessage os mm n k = (err, n1, k1)" by (metis prod_cases3)
  obtain k2 where st: "holds_chunks k0 k2 n1" "between k0 E k2" "k1 = k2\<lparr>open_fds := open_fds k2 \<union> lost_fds os\<rparr>"
    "n_nodeEv n1 = n_nodeEv n" "n_hubEv n1 = n_hubEv n" "unparsed os \<longrightarrow> err \<noteq> None"
    using handleMessage_holds[OF _ _ Cons.prems(3,4) h] Cons.prems(2) by auto
  show ?case
  proof (cases err)
    case None
    then have u: "\<not> unparsed os" using st(6) by blast
    then have "k1 = k2" using st(3) by (simp add: lost_fds_def)
    with Cons.IH[of n1 k1] Cons.prems h st None obtain pre o' post k3 where "oss = pre @ o' # post" "\<forall>p \<in> set pre. \<not> unparsed p"
      "holds_chunks k0 k3 n'" "between k0 E k3" "k' = k3\<lparr>open_fds := open_fds k3 \<union> lost_fds o'\<rparr>" "n_nodeEv n' = n_nodeEv n" "n_hubEv n' = n_hubEv n"
      by auto
    with u show ?thesis by (intro conjI exI[of _ "os # pre"] exI[of _ o'] exI[of _ post] exI[of _ k3]) simp_all
  next
    case (Some e)
    with Cons.prems(1) h st show ?thesis
      by (intro conjI exI[of _ "[]"] exI[of _ os] exI[of _ oss] exI[of _ k2]) simp_all
  qed
qed simp

lemma close_session_restores:
  assumes "holds_chunks k0 k n" "between k0 {a, b} k" "a \<notin> open_fds k0" "b \<notin> open_fds k0" "0 \<le> a" "0 \<le> b"
    and "n_nodeEv n = Some \<lparr>ev_fd = a\<rparr>" "n_hubEv n = Some \<lparr>ev_fd = b\<rparr>"
  shows "\<exists>ek'. close_session n (k\<lparr>open_fds := open_fds k \<union> L\<rparr>) ek =
    (n\<lparr>n_chunks := [], n_nodeEv := Some \<lparr>ev_fd = -1\<rparr>, n_hubEv := Some \<lparr>ev_fd = -1\<rparr>\<rparr>, k0\<lparr>open_fds := open_fds k0 \<union> (L - {a, b})\<rparr>, ek')"
proof -
  obtain rs xs where rx: "n_chunks n = map attached_chunk rs" "mapped k = xs @ mapped k0" "mset xs = mset rs"
    using assms(1) by (auto simp: holds_chunks_def)
  have "sys_close b (sys_close a (close_chunks (n_chunks n) (k\<lparr>open_fds := open_fds k \<union> L\<rparr>))) = k0\<lparr>open_fds := open_fds k0 \<union> (L - {a, b})\<rparr>"
    using assms(2-4) rx by (intro kernel_eqI) (auto simp: sys_close_def close_attached unmap_all between_def)
  then show ?thesis using assms(5-8) by (simp add: close_session_def Let_def Eventfd_Close_def)
qed

text \<open>A connection whose handshake is accepted ends with one of the messages that follow.\<close>

lemma session_ends:
  assumes ac: "accepts packet fds" "map_error mm (drop 2 fds) = None"
    and h: "HandleConn (recv_packet packet fds) oss mm n k ek = Some (n', k', ek')"
    and fr: "\<forall>fd \<in> set fds. 0 \<le> fd \<and> fd \<notin> open_fds k"
    and ms: "\<forall>o' \<in> set oss. rights_complete o' \<and> set (recv_fds o') \<inter> open_fds k = {}"
  shows "\<exists>pre o' post. oss = pre @ o' # post \<and> (\<forall>p \<in> set pre. \<not> unparsed p)
    \<and> k' = k\<lparr>open_fds := open_fds k \<union> (lost_fds o' - set (take 2 fds))\<rparr>"
proof -
  let ?s = "session_of mm packet fds" and ?rs = "map_regions mm (drop 2 fds)"
  let ?k1 = "k\<lparr>open_fds := (open_fds k \<union> set fds) - set (drop 2 fds), mapped := rev ?rs @ mapped k\<rparr>"
  have "handshake (recv_packet packet fds) mm k = Some (Inr ?s, ?k1)" using handshake_accepted[OF ac(1), of mm k] ac(2) by simp
  then obtain n1 k1 where m: "handle_messages mm oss (loadSession n ?s) ?k1 = Some (n1, k1)" "close_session n1 k1 ek = (n', k', ek')"
    using h by (auto simp: HandleConn_def split: option.splits)
  obtain a b cs where fds: "fds = a # b # cs" using ac(1) by (auto simp: accepts_def Suc_le_length_iff numeral_3_eq_3)
  have s1: "n_chunks (loadSession n ?s) = map attached_chunk ?rs" "n_nodeEv (loadSession n ?s) = Some \<lparr>ev_fd = a\<rparr>"
    "n_hubEv (loadSession n ?s) = Some \<lparr>ev_fd = b\<rparr>"
    by (simp_all add: loadSession_def session_of_def Let_def AttachEventfd_def fds)
  have "holds_chunks k ?k1 (loadSession n ?s)"
    unfolding holds_chunks_def using s1 by (intro exI[of _ ?rs] exI[of _ "rev ?rs"]) simp
  moreover have "between k {a, b} ?k1" using fr by (auto simp: between_def fds)
  ultimately obtain pre o' post k2 where e: "oss = pre @ o' # post" "\<forall>p \<in> set pre. \<not> unparsed p" "holds_chunks k k2 n1" "between k {a, b} k2"
    "k1 = k2\<lparr>open_fds := open_fds k2 \<union> lost_fds o'\<rparr>" "n_nodeEv n1 = Some \<lparr>ev_fd = a\<rparr>" "n_hubEv n1 = Some \<lparr>ev_fd = b\<rparr>"
    using handle_messages_holds[OF m(1) ms] s1 by metis
  have ev: "a \<notin> open_fds k" "b \<notin> open_fds k" "0 \<le> a" "0 \<le> b" using fr fds by auto
  from close_session_restores[OF e(3,4) ev e(6,7), of "lost_fds o'" ek] m(2) e(5)
  have "k' = k\<lparr>open_fds := open_fds k \<union> (lost_fds o' - set (take 2 fds))\<rparr>" by (auto simp: fds)
  with e(1,2) show ?thesis by blast
qed

subsection \<open>Properties\<close>

lemma map_regions_ok: "\<forall>fd \<in> set fds. mm fd = Inr (r fd) \<Longrightarrow> map_regions mm fds = map r fds"
  by (induction fds) simp_all

lemma ctl_ok_region: "ctl_ok (NewControl \<lparr>Sequence = sq, BlockCount = n, Blocks = map (region_block r) [0..<ControlStripeSize div BlockSize], DataLen = d\<rparr>)"
proof -
  have "blocks_wf (map (region_block r) js)" if "distinct js" for js
    using that by (auto simp: blocks_wf_def list_all_iff block_ok_def region_block_def distinct_map inj_on_def BlockSize_def)
  then show ?thesis by (simp add: ctl_ok_def NewControl_def span_def ControlStripeSize_def BlockSize_def)
qed

text \<open>C19: The handshake delivers what the hub sent. On the hub's message for a node ID between 1 and 63 with
  two event descriptors and the descriptors of its chunks, the node gets that ID, those two event
  descriptors, the chunks in the same order and, as control region, the first 256 blocks of the
  first chunk, which is a well-formed control region. Only the two event descriptors stay open;
  every chunk is mapped once.\<close>

theorem handshake_correct:
  assumes "0 < nodeID" and "nodeID < 64" and "cfds \<noteq> []" and "\<forall>fd \<in> set cfds. mm fd = Inr (r fd)"
    and "distinct (ne # he # cfds)" and "set (ne # he # cfds) \<inter> open_fds k = {}"
  shows "\<exists>s. handshake (recv_packet (HandshakeMessage nodeID) (ne # he # cfds)) mm k =
        Some (Inr s, k\<lparr>open_fds := open_fds k \<union> {ne, he}, mapped := rev (map r cfds) @ mapped k\<rparr>)
      \<and> ns_NodeID s = nodeID \<and> ns_NodeEv s = ne \<and> ns_HubEv s = he \<and> ns_Chunks s = map (attached_chunk \<circ> r) cfds
      \<and> Blocks (ns_ControlStripe s) = map (region_block (r (hd cfds))) [0..<256] \<and> ctl_ok (NewControl (ns_ControlStripe s))"
proof -
  let ?fds = "ne # he # cfds" and ?p = "HandshakeMessage nodeID"
  have n6: "?p ! 6 = word_of_int nodeID" "?p ! 4 = CONN_VERSION" "take 4 ?p = CONN_HEADER"
    by (simp_all add: HandshakeMessage_def CONN_HEADER_def)
  have idv: "uint (word_of_int nodeID :: byte) = nodeID" using assms(1,2) by (simp add: uint_word_of_int)
  have "accepts ?p ?fds"
    using assms(1-3) node_id_bounds[of "?p ! 6"] idv n6 by (cases cfds) (simp_all add: accepts_def MaxNodes_def)
  note h = handshake_accepted[OF this, of mm k]
  have rs: "map_regions mm cfds = map r cfds" by (rule map_regions_ok[OF assms(4)])
  then have me: "map_error mm cfds = None" by (simp add: map_error_None)
  have "open_fds k \<union> set ?fds - set cfds = open_fds k \<union> {ne, he}" using assms(5,6) by auto
  with h rs me idv n6 have "handshake (recv_packet ?p ?fds) mm k =
      Some (Inr (session_of mm ?p ?fds), k\<lparr>open_fds := open_fds k \<union> {ne, he}, mapped := rev (map r cfds) @ mapped k\<rparr>)" by simp
  moreover have "hd (map r cfds) = r (hd cfds)" using assms(3) by (simp add: hd_map)
  moreover have "ControlStripeSize div BlockSize = 256" by (simp add: ControlStripeSize_def BlockSize_def)
  ultimately show ?thesis using idv n6 rs ctl_ok_region[of "[]" 256 "r (hd cfds)" 0]
    by (auto simp: session_of_def Let_def)
qed

theorem handshake_correct_witness:
  "\<exists>s k'. handshake (recv_packet (HandshakeMessage 5) [10, 11, 12, 13]) (\<lambda>fd. Inr (nat fd)) \<lparr>open_fds = {0, 1, 2}, mapped = []\<rparr> = Some (Inr s, k')
    \<and> ns_NodeID s = 5 \<and> open_fds k' = {0, 1, 2, 10, 11} \<and> mapped k' = [13, 12]"
  using handshake_correct[of 5 "[12, 13]" "\<lambda>fd. Inr (nat fd)" nat 10 11 "\<lparr>open_fds = {0, 1, 2}, mapped = []\<rparr>"]
  by (auto simp: insert_commute)

text \<open>C20: The node refuses everything else: a packet is turned down exactly when it is shorter than seven bytes,
  does not start with the header and version, has a node ID outside 1 to 63, comes with fewer than
  three descriptors, or one of the chunks cannot be mapped; then all descriptors that came with it are
  closed and all mappings undone. The one exception is an empty packet, which is refused as the end of
  the connection before its descriptors are looked at: they stay open.\<close>

theorem handshake_rejects:
  assumes "set fds \<inter> open_fds k = {}"
  shows "(\<exists>err. handshake (recv_packet packet fds) mm k =
        Some (Inl err, if packet = [] then k\<lparr>open_fds := open_fds k \<union> set fds\<rparr> else k))
    \<longleftrightarrow> \<not> (7 \<le> length packet \<and> take 4 packet = CONN_HEADER \<and> packet ! 4 = CONN_VERSION
         \<and> 0 < packet ! 6 \<and> packet ! 6 < 64 \<and> 3 \<le> length fds \<and> (\<forall>fd \<in> set (drop 2 fds). \<exists>r. mm fd = Inr r))"
proof -
  have "open_fds k - set fds = open_fds k" using assms by auto
  then have k: "k\<lparr>open_fds := open_fds k - set fds\<rparr> = k" by simp
  have me: "map_error mm xs = None \<longleftrightarrow> (\<forall>fd \<in> set xs. \<exists>r. mm fd = Inr r)" for xs
    by (induction xs) (auto split: sum.splits)
  have ac: "accepts packet fds \<longleftrightarrow> 7 \<le> length packet \<and> take 4 packet = CONN_HEADER \<and> packet ! 4 = CONN_VERSION
      \<and> 0 < packet ! 6 \<and> packet ! 6 < 64 \<and> 3 \<le> length fds" by (simp add: accepts_def MaxNodes_def)
  show ?thesis
  proof (cases "accepts packet fds")
    case True
    then have "packet \<noteq> []" by (auto simp: accepts_def)
    then show ?thesis using handshake_accepted[OF True, of mm k] k me[of "drop 2 fds"] ac True
      by (auto split: option.splits)
  next
    case False
    then show ?thesis using handshake_rejected[OF False, of mm k] k ac by (cases "packet = []") auto
  qed
qed

theorem handshake_rejects_witness:
  "\<exists>err. handshake (recv_packet (HandshakeMessage 64) [10, 11, 12]) (\<lambda>fd. Inr 0) \<lparr>open_fds = {0}, mapped = []\<rparr> = Some (Inl err, \<lparr>open_fds = {0}, mapped = []\<rparr>)"
  using handshake_rejects[of "[10, 11, 12]" "\<lparr>open_fds = {0}, mapped = []\<rparr>" "HandshakeMessage 64" "\<lambda>fd. Inr 0"]
  by (simp add: HandshakeMessage_def CONN_HEADER_def)

text \<open>C18: What a connection leaves behind. Whatever the hub sends (handshakes good or bad, any number of chunks and
  other messages, mappings that succeed or fail, empty packets, control messages that do not parse), when
  the connection ends the process has exactly the mappings it had before, and exactly the descriptors
  it had before together with those of the message that ended the connection, when that one was empty or
  its control messages did not parse: \<open>ReceiveMsgWithFDs\<close> loses these. Every message before it was
  taken whole and cleaned up.\<close>

theorem session_no_leak:
  assumes "HandleConn os oss mm n k ek = Some (n', k', ek')" and "\<forall>o' \<in> set (os # oss). rights_complete o'"
    and "\<forall>o' \<in> set (os # oss). \<forall>fd \<in> set (recv_fds o'). 0 \<le> fd \<and> fd \<notin> open_fds k"
  shows "if unparsed os then k' = k\<lparr>open_fds := open_fds k \<union> set (recv_fds os)\<rparr>
    else (\<exists>err. handshake os mm k = Some (Inl err, k)) \<and> k' = k
      \<or> (\<exists>pre o' post. oss = pre @ o' # post \<and> (\<forall>p \<in> set pre. \<not> unparsed p)
           \<and> (if unparsed o' then k' = k\<lparr>open_fds := open_fds k \<union> (set (recv_fds o') - set (take 2 (recv_fds os)))\<rparr> else k' = k))"
proof -
  have "rights_complete os" using assms(2) by simp
  then show ?thesis
  proof (cases rule: recv_cases)
    case (error c e)
    then have "handshake os mm k = Some (Inl (Errno e), k)" by (simp add: handshake_def)
    then show ?thesis using assms(1) error(2) by (auto simp: HandleConn_def)
  next
    case lost
    obtain c e buf where "ReceiveMsgWithFDs os (replicate 7 0) k = ((c, [], Some e), buf, k\<lparr>open_fds := open_fds k \<union> set (recv_fds os)\<rparr>)"
      using lost(2)[of "replicate 7 0" k] by auto
    then have "handshake os mm k = Some (Inl e, k\<lparr>open_fds := open_fds k \<union> set (recv_fds os)\<rparr>)" by (simp add: handshake_def)
    then show ?thesis using assms(1) lost(1) by (auto simp: HandleConn_def)
  next
    case (whole packet)
    let ?fds = "recv_fds os"
    have hs: "handshake os mm k = handshake (recv_packet packet ?fds) mm k" using whole(3) by (simp add: handshake_def)
    show ?thesis
    proof (cases "accepts packet ?fds \<and> map_error mm (drop 2 ?fds) = None")
      case False
      have "open_fds k - set ?fds = open_fds k" using assms(3) by auto
      then obtain err where "handshake os mm k = Some (Inl err, k)" using handshake_failed[OF whole(1) False, of k] hs by auto
      then show ?thesis using assms(1) whole(2) by (auto simp: HandleConn_def)
    next
      case True
      have "HandleConn (recv_packet packet ?fds) oss mm n k ek = Some (n', k', ek')" using assms(1) hs by (simp add: HandleConn_def)
      moreover have "\<forall>fd \<in> set ?fds. 0 \<le> fd \<and> fd \<notin> open_fds k" using assms(3) by simp
      moreover have "\<forall>o' \<in> set oss. rights_complete o' \<and> set (recv_fds o') \<inter> open_fds k = {}" using assms(2,3) by auto
      ultimately obtain pre o' post where "oss = pre @ o' # post" "\<forall>p \<in> set pre. \<not> unparsed p"
        "k' = k\<lparr>open_fds := open_fds k \<union> (lost_fds o' - set (take 2 ?fds))\<rparr>"
        using session_ends True by blast
      then have "\<exists>pre o' post. oss = pre @ o' # post \<and> (\<forall>p \<in> set pre. \<not> unparsed p)
           \<and> (if unparsed o' then k' = k\<lparr>open_fds := open_fds k \<union> (set (recv_fds o') - set (take 2 ?fds))\<rparr> else k' = k)"
        by (intro exI[of _ pre] exI[of _ o'] exI[of _ post]) (simp add: lost_fds_def)
      then show ?thesis unfolding if_not_P[OF whole(2)] by (rule disjI2)
    qed
  qed
qed

theorem session_no_leak_witness:
  "\<exists>n' ek'. HandleConn (recv_packet (HandshakeMessage 5) [10, 11, 12])
      [recv_packet NewChunkMessage [13, 14], recv_packet ReleaseMessage [], \<lparr>rs_read = Inl (0, 104), rs_scms = Inr []\<rparr>]
      (\<lambda>fd. Inr (nat fd)) NewNode \<lparr>open_fds = {0, 1, 2}, mapped = []\<rparr> ex_efds
    = Some (n', \<lparr>open_fds = {0, 1, 2}, mapped = []\<rparr>, ek')"
proof -
  let ?k = "\<lparr>open_fds = {0, 1, 2}, mapped = []\<rparr>" and ?mm = "\<lambda>fd :: int. Inr (nat fd) :: nat + nat"
  let ?os = "recv_packet (HandshakeMessage 5) [10, 11, 12]"
  let ?oss = "[recv_packet NewChunkMessage [13, 14], recv_packet ReleaseMessage [], \<lparr>rs_read = Inl (0, 104), rs_scms = Inr []\<rparr>]"
  have "accepts (HandshakeMessage 5) [10, 11, 12]"
    by (simp add: accepts_def HandshakeMessage_def CONN_HEADER_def MaxNodes_def)
  from handshake_accepted[OF this, of ?mm ?k] obtain s k1 where h: "handshake ?os ?mm ?k = Some (Inr s, k1)" by auto
  have "ReceiveMsgWithFDs \<lparr>rs_read = Inl (0, 104), rs_scms = Inr []\<rparr> [0] k = ((0, [], Some (Errno 104)), [0], k)" for k
    by (simp add: ReceiveMsgWithFDs_def)
  then have "\<exists>n' k'. handle_messages ?mm ?oss n k = Some (n', k')" for n k
    by (simp add: handleMessage_def Receive_packet NewChunkMessage_def ReleaseMessage_def msg_types attach_chunks_spec)
  then obtain n2 k2 where m: "handle_messages ?mm ?oss (loadSession NewNode s) k1 = Some (n2, k2)" by blast
  obtain n' k' ek' where c: "close_session n2 k2 ex_efds = (n', k', ek')" by (metis prod_cases3)
  have r: "HandleConn ?os ?oss ?mm NewNode ?k ex_efds = Some (n', k', ek')"
    unfolding HandleConn_def h option.case prod.case sum.case m c by (rule refl)
  have "rights_complete \<lparr>rs_read = Inl (0, 104), rs_scms = Inr []\<rparr>" "rights_complete (recv_packet p f)" "recv_fds (recv_packet p f) = f"
    "unparsed (recv_packet p f) \<longleftrightarrow> p = []" "\<not> unparsed \<lparr>rs_read = Inl (0, 104), rs_scms = Inr []\<rparr>" for p f
    by (simp_all add: rights_complete_def recv_packet_def recv_fds_def unparsed_def)
  note rc = this
  have p: "HandshakeMessage 5 \<noteq> []" "NewChunkMessage \<noteq> []" "ReleaseMessage \<noteq> []"
    by (simp_all add: HandshakeMessage_def NewChunkMessage_def ReleaseMessage_def)
  have no: "\<not> unparsed ?os" "\<forall>o' \<in> set ?oss. \<not> unparsed o'" using p rc by simp_all
  have all: "\<forall>o' \<in> set (?os # ?oss). rights_complete o'"
    "\<forall>o' \<in> set (?os # ?oss). \<forall>fd \<in> set (recv_fds o'). 0 \<le> fd \<and> fd \<notin> open_fds ?k"
    using rc by (simp_all add: recv_fds_def recv_packet_def)
  have "k' = ?k"
    using session_no_leak[OF r all] no by (metis in_set_conv_decomp)
  with r show ?thesis by blast
qed

end
