(* ===== verification/Node_Conn.thy ===== *)
theory Node_Conn
  imports Node_Session
begin

text \<open>
  \<^verbatim>\<open>go/node/node.go\<close>, the requests a node serves: the event loop, the reconstruction of a stripe from
  its slot, the connection object given to the handler, and the response.

  \<open>nodeState\<close> adds to the node the shared memory, the event counters, the map \<open>waiters\<close>, the answers handed
  over, and the slots whose processing has been started as a goroutine. A waiter is an unbuffered
  channel; the map says whether somebody receives from it: \<open>True\<close> while its \<open>RequestExpand\<close> is on the way to
  the receive, \<open>False\<close> when it has returned without one. The handler and what the rest of the system
  does while an expansion request waits for its answer are arguments.
\<close>

record nodeState = node +
  n_mem :: mem
  n_efds :: efds
  n_waiters :: "uint32 \<Rightarrow> bool option"
  n_answers :: "(uint32 \<times> bool) list"
  n_spawned :: "uint32 list"

record nodeConn =
  nc_stripe :: stripe
  nc_readOff :: int
  nc_writeOff :: int
  nc_slotID :: uint32
  nc_failed :: bool

datatype 'a run = Returns 'a | Panics | Waits

subsection \<open>Chunks and blocks\<close>

text \<open>\<open>getChunk\<close> polls until the chunk has arrived; without interference it waits for ever. A positive
  chunk ID is a negative index, which panics.\<close>

definition getChunk :: "chunk list \<Rightarrow> int16 \<Rightarrow> chunk run" where
  "getChunk cks cid =
     (let realCID = sint (NOT cid) in
      if realCID < int (length cks) then (if 0 \<le> realCID then Returns (cks ! nat realCID) else Panics) else Waits)"

definition data_block :: "chunk list \<Rightarrow> int16 \<Rightarrow> int16 \<Rightarrow> slice run" where
  "data_block cks cid i =
     (case getChunk cks cid of
        Returns ck \<Rightarrow>
          (let off = sint i * int BlockSize in
           case chunk_slice ck off (off + int BlockSize) of Some b \<Rightarrow> Returns b | None \<Rightarrow> Panics)
      | Panics \<Rightarrow> Panics | Waits \<Rightarrow> Waits)"

text \<open>The loop over the sequence in \<open>processSlot\<close>, and the one in \<open>OnExpandComplete\<close>, which skips the blocks
  of the first \<open>l\<close> entries; \<open>i\<close> is the index of the first entry.\<close>

fun load_blocks :: "chunk list \<Rightarrow> int16 \<Rightarrow> int16 list \<Rightarrow> slice list run" where
  "load_blocks cks chunkID [] = Returns []"
| "load_blocks cks chunkID (v # vs) =
     (if sint v < 0 then load_blocks cks v vs
      else case data_block cks chunkID v of
          Returns b \<Rightarrow> (case load_blocks cks chunkID vs of Returns bs \<Rightarrow> Returns (b # bs) | Panics \<Rightarrow> Panics | Waits \<Rightarrow> Waits)
        | Panics \<Rightarrow> Panics | Waits \<Rightarrow> Waits)"

fun expand_blocks :: "chunk list \<Rightarrow> nat \<Rightarrow> int16 \<Rightarrow> nat \<Rightarrow> int16 list \<Rightarrow> slice list run" where
  "expand_blocks cks l lastChunkID i [] = Returns []"
| "expand_blocks cks l lastChunkID i (v # vs) =
     (if sint v < 0 then expand_blocks cks l v (Suc i) vs
      else if i < l then expand_blocks cks l lastChunkID (Suc i) vs
      else case data_block cks lastChunkID v of
          Returns b \<Rightarrow> (case expand_blocks cks l lastChunkID (Suc i) vs of
              Returns bs \<Rightarrow> Returns (b # bs) | Panics \<Rightarrow> Panics | Waits \<Rightarrow> Waits)
        | Panics \<Rightarrow> Panics | Waits \<Rightarrow> Waits)"

text \<open>The header block of a slot and what it says, the first lines of \<open>processSlot\<close> and \<open>OnExpandComplete\<close>.\<close>

definition slot_header :: "mem \<Rightarrow> control \<Rightarrow> chunk list \<Rightarrow> uint32 \<Rightarrow> (int16 \<times> uint32 \<times> int \<times> int16 list) run" where
  "slot_header m c cks slotID =
     (case GetStripeHeader m c slotID of
        None \<Rightarrow> Panics
      | Some (cid, off) \<Rightarrow>
          (case data_block cks cid off of
             Returns headerBlk \<Rightarrow>
               (case DecodeHeader m headerBlk of
                  Some (dataLen, blkCnt, seq) \<Rightarrow> Returns (cid, dataLen, blkCnt, seq) | None \<Rightarrow> Panics)
           | Panics \<Rightarrow> Panics | Waits \<Rightarrow> Waits))"

text \<open>The stripe \<open>processSlot\<close> gives to the handler.\<close>

definition slot_stripe :: "mem \<Rightarrow> control \<Rightarrow> chunk list \<Rightarrow> uint32 \<Rightarrow> stripe run" where
  "slot_stripe m c cks slotID =
     (case slot_header m c cks slotID of
        Returns (cid, dataLen, blkCnt, seq) \<Rightarrow>
          (case load_blocks cks cid seq of
             Returns blocks \<Rightarrow> Returns \<lparr>Sequence = seq, BlockCount = blkCnt, Blocks = blocks, DataLen = dataLen\<rparr>
           | Panics \<Rightarrow> Panics | Waits \<Rightarrow> Waits)
      | Panics \<Rightarrow> Panics | Waits \<Rightarrow> Waits)"

subsection \<open>Serving a slot\<close>

partial_function (option) push_response_loop :: "mem \<Rightarrow> control \<Rightarrow> uint32 \<Rightarrow> mem option" where
  "push_response_loop m c slotID =
     Option.bind (Push m c (GetNodeReqQueueOffset 0) slotID CMD_PROCESS) (\<lambda>(m, ok).
       if ok then Some m else push_response_loop m c slotID)"

definition pushResponse :: "nodeState \<Rightarrow> uint32 \<Rightarrow> nodeState option" where
  "pushResponse n slotID = do {
     c \<leftarrow> n_ctrl n;
     m \<leftarrow> push_response_loop (n_mem n) c slotID;
     ev \<leftarrow> n_hubEv n;
     (err, ek) \<leftarrow> Notify (n_efds n) ev;
     Some (n\<lparr>n_mem := m, n_efds := ek\<rparr>)
   }"

definition finish_slot :: "nodeState \<Rightarrow> uint32 \<Rightarrow> nodeState option" where
  "finish_slot n slotID = do {
     c \<leftarrow> n_ctrl n;
     m \<leftarrow> SetStripeStatus (n_mem n) c slotID StripeStatusDone;
     pushResponse (n\<lparr>n_mem := m\<rparr>) slotID
   }"

text \<open>A handler changes the node's state and the connection, panics (after some changes), or never returns.
  A panic of the handler or of the reconstruction is recovered and answered like a completed request.\<close>

type_synonym handler = "nodeState \<Rightarrow> nodeConn \<Rightarrow> nodeState \<times> nodeConn run"

definition processSlot :: "handler option \<Rightarrow> nodeState \<Rightarrow> uint32 \<Rightarrow> nodeState option" where
  "processSlot handler n slotID = do {
     c \<leftarrow> n_ctrl n;
     (case slot_stripe (n_mem n) c (n_chunks n) slotID of
        Waits \<Rightarrow> None
      | Panics \<Rightarrow> finish_slot n slotID
      | Returns s \<Rightarrow>
          (let conn = \<lparr>nc_stripe = s, nc_readOff = 0, nc_writeOff = 0, nc_slotID = slotID, nc_failed = False\<rparr> in
           case (case handler of None \<Rightarrow> (n, Returns conn) | Some h \<Rightarrow> h n conn) of
             (n, Waits) \<Rightarrow> None
           | (n, Panics) \<Rightarrow> finish_slot n slotID
           | (n, Returns conn) \<Rightarrow> if nc_failed conn then Some n else finish_slot n slotID))
   }"

subsection \<open>The connection of a handler\<close>

definition node_ReadAt :: "nodeState \<Rightarrow> nodeConn \<Rightarrow> byte list \<Rightarrow> int \<Rightarrow> (byte list \<times> int \<times> go_error option) option" where
  "node_ReadAt n c p off = ReadAt (n_mem n) (nc_stripe c) p off"

definition node_Read :: "nodeState \<Rightarrow> nodeConn \<Rightarrow> byte list \<Rightarrow> (byte list \<times> int \<times> go_error option \<times> nodeConn) option" where
  "node_Read n c p = do {
     (p, k, err) \<leftarrow> ReadAt (n_mem n) (nc_stripe c) p (nc_readOff c);
     (case err of
        Some e \<Rightarrow> Some (p, k, Some e, c)
      | None \<Rightarrow> Some (p, k, None, c\<lparr>nc_readOff := i64 (nc_readOff c + k)\<rparr>))
   }"

definition node_ReadByte :: "nodeState \<Rightarrow> nodeConn \<Rightarrow> (byte \<times> go_error option \<times> nodeConn) option" where
  "node_ReadByte n c = do {
     (b, err) \<leftarrow> ReadByteAt (n_mem n) (nc_stripe c) (nc_readOff c);
     Some (b, err, if err = None then c\<lparr>nc_readOff := i64 (nc_readOff c + 1)\<rparr> else c)
   }"

text \<open>\<open>reply\<close> is everything that happens until the answer arrives, and the answer; \<open>None\<close> when none comes.\<close>

type_synonym reply = "nodeState \<Rightarrow> (bool \<times> nodeState) option"

definition RequestExpand :: "reply \<Rightarrow> nodeState \<Rightarrow> nodeConn \<Rightarrow> (go_error option \<times> nodeState \<times> nodeConn) option" where
  "RequestExpand reply n c = do {
     let n = n\<lparr>n_waiters := (n_waiters n)(nc_slotID c \<mapsto> True)\<rparr>;
     ctl \<leftarrow> n_ctrl n;
     (m, ok) \<leftarrow> Push (n_mem n) ctl OFF_RESP_QUEUE (nc_slotID c) CMD_REQUEST_EXPAND;
     let n = n\<lparr>n_mem := m\<rparr>;
     if \<not> ok then Some (Some ExpandPushFailed, n\<lparr>n_waiters := (n_waiters n)(nc_slotID c \<mapsto> False)\<rparr>, c)
     else do {
       ev \<leftarrow> n_hubEv n;
       (err, ek) \<leftarrow> Notify (n_efds n) ev;
       (ok, n) \<leftarrow> reply (n\<lparr>n_efds := ek\<rparr>);
       if \<not> ok then Some (Some ExpandFailed, n, c\<lparr>nc_failed := True\<rparr>) else Some (None, n, c)
     }
   }"

definition OnExpandComplete :: "nodeState \<Rightarrow> nodeConn \<Rightarrow> nodeConn run" where
  "OnExpandComplete n c =
     (case n_ctrl n of
        None \<Rightarrow> Panics
      | Some ctl \<Rightarrow>
          (case slot_header (n_mem n) ctl (n_chunks n) (nc_slotID c) of
             Returns (cid, _, _, newSequence) \<Rightarrow>
               (let s = nc_stripe c in
                case expand_blocks (n_chunks n) (length (Sequence s)) 0 0 newSequence of
                  Returns blocks \<Rightarrow> Returns (c\<lparr>nc_stripe := s\<lparr>Blocks := Blocks s @ blocks, Sequence := newSequence\<rparr>\<rparr>)
                | Panics \<Rightarrow> Panics | Waits \<Rightarrow> Waits)
           | Panics \<Rightarrow> Panics | Waits \<Rightarrow> Waits))"

definition userCap :: "nodeConn \<Rightarrow> int" where
  "userCap c = BlockCount (nc_stripe c) * int BlockSize - int BlockSize"

text \<open>The loop \<open>for needCap > userCap\<close> of \<open>WriteAt\<close> and \<open>WriteByte\<close>: the error of a failed request or nil.\<close>

partial_function (option) expand_loop ::
  "reply \<Rightarrow> nodeState \<Rightarrow> nodeConn \<Rightarrow> int \<Rightarrow> (go_error option \<times> nodeState \<times> nodeConn) option" where
  "expand_loop reply n c needCap =
     (if needCap > userCap c then
        Option.bind (RequestExpand reply n c) (\<lambda>(err, n, c).
          case err of
            Some e \<Rightarrow> Some (Some e, n, c)
          | None \<Rightarrow>
              (case OnExpandComplete n c of
                 Returns c \<Rightarrow> expand_loop reply n c needCap
               | Panics \<Rightarrow> None | Waits \<Rightarrow> None))
      else Some (None, n, c))"

definition node_WriteAt ::
  "reply \<Rightarrow> nodeState \<Rightarrow> nodeConn \<Rightarrow> byte list \<Rightarrow> int \<Rightarrow> (int \<times> go_error option \<times> nodeState \<times> nodeConn) option" where
  "node_WriteAt reply n c p off = do {
     let needCap = i64 (off + int (length p));
     if needCap > int StripeDataSizeLimit then Some (0, Some LimitReached, n, c)
     else do {
       (err, n, c) \<leftarrow> expand_loop reply n c needCap;
       (case err of
          Some e \<Rightarrow> Some (0, Some e, n, c)
        | None \<Rightarrow> do {
            (m, s, k, err) \<leftarrow> WriteAt (n_mem n) (nc_stripe c) p off;
            Some (k, err, n\<lparr>n_mem := m\<rparr>, c\<lparr>nc_stripe := s\<rparr>)
          })
     }
   }"

definition node_Write ::
  "reply \<Rightarrow> nodeState \<Rightarrow> nodeConn \<Rightarrow> byte list \<Rightarrow> (int \<times> go_error option \<times> nodeState \<times> nodeConn) option" where
  "node_Write reply n c p = do {
     (k, err, n, c) \<leftarrow> node_WriteAt reply n c p (nc_writeOff c);
     (case err of
        Some e \<Rightarrow> Some (0, Some e, n, c)
      | None \<Rightarrow> Some (k, None, n, c\<lparr>nc_writeOff := i64 (nc_writeOff c + k)\<rparr>))
   }"

definition node_WriteByte ::
  "reply \<Rightarrow> nodeState \<Rightarrow> nodeConn \<Rightarrow> byte \<Rightarrow> (go_error option \<times> nodeState \<times> nodeConn) option" where
  "node_WriteByte reply n c b = do {
     let needCap = i64 (nc_writeOff c + 1);
     if needCap > int StripeDataSizeLimit then Some (Some LimitReached, n, c)
     else do {
       (err, n, c) \<leftarrow> expand_loop reply n c needCap;
       (case err of
          Some e \<Rightarrow> Some (Some e, n, c)
        | None \<Rightarrow> do {
            (m, s, err) \<leftarrow> WriteByteAt (n_mem n) (nc_stripe c) b (nc_writeOff c);
            Some (err, n\<lparr>n_mem := m\<rparr>, c\<lparr>nc_stripe := s\<rparr>)
          })
     }
   }"

subsection \<open>The event loop\<close>

text \<open>The answer to an expansion request goes to the waiter of the slot, if there is one. Nobody receives from
  the channel that a \<open>RequestExpand\<close> has left behind: sending to it blocks for ever.\<close>

definition answer :: "nodeState \<Rightarrow> uint32 \<Rightarrow> bool \<Rightarrow> nodeState option" where
  "answer n slotID ok =
     (case n_waiters n slotID of
        None \<Rightarrow> Some n
      | Some receives \<Rightarrow>
          if receives
          then Some (n\<lparr>n_answers := n_answers n @ [(slotID, ok)], n_waiters := (n_waiters n)(slotID := None)\<rparr>)
          else None)"

definition handle_cmd :: "nodeState \<Rightarrow> uint32 \<Rightarrow> uint32 \<Rightarrow> nodeState option" where
  "handle_cmd n slotID cmd =
     (if cmd = CMD_PROCESS then Some (n\<lparr>n_spawned := n_spawned n @ [slotID]\<rparr>)
      else if cmd = CMD_RELEASE then do {
        c \<leftarrow> n_ctrl n;
        m \<leftarrow> FreeSlot (n_mem n) c slotID;
        Some (n\<lparr>n_mem := m\<rparr>)
      }
      else if cmd = CMD_EXPAND_READY then answer n slotID True
      else if cmd = CMD_EXPAND_ERROR then answer n slotID False
      else Some n)"

partial_function (option) drain_loop :: "nodeState \<Rightarrow> nat \<Rightarrow> nodeState option" where
  "drain_loop n reqQOff =
     Option.bind (n_ctrl n) (\<lambda>c.
     Option.bind (Pop (n_mem n) c reqQOff) (\<lambda>(m, slotID, cmd, ok).
       if \<not> ok then Some (n\<lparr>n_mem := m\<rparr>)
       else Option.bind (handle_cmd (n\<lparr>n_mem := m\<rparr>) slotID cmd) (\<lambda>n. drain_loop n reqQOff)))"

text \<open>One turn of \<open>StartEventLoop\<close>: the error that ends the loop, or the state after the queue is drained.\<close>

definition event_turn :: "nodeState \<Rightarrow> (go_error option \<times> nodeState) option" where
  "event_turn n = do {
     ev \<leftarrow> n_nodeEv n;
     (err, ek) \<leftarrow> Wait (n_efds n) ev;
     let n = n\<lparr>n_efds := ek\<rparr>;
     (case err of
        Some e \<Rightarrow> Some (Some e, n)
      | None \<Rightarrow> map_option (\<lambda>n. (None, n)) (drain_loop n (GetNodeReqQueueOffset (nat (n_nodeID n)))))
   }"

end
