(* ===== verification/Stripe_Sharing.thy ===== *)
theory Stripe_Sharing
  imports Hub_Conn Node_Conn
begin

text \<open>
  A stripe is shared between hub and node through its header block: the hub writes the sequence of
  its blocks there, and either side rebuilds the list of blocks from it. This theory shows that the
  rebuilt stripe is the original one: for the node when it gets a request, and for either side
  after the other has let the stripe grow.
\<close>

subsection \<open>Rebuilding blocks from a sequence\<close>

text \<open>The three loops over a decoded sequence (\<open>processSlot\<close>, \<open>OnExpandComplete\<close>, \<open>refreshStripe\<close>) share one
  contract: \<open>get\<close> looks up a block, \<open>load\<close> collects the blocks of the entries from index \<open>l\<close> on.\<close>

locale sequence_loader =
  fixes get :: "int16 \<Rightarrow> int16 \<Rightarrow> slice option"
    and load :: "nat \<Rightarrow> int16 \<Rightarrow> nat \<Rightarrow> int16 list \<Rightarrow> slice list option"
  assumes load_Nil: "load l c i [] = Some []"
    and load_chunk: "sint v < 0 \<Longrightarrow> load l c i (v # vs) = load l v (Suc i) vs"
    and load_skip: "0 \<le> sint v \<Longrightarrow> i < l \<Longrightarrow> load l c i (v # vs) = load l c (Suc i) vs"
    and load_get: "0 \<le> sint v \<Longrightarrow> l \<le> i \<Longrightarrow> get c v = Some b \<Longrightarrow> load l c i (v # vs) = map_option ((#) b) (load l c (Suc i) vs)"
begin

definition finds :: "block \<Rightarrow> bool" where
  "finds blk \<longleftrightarrow> addr_block blk \<and> get (bk_ChunkID blk) (bk_BlockIdx blk) = Some (bk_Data blk)"

lemma load_all:
  "list_all finds blks \<Longrightarrow> l \<le> i \<Longrightarrow> load l c i (append_sequence c [] blks) = Some (map bk_Data blks)"
proof (induction blks arbitrary: c i)
  case (Cons blk blks)
  have f: "sint (bk_ChunkID blk) < 0" "0 \<le> sint (bk_BlockIdx blk)" "get (bk_ChunkID blk) (bk_BlockIdx blk) = Some (bk_Data blk)"
    using Cons.prems(1) by (simp_all add: finds_def addr_block_def)
  have IH: "load l (bk_ChunkID blk) j (append_sequence (bk_ChunkID blk) [] blks) = Some (map bk_Data blks)" if "i \<le> j" for j
    using Cons.IH Cons.prems that by simp
  have g: "load l (bk_ChunkID blk) j (bk_BlockIdx blk # append_sequence (bk_ChunkID blk) [] blks) = Some (map bk_Data (blk # blks))" if "i \<le> j" for j
    using load_get[OF f(2) _ f(3), of l j] IH[of "Suc j"] that Cons.prems(2) by simp
  show ?case
  proof (cases "bk_ChunkID blk = c")
    case True
    then show ?thesis using g[of i] by (simp add: append_sequence_Cons del: append_sequence.simps)
  next
    case False
    then show ?thesis using g[of "Suc i"] load_chunk[OF f(1)] by (simp add: append_sequence_Cons del: append_sequence.simps)
  qed
qed (simp add: load_Nil)

lemma load_skips: "i + length xs \<le> l \<Longrightarrow> load l c i (xs @ ys) = load l (seq_chunk c xs) (i + length xs) ys"
proof (induction xs arbitrary: c i)
  case (Cons v xs)
  then have le: "i < l" "Suc i + length xs \<le> l" by simp_all
  show ?case
  proof (cases "sint v < 0")
    case True
    then show ?thesis using Cons.IH[OF le(2), of v] load_chunk[OF True] by (simp add: seq_chunk_def)
  next
    case False
    then show ?thesis using Cons.IH[OF le(2), of c] load_skip[OF _ le(1)] by (simp add: seq_chunk_def)
  qed
qed (simp add: seq_chunk_def)

text \<open>The blocks of a sequence that has grown by \<open>new\<close>.\<close>

lemma load_grown:
  assumes "list_all addr_block old" "list_all finds new"
  shows "load (length (append_sequence 0 [] old)) 0 0 (append_sequence 0 [] (old @ new)) = Some (map bk_Data new)"
  using load_skips[of 0 "append_sequence 0 [] old" "length (append_sequence 0 [] old)" 0] load_all[OF assms(2), of _ _ "seq_chunk 0 (append_sequence 0 [] old)"]
  by (simp add: append_sequence_append[OF assms(1)])

end

definition hub_get :: "bus \<Rightarrow> int16 \<Rightarrow> int16 \<Rightarrow> slice option" where
  "hub_get b c v = Option.bind (GetChunk b c) (\<lambda>ck. chunk_slice ck (sint v * int BlockSize) (sint v * int BlockSize + int BlockSize))"

definition run_option :: "'a run \<Rightarrow> 'a option" where
  "run_option r = (case r of Returns x \<Rightarrow> Some x | Panics \<Rightarrow> None | Waits \<Rightarrow> None)"

interpretation hl: sequence_loader "hub_get b" "refresh_blocks b" for b
  by unfold_locales (auto simp: hub_get_def map_option_case split: bind_splits option.splits)

interpretation nl: sequence_loader "\<lambda>c v. run_option (data_block cks c v)" "\<lambda>l c i vs. run_option (expand_blocks cks l c i vs)" for cks
  by unfold_locales (auto simp: run_option_def split: run.splits)

lemma load_blocks_expand: "load_blocks cks c vs = expand_blocks cks 0 c i vs"
  by (induction cks c vs arbitrary: i rule: load_blocks.induct) (auto split: run.splits; metis)+

end
