(* ===== verification/Stripe_Handover.thy ===== *)
theory Stripe_Handover
  imports Stripe_Sharing
begin

text \<open>
  The stripe that one side rebuilds from the header block is the stripe of the other side.

  \<open>header_synced\<close> says that the header block describes the stripe; it holds after every update of the
  header as long as the sequence fits the block, and survives writes to the data.
\<close>

subsection \<open>The header describes the stripe\<close>

definition header_synced :: "mem \<Rightarrow> stripe \<Rightarrow> bool" where
  "header_synced m s \<longleftrightarrow> DecodeHeader m (Blocks s ! 0) = Some (DataLen s, BlockCount s, Sequence s)"

lemma get_sequence_cong:
  assumes "\<And>j. 8 + 2 * i \<le> j \<Longrightarrow> j < sl_len h \<Longrightarrow> m' (sl_region h) (sl_off h + j) = m (sl_region h) (sl_off h + j)"
  shows "get_sequence m' h i n = get_sequence m h i n"
  using assms
proof (induction n arbitrary: i)
  case (Suc n)
  show ?case
  proof (cases "HEADER_SEQ_START_OFF + i * 2 + 2 > sl_len h")
    case False
    then have "mem_read m' (sl_region h) (sl_off h + (HEADER_SEQ_START_OFF + i * 2)) 2 = mem_read m (sl_region h) (sl_off h + (HEADER_SEQ_START_OFF + i * 2)) 2"
      using Suc.prems by (intro nth_equalityI) (simp_all add: offset_consts add.assoc)
    moreover have "get_sequence m' h (Suc i) n = get_sequence m h (Suc i) n" using Suc.prems by (intro Suc.IH) simp
    ultimately show ?thesis by (simp add: Let_def load16_def)
  qed simp
qed simp

text \<open>Changing the data length changes nothing else the header says.\<close>

lemma DecodeHeader_cong:
  assumes "\<And>j. 4 \<le> j \<Longrightarrow> j < sl_len h \<Longrightarrow> m' (sl_region h) (sl_off h + j) = m (sl_region h) (sl_off h + j)"
    and "DecodeHeader m h = Some (d, n, sq)"
  shows "DecodeHeader m' h = Some (load32 m' (slice_ptr h 0), n, sq)"
proof -
  have len: "8 \<le> sl_len h" using assms(2) by (auto simp: DecodeHeader_def Uint32_at_def Uint16_at_def offset_consts split: bind_splits if_splits)
  have "mem_read m' (sl_region h) (sl_off h + k) 2 = mem_read m (sl_region h) (sl_off h + k) 2" if "k = 4 \<or> k = 6" for k
    using that len assms(1) by (intro nth_equalityI) (auto simp: add.assoc)
  then have "load16 m' (slice_ptr h 4) = load16 m (slice_ptr h 4)" "load16 m' (slice_ptr h 6) = load16 m (slice_ptr h 6)"
    by (simp_all add: load16_def)
  moreover have "get_sequence m' h 0 k = get_sequence m h 0 k" for k by (rule get_sequence_cong) (simp add: assms(1))
  ultimately show ?thesis
    using assms(2) len by (simp add: DecodeHeader_def Uint32_at_def Uint16_at_def offset_consts)
qed

lemma header_cell: "blocks_wf blks \<Longrightarrow> blks \<noteq> [] \<Longrightarrow> j < BlockSize \<Longrightarrow>
  cell m blks j = m (sl_region (blks ! 0)) (sl_off (blks ! 0) + j)"
  by (simp add: cell_def)

lemma header_synced_cong:
  assumes ok: "stripe_ok m s" "stripe_ok m' s'" and s': "Blocks s' = Blocks s" "Sequence s' = Sequence s" "BlockCount s' = BlockCount s"
    and rest: "header_rest m' s' = header_rest m s" and sy: "header_synced m s"
  shows "header_synced m' s'"
proof -
  note okD = stripe_okD[OF ok(1)]
  let ?h = "Blocks s ! 0"
  have len: "sl_len ?h = BlockSize" using blocks_wf_nth[OF okD(2), of 0] okD(1) by simp
  have same: "m' (sl_region ?h) (sl_off ?h + j) = m (sl_region ?h) (sl_off ?h + j)" if "4 \<le> j" "j < BlockSize" for j
  proof -
    have "cell m' (Blocks s) j = cell m (Blocks s) j"
      using rest that arg_cong[OF rest, of "\<lambda>xs. xs ! (j - 4)"] by (simp add: header_rest_def s')
    then show ?thesis using header_cell[OF okD(2,1) that(2)] by simp
  qed
  have "DecodeHeader m' ?h = Some (load32 m' (slice_ptr ?h 0), BlockCount s, Sequence s)"
    using sy same len by (intro DecodeHeader_cong) (auto simp: header_synced_def)
  moreover have "load32 m' (slice_ptr ?h 0) = DataLen s'"
    using stripe_okD(5)[OF ok(2)] by (simp add: s' HEADER_DATA_LEN_OFF_def)
  ultimately show ?thesis by (simp add: header_synced_def s')
qed

lemma header_synced_written: "stripe_ok m s \<Longrightarrow> written m s off bs m' s' \<Longrightarrow> header_synced m s \<Longrightarrow> header_synced m' s'"
  using written_fields[of m s off bs m' s'] by (intro header_synced_cong[of m s m' s']) auto

lemma header_rest_frame:
  assumes ok: "stripe_ok m s" and same: "\<forall>r i. covers (Blocks s) r i \<longrightarrow> m' r i = m r i"
  shows "header_rest m' s = header_rest m s"
proof -
  note okD = stripe_okD[OF ok]
  have "m' (sl_region (Blocks s ! 0)) (sl_off (Blocks s ! 0) + i) = m (sl_region (Blocks s ! 0)) (sl_off (Blocks s ! 0) + i)" if "i < BlockSize" for i
  proof -
    have "covers (Blocks s) (sl_region (Blocks s ! 0)) (sl_off (Blocks s ! 0) + i)"
      using that okD(1) blocks_wf_nth[OF okD(2), of 0] unfolding covers_def list_ex_length by (intro exI[of _ 0]) simp
    then show ?thesis using same by blast
  qed
  then show ?thesis using header_cell[OF okD(2,1)] by (simp add: header_rest_def)
qed

lemma header_synced_frame:
  assumes "stripe_ok m s" "\<forall>r i. covers (Blocks s) r i \<longrightarrow> m' r i = m r i" "header_synced m s"
  shows "header_synced m' s"
  using header_synced_cong[OF assms(1) stripe_frame(1)[OF assms(1,2)] refl refl refl header_rest_frame[OF assms(1,2)] assms(3)] .

lemma header_synced_update:
  assumes "UpdateStripeHeader m s = Some m'" "Blocks s \<noteq> []" "blocks_wf (Blocks s)" "0 \<le> BlockCount s" "BlockCount s < 65536"
    and "length (Sequence s) \<le> seq_capacity"
  shows "header_synced m' s"
proof -
  have hd: "hd (Blocks s) = Blocks s ! 0" using assms(2) by (simp add: hd_conv_nth)
  have len: "sl_len (hd (Blocks s)) = BlockSize" using blocks_wf_nth[OF assms(3), of 0] assms(2) hd by simp
  have "length (Sequence s) < 65536" using assms(6) by (simp add: seq_capacity_eq)
  then obtain m'' where "UpdateStripeHeader m s = Some m''" "DecodeHeader m'' (hd (Blocks s)) = Some (DataLen s, BlockCount s,
      take seq_capacity (Sequence s) @ replicate (length (Sequence s) - seq_capacity) 0)"
    by (rule DecodeHeader_UpdateStripeHeader[OF assms(2) len assms(4,5)])
  then show ?thesis using assms(1,6) hd by (simp add: header_synced_def)
qed

subsection \<open>Blocks of shared chunks\<close>

text \<open>The node has mapped the chunks of the hub, in the same order.\<close>

definition same_chunks :: "chunk list \<Rightarrow> chunk list \<Rightarrow> bool" where
  "same_chunks cks ncks \<longleftrightarrow> map ck_Data ncks = map ck_Data cks"

lemma same_chunks_nth: "same_chunks cks ncks \<Longrightarrow> i < length cks \<Longrightarrow> ck_Data (ncks ! i) = ck_Data (cks ! i)"
  unfolding same_chunks_def by (metis length_map nth_map)

lemma same_chunks_length: "same_chunks cks ncks \<Longrightarrow> length ncks = length cks"
  unfolding same_chunks_def by (metis length_map)

lemma chunk_slice_of:
  assumes "chunks_ok cks" "a < 1024 * length cks" "ck_Data c = ck_Data (cks ! (a div 1024))"
  shows "chunk_slice c (sint (of_nat (a mod 1024) :: int16) * int BlockSize) (sint (of_nat (a mod 1024) :: int16) * int BlockSize + int BlockSize)
    = Some (bk_Data (block_of cks a))"
proof -
  have d: "a div 1024 < length cks" using chunks_ok_bound[OF assms(1,2)] by simp
  have k: "a mod 1024 < BlocksPerChunk" by (simp add: BlocksPerChunk_def)
  have off: "sint (of_nat (a mod 1024) :: int16) * int BlockSize = int ((a mod 1024) * BlockSize)"
    using sint_small[of "a mod 1024"] by (simp add: less_trans[of _ 1024] del: of_nat_mod)
  have "ck_Data c = Some \<lparr>sl_region = chunk_region (cks ! (a div 1024)), sl_off = 0, sl_len = ChunkSize\<rparr>"
    using chunks_ok_nth[OF assms(1) d] assms(3) by simp
  from chunk_slice_block[OF k this] show ?thesis unfolding off by (simp add: region_block_def block_of_def mult.commute)
qed

lemma sint_chunk:
  assumes "chunks_ok cks" "a < 1024 * length cks"
  shows "sint (NOT (NOT (of_nat (a div 1024) :: int16))) = int (a div 1024)"
  using sint_small[of "a div 1024"] chunks_ok_bound[OF assms] by simp

lemma data_block_of:
  assumes "chunks_ok cks" "same_chunks cks ncks" "a < 1024 * length cks"
  shows "data_block ncks (NOT (of_nat (a div 1024))) (of_nat (a mod 1024)) = Returns (bk_Data (block_of cks a))"
proof -
  have d: "a div 1024 < length cks" using chunks_ok_bound[OF assms(1,3)] by simp
  have "getChunk ncks (NOT (of_nat (a div 1024))) = Returns (ncks ! (a div 1024))"
    using d same_chunks_length[OF assms(2)] sint_chunk[OF assms(1,3)] by (simp add: getChunk_def)
  then show ?thesis
    using chunk_slice_of[OF assms(1,3) same_chunks_nth[OF assms(2) d]] by (simp add: data_block_def Let_def)
qed

lemma hub_get_of:
  assumes "bus_ok b" "a < 1024 * length (chunks b)"
  shows "hub_get b (NOT (of_nat (a div 1024))) (of_nat (a mod 1024)) = Some (bk_Data (block_of (chunks b) a))"
proof -
  have ck: "chunks_ok (chunks b)" by (rule bus_okD(1)[OF assms(1)])
  have d: "a div 1024 < length (chunks b)" using chunks_ok_bound[OF ck assms(2)] by simp
  then have "GetChunk b (NOT (of_nat (a div 1024))) = Some (chunks b ! (a div 1024))"
    using sint_chunk[OF ck assms(2)] by (simp add: GetChunk_def)
  then show ?thesis using chunk_slice_of[OF ck assms(2) refl] by (simp add: hub_get_def)
qed

lemma finds_node:
  assumes "chunks_ok cks" "same_chunks cks ncks" "set as \<subseteq> {..<1024 * length cks}"
  shows "list_all (nl.finds ncks) (map (block_of cks) as)"
  using assms(3) data_block_of[OF assms(1,2)] chunks_ok_bound[OF assms(1)] addr_block_of
  unfolding list_all_iff nl.finds_def by (auto simp: run_option_def)

lemma finds_hub:
  assumes "bus_ok b" "set as \<subseteq> {..<1024 * length (chunks b)}"
  shows "list_all (hl.finds b) (map (block_of (chunks b)) as)"
  using assms hub_get_of[OF assms(1)] chunks_ok_bound[OF bus_okD(1)[OF assms(1)]] addr_block_of
  by (auto simp: list_all_iff hl.finds_def)

subsection \<open>The rebuilt stripe\<close>

lemma run_option_Some [simp]: "run_option r = Some x \<longleftrightarrow> r = Returns x"
  by (auto simp: run_option_def split: run.splits)

text \<open>The first two entries of a sequence are the chunk and the block of the header.\<close>

lemma stripe_head:
  assumes "stripe_blocks cks (a # as) s" "a < 65536"
  shows "Sequence s = NOT (of_nat (a div 1024)) # of_nat (a mod 1024) # append_sequence (NOT (of_nat (a div 1024))) [] (map (block_of cks) as)"
    "Blocks s ! 0 = bk_Data (block_of cks a)"
proof -
  have "(NOT (of_nat (a div 1024)) :: int16) \<noteq> 0"
    using addr_block_of[OF assms(2), of cks] by (auto simp: addr_block_def)
  then show "Sequence s = NOT (of_nat (a div 1024)) # of_nat (a mod 1024) # append_sequence (NOT (of_nat (a div 1024))) [] (map (block_of cks) as)"
    "Blocks s ! 0 = bk_Data (block_of cks a)"
    using assms(1) by (simp_all add: stripe_blocks_def append_sequence_Cons del: append_sequence.simps)
qed

lemma slot_header_spec:
  assumes ok: "bus_ok b" and st: "bus_stripe b m as s" and sy: "header_synced m s" and sc: "same_chunks (chunks b) ncks"
    and h: "GetStripeHeader m c slotID = Some (Sequence s ! 0, Sequence s ! 1)"
  shows "slot_header m c ncks slotID = Returns (Sequence s ! 0, DataLen s, BlockCount s, Sequence s)"
proof -
  have ck: "chunks_ok (chunks b)" by (rule bus_okD(1)[OF ok])
  obtain a as' where as: "as = a # as'" using st by (cases as) (auto simp: bus_stripe_def)
  have "set as \<subseteq> {..<1024 * length (chunks b)}" using st used_subset[OF ok] by (auto simp: bus_stripe_def)
  then have a: "a < 1024 * length (chunks b)" "a < 65536" using as chunks_ok_bound[OF ck] by auto
  have sb: "stripe_blocks (chunks b) (a # as') s" using st as by (simp add: bus_stripe_def)
  show ?thesis
    using h sy data_block_of[OF ck sc a(1)] by (simp add: slot_header_def stripe_head[OF sb a(2)] header_synced_def)
qed

lemma slot_stripe_spec:
  assumes ok: "bus_ok b" and st: "bus_stripe b m as s" and sy: "header_synced m s" and sc: "same_chunks (chunks b) ncks"
    and h: "GetStripeHeader m c slotID = Some (Sequence s ! 0, Sequence s ! 1)"
  shows "slot_stripe m c ncks slotID = Returns s"
proof -
  have ck: "chunks_ok (chunks b)" by (rule bus_okD(1)[OF ok])
  obtain a as' where as: "as = a # as'" using st by (cases as) (auto simp: bus_stripe_def)
  have sub: "set as \<subseteq> {..<1024 * length (chunks b)}" using st used_subset[OF ok] by (auto simp: bus_stripe_def)
  then have a: "a < 65536" using as chunks_ok_bound[OF ck] by auto
  have sb: "stripe_blocks (chunks b) (a # as') s" using st as by (simp add: bus_stripe_def)
  have "load_blocks ncks (Sequence s ! 0) (Sequence s) = Returns (Blocks s)"
  proof -
    have "expand_blocks ncks 0 0 0 (Sequence s) = Returns (Blocks s)"
      using nl.load_all[OF finds_node[OF ck sc sub], of 0 0 0] sb by (simp add: stripe_blocks_def as)
    moreover have "load_blocks ncks x (Sequence s) = load_blocks ncks y (Sequence s)" for x y
      using addr_block_of[OF a, of "chunks b"] by (simp add: stripe_head[OF sb a] addr_block_def)
    ultimately show ?thesis using load_blocks_expand by metis
  qed
  then show ?thesis using slot_header_spec[OF assms] by (simp add: slot_stripe_def)
qed

text \<open>After the stripe has grown from \<open>as\<close> to \<open>as @ new\<close>, the other side appends exactly the new blocks.\<close>

lemma expand_blocks_grown:
  assumes "chunks_ok cks" "same_chunks cks ncks" "set (as @ new) \<subseteq> {..<1024 * length cks}"
    and "stripe_blocks cks as s" "stripe_blocks cks (as @ new) s'"
  shows "expand_blocks ncks (length (Sequence s)) 0 0 (Sequence s') = Returns (map (bk_Data \<circ> block_of cks) new)" "Blocks s' = Blocks s @ map (bk_Data \<circ> block_of cks) new"
proof -
  have "list_all addr_block (map (block_of cks) as)" using assms(3) chunks_ok_bound[OF assms(1)] by (intro addr_blocks_of) auto
  moreover have "list_all (nl.finds ncks) (map (block_of cks) new)" using assms(3) by (intro finds_node[OF assms(1,2)]) simp
  ultimately show "expand_blocks ncks (length (Sequence s)) 0 0 (Sequence s') = Returns (map (bk_Data \<circ> block_of cks) new)"
    using nl.load_grown[of "map (block_of cks) as" ncks "map (block_of cks) new"] assms(4,5) by (simp add: stripe_blocks_def)
  show "Blocks s' = Blocks s @ map (bk_Data \<circ> block_of cks) new" using assms(4,5) by (simp add: stripe_blocks_def)
qed

lemma refresh_blocks_grown:
  assumes "bus_ok b" "set (as @ new) \<subseteq> {..<1024 * length (chunks b)}"
    and "stripe_blocks (chunks b) as s" "stripe_blocks (chunks b) (as @ new) s'"
  shows "refresh_blocks b (length (Sequence s)) 0 0 (Sequence s') = Some (map (bk_Data \<circ> block_of (chunks b)) new)"
    "Blocks s' = Blocks s @ map (bk_Data \<circ> block_of (chunks b)) new"
proof -
  have "list_all addr_block (map (block_of (chunks b)) as)"
    using assms(2) chunks_ok_bound[OF bus_okD(1)[OF assms(1)]] by (intro addr_blocks_of) auto
  moreover have "list_all (hl.finds b) (map (block_of (chunks b)) new)" using assms(2) by (intro finds_hub[OF assms(1)]) simp
  ultimately show "refresh_blocks b (length (Sequence s)) 0 0 (Sequence s') = Some (map (bk_Data \<circ> block_of (chunks b)) new)"
    using hl.load_grown[of "map (block_of (chunks b)) as" b "map (block_of (chunks b)) new"] assms(3,4) by (simp add: stripe_blocks_def)
  show "Blocks s' = Blocks s @ map (bk_Data \<circ> block_of (chunks b)) new" using assms(3,4) by (simp add: stripe_blocks_def)
qed

end
