(* ===== verification/Conn_Write.thy ===== *)
theory Conn_Write
  imports Stripe_Handover
begin

text \<open>
  The hub's connection as a byte stream over its stripe (\<^verbatim>\<open>go/hub/conn.go\<close>): writes grow the stripe when
  they need to and never hit its capacity, reads deliver the contents in order.

  \<open>hub_ok\<close> is the invariant of the hub: a well-formed bus and a control region made of blocks \<open>cas\<close> of
  that bus.
\<close>

subsection \<open>The invariant of the hub\<close>

definition hub_ok :: "(nat \<Rightarrow> chunk_sys) \<Rightarrow> nat list \<Rightarrow> hub \<Rightarrow> bool" where
  "hub_ok os cas h \<longleftrightarrow> bus_ok (h_bus h) \<and> os_fresh os (h_bus h) \<and> ctl_ok (h_ctrl h)
     \<and> stripe_blocks (chunks (h_bus h)) cas (ctl_stripe (h_ctrl h)) \<and> set cas \<subseteq> used (h_bus h)
     \<and> length (h_waiters h) = MaxTotalSlots + 1"

lemma hub_okD:
  assumes "hub_ok os cas h"
  shows "bus_ok (h_bus h)" "os_fresh os (h_bus h)" "ctl_ok (h_ctrl h)"
    "stripe_blocks (chunks (h_bus h)) cas (ctl_stripe (h_ctrl h))" "set cas \<subseteq> used (h_bus h)" "length (h_waiters h) = MaxTotalSlots + 1"
  using assms by (simp_all add: hub_ok_def)

text \<open>Broadcasting a chunk only adds to what has been sent to the nodes.\<close>

lemma put_bus_simps [simp]:
  "h_bus (put_bus h b) = b" "h_ctrl (put_bus h b) = h_ctrl h" "h_mem (put_bus h b) = h_mem h" "h_waiters (put_bus h b) = h_waiters h"
  "h_limit (put_bus h b) = h_limit h" "h_chans (put_bus h b) = h_chans h" "h_efds (put_bus h b) = h_efds h"
  "h_respEv (put_bus h b) = h_respEv h" "h_nodeIDs (put_bus h b) = h_nodeIDs h" "h_spawned (put_bus h b) = h_spawned h"
proof -
  have "h_bus (foldl AppendedChunkBroacast g xs) = h_bus g \<and> h_ctrl (foldl AppendedChunkBroacast g xs) = h_ctrl g
      \<and> h_mem (foldl AppendedChunkBroacast g xs) = h_mem g \<and> h_waiters (foldl AppendedChunkBroacast g xs) = h_waiters g
      \<and> h_limit (foldl AppendedChunkBroacast g xs) = h_limit g \<and> h_chans (foldl AppendedChunkBroacast g xs) = h_chans g
      \<and> h_efds (foldl AppendedChunkBroacast g xs) = h_efds g \<and> h_respEv (foldl AppendedChunkBroacast g xs) = h_respEv g
      \<and> h_nodeIDs (foldl AppendedChunkBroacast g xs) = h_nodeIDs g \<and> h_spawned (foldl AppendedChunkBroacast g xs) = h_spawned g" for g xs
    by (induction xs arbitrary: g) (simp_all add: AppendedChunkBroacast_def)
  then show "h_bus (put_bus h b) = b" "h_ctrl (put_bus h b) = h_ctrl h" "h_mem (put_bus h b) = h_mem h" "h_waiters (put_bus h b) = h_waiters h"
    "h_limit (put_bus h b) = h_limit h" "h_chans (put_bus h b) = h_chans h" "h_efds (put_bus h b) = h_efds h"
    "h_respEv (put_bus h b) = h_respEv h" "h_nodeIDs (put_bus h b) = h_nodeIDs h" "h_spawned (put_bus h b) = h_spawned h"
    by (simp_all add: put_bus_def)
qed

lemma put_bus_mem: "(put_bus h b)\<lparr>h_mem := h_mem h\<rparr> = put_bus h b"
  by (rule hub.equality) simp_all

lemma hub_ok_grows:
  assumes "hub_ok os cas h" "bus_ok b" "os_fresh os b" "grows (h_bus h) b" "set cas \<subseteq> used b"
  shows "hub_ok os cas ((put_bus h b)\<lparr>h_mem := m\<rparr>)"
  using assms hub_okD[OF assms(1)] stripe_blocks_grow[of "chunks (h_bus h)" cas] used_subset[OF hub_okD(1)[OF assms(1)]]
  by (auto simp: hub_ok_def grows_def)

lemma hub_ok_mem: "hub_ok os cas (h\<lparr>h_mem := m\<rparr>) = hub_ok os cas h"
  by (simp add: hub_ok_def)

text \<open>Everything but the bus, the memory and what has been sent to the nodes is as before.\<close>

definition same_admin :: "hub \<Rightarrow> hub \<Rightarrow> bool" where
  "same_admin h h' \<longleftrightarrow> h_ctrl h' = h_ctrl h \<and> h_waiters h' = h_waiters h \<and> h_limit h' = h_limit h \<and> h_chans h' = h_chans h
     \<and> h_efds h' = h_efds h \<and> h_respEv h' = h_respEv h \<and> h_nodeIDs h' = h_nodeIDs h \<and> h_spawned h' = h_spawned h"

lemma same_admin_trans: "same_admin h h1 \<Longrightarrow> same_admin h1 h2 \<Longrightarrow> same_admin h h2"
  by (simp add: same_admin_def)

lemma same_admin_simps [simp]: "same_admin h h" "same_admin h (h1\<lparr>h_mem := m\<rparr>) = same_admin h h1" "same_admin h (put_bus h1 b) = same_admin h h1"
  by (simp_all add: same_admin_def)

lemma same_admin_ctrl: "same_admin h h' \<Longrightarrow> h_ctrl h' = h_ctrl h"
  by (simp add: same_admin_def)

lemma hub_ok_changed:
  "hub_ok os cas h \<Longrightarrow> h_bus h' = h_bus h \<Longrightarrow> Blocks (ctl_stripe (h_ctrl h')) = Blocks (ctl_stripe (h_ctrl h)) \<Longrightarrow>
   Sequence (ctl_stripe (h_ctrl h')) = Sequence (ctl_stripe (h_ctrl h)) \<Longrightarrow> BlockCount (ctl_stripe (h_ctrl h')) = BlockCount (ctl_stripe (h_ctrl h)) \<Longrightarrow>
   length (h_waiters h') = length (h_waiters h) \<Longrightarrow> hub_ok os cas h'"
  using ctl_cong(1)[of "h_ctrl h'" "h_ctrl h"] by (simp add: hub_ok_def stripe_blocks_def)

subsection \<open>The control region and the stripes do not interfere\<close>

lemma ctl_frame:
  assumes c: "ctl_ok c" and f: "field_valid f" and same: "\<forall>r i. covers (Blocks (ctl_stripe c)) r i \<longrightarrow> m' r i = m r i"
  shows "fget c m' f = fget c m f"
proof -
  let ?k = "field_off f div BlockSize" and ?b = "Blocks (ctl_stripe c)"
  have k: "?k < length ?b" by (rule ctl_block[OF c f])
  have "sl_len (?b ! ?k) = BlockSize" using blocks_wf_nth[OF _ k] c by (simp add: ctl_ok_def)
  then have "covers ?b (sl_region (?b ! ?k)) (sl_off (?b ! ?k) + i)" if "i < BlockSize" for i
    using that k unfolding covers_def list_ex_length by (intro exI[of _ ?k]) simp
  then have "mem_read m' (fst (fptr c f)) (snd (fptr c f)) (field_width f) = mem_read m (fst (fptr c f)) (snd (fptr c f)) (field_width f)"
    using same field_in_block[of f] by (intro nth_equalityI) (simp_all add: fptr_def add.assoc)
  then show ?thesis by (simp add: fget_def)
qed

text \<open>A change to a stripe of other blocks leaves every word of the control region as it is.\<close>

lemma hub_ctl_frame:
  assumes h: "hub_ok os cas h" and s: "stripe_blocks (chunks (h_bus h)) as s" "set as \<subseteq> used (h_bus h)" "set as \<inter> set cas = {}"
    and same: "\<forall>r i. \<not> covers (Blocks s) r i \<longrightarrow> m' r i = m r i" and f: "field_valid f"
  shows "fget (h_ctrl h) m' f = fget (h_ctrl h) m f"
  using bus_stripes_apart[OF hub_okD(1)[OF h] s(1,2) hub_okD(4,5)[OF h] s(3)] same
  by (intro ctl_frame[OF hub_okD(3)[OF h] f]) blast

text \<open>A change to the control region leaves the stripes as they are.\<close>

lemma hub_stripe_frame:
  assumes h: "hub_ok os cas h" and s: "bus_stripe (h_bus h) m as s" "set as \<inter> set cas = {}"
    and same: "same_elsewhere m m' (ctl_stripe (h_ctrl h))"
  shows "bus_stripe (h_bus h) m' as s" "contents m' s = contents m s" "header_synced m s \<Longrightarrow> header_synced m' s"
proof -
  have st: "stripe_blocks (chunks (h_bus h)) as s" "set as \<subseteq> used (h_bus h)" "stripe_ok m s" using s(1) by (simp_all add: bus_stripe_def)
  have dj: "set cas \<inter> set as = {}" using s(2) by blast
  have fr: "\<forall>r i. covers (Blocks s) r i \<longrightarrow> m' r i = m r i"
    using bus_stripes_apart[OF hub_okD(1)[OF h] hub_okD(4,5)[OF h] st(1,2) dj] same unfolding same_elsewhere_def by blast
  show "bus_stripe (h_bus h) m' as s" "contents m' s = contents m s" using stripe_frame[OF st(3) fr] s(1) by (simp_all add: bus_stripe_def)
  show "header_synced m s \<Longrightarrow> header_synced m' s" by (rule header_synced_frame[OF st(3) fr])
qed

subsection \<open>Growing on demand\<close>

text \<open>An allocation for a stripe fails only as the allocation of its blocks does.\<close>

lemma AllocBlocksForStripe_error:
  assumes "bus_ok b" "os_fresh os b" "AllocBlocksForStripe os m b s (int n) = Some (Some err, s', m', b')"
  shows "\<not> (os_succeeds os \<and> 0 < n \<and> n + card (used b) \<le> 65536)"
proof -
  obtain res b1 where "AllocBlocks os b (int n) = Some (res, b1)" "os_succeeds os \<longrightarrow> 0 < n \<longrightarrow> n + card (used b) \<le> 65536 \<longrightarrow> (\<exists>blks. res = Inr blks)"
    by (rule AllocBlocks_spec[OF assms(1,2) AllocBlocksForStripe_Some[OF assms(3)]])
  then show ?thesis using assms(3) by (auto simp: AllocBlocksForStripe_def Let_def split: bind_splits)
qed

definition extra_blocks :: "stripe \<Rightarrow> nat \<Rightarrow> nat" where
  "extra_blocks s needed = (needed - capacity s + BlockSize - 1) div BlockSize"

lemma extra_blocks_enough: "needed \<le> capacity s + BlockSize * extra_blocks s needed"
proof (cases "needed \<le> capacity s")
  case False
  let ?x = "needed - capacity s + BlockSize - 1"
  have "?x = BlockSize * (?x div BlockSize) + ?x mod BlockSize" by simp
  moreover have "?x mod BlockSize \<le> BlockSize - 1" by (simp add: BlockSize_def less_Suc_eq_le[symmetric])
  ultimately have "needed - capacity s \<le> BlockSize * (?x div BlockSize)" using False by (simp add: BlockSize_def)
  then show ?thesis by (simp add: extra_blocks_def)
qed simp

lemma user_cap: "bus_stripe b m as s \<Longrightarrow> (BlockCount s - 1) * int BlockSize = int (capacity s)"
proof -
  assume "bus_stripe b m as s"
  then have "BlockCount s = int (length (Blocks s))" "Blocks s \<noteq> []"
    by (auto simp: bus_stripe_def stripe_blocks_def)
  then show ?thesis by (cases "Blocks s") (simp_all add: capacity_def)
qed

lemma ensureCapacity_spec:
  assumes h: "hub_ok os cas h" and c: "c_Stripe c = Some s" and s: "bus_stripe (h_bus h) (h_mem h) as s" and needed: "needed < 2 ^ 55"
  obtains (error) err b' where "ensureCapacity os h c (int needed) = Some (Some err, put_bus h b', c)" "hub_ok os cas (put_bus h b')"
      "used b' = used (h_bus h)" "grows (h_bus h) b'" "capacity s < needed"
      "\<not> (os_succeeds os \<and> extra_blocks s needed + card (used (h_bus h)) \<le> 65536)"
  | (room) h' s' new where "ensureCapacity os h c (int needed) = Some (None, h', c\<lparr>c_Stripe := Some s'\<rparr>)" "hub_ok os cas h'"
      "bus_stripe (h_bus h') (h_mem h') (as @ new) s'" "set new \<inter> used (h_bus h) = {}" "used (h_bus h') = used (h_bus h) \<union> set new"
      "grows (h_bus h) (h_bus h')" "DataLen s' = DataLen s" "contents (h_mem h') s' = contents (h_mem h) s" "needed \<le> capacity s'"
      "\<forall>r i. \<not> covers (Blocks s') r i \<longrightarrow> h_mem h' r i = h_mem h r i"
      "(s' = s \<and> h_mem h' = h_mem h) \<or> UpdateStripeHeader (h_mem h) s' = Some (h_mem h')" "same_admin h h'" "length new \<le> extra_blocks s needed"
proof -
  note H = hub_okD[OF h]
  have cap: "(BlockCount s - 1) * int BlockSize = int (capacity s)" by (rule user_cap[OF s])
  show ?thesis
  proof (cases "needed \<le> capacity s")
    case True
    have "c\<lparr>c_Stripe := Some s\<rparr> = c" using c by simp
    moreover have "ensureCapacity os h c (int needed) = Some (None, h, c)"
      using c cap True by (simp add: ensureCapacity_def Let_def)
    ultimately show ?thesis using s h True by (intro room[of h s "[]"]) (simp_all add: grows_refl)
  next
    case False
    let ?n = "extra_blocks s needed"
    have "i64 (int needed - int (capacity s) + int BlockSize - 1) = int (needed - capacity s + BlockSize - 1)"
      using False needed by (subst i64_id) (simp_all add: BlockSize_def)
    then have n: "i64 (int needed - int (capacity s) + int BlockSize - 1) sdiv int BlockSize = int ?n"
      by (simp add: extra_blocks_def BlockSize_def zdiv_int)
    have pos: "0 < ?n" using False by (simp add: extra_blocks_def BlockSize_def)
    have "needed - capacity s + BlockSize - 1 < 2 ^ 43 * 4096 + 4096" using needed by (simp add: BlockSize_def)
    then have "?n \<le> 2 ^ 43" unfolding extra_blocks_def BlockSize_def by linarith
    then have mk: "int ?n \<le> MaxMakeBlocks" by (simp add: MaxMakeBlocks_def)
    have en: "ensureCapacity os h c (int needed) = Option.bind (AllocBlocksForStripe os (h_mem h) (h_bus h) s (int ?n))
        (\<lambda>(err, s, m, b). Some (err, (put_bus h b)\<lparr>h_mem := m\<rparr>, c\<lparr>c_Stripe := Some s\<rparr>))"
      using c cap False n by (simp add: ensureCapacity_def Let_def)
    show ?thesis
    proof (rule AllocBlocksForStripe_spec[OF H(1,2) s mk])
      fix err b'
      assume e: "AllocBlocksForStripe os (h_mem h) (h_bus h) s (int ?n) = Some (Some err, s, h_mem h, b')" "bus_ok b'"
        "os_fresh os b'" "grows (h_bus h) b'" "used b' = used (h_bus h)"
      have "c\<lparr>c_Stripe := Some s\<rparr> = c" using c by simp
      then show thesis
        using error[of err b'] e en False hub_ok_grows[OF h e(2-4), of "h_mem h"] H(5)
          AllocBlocksForStripe_error[OF H(1,2) e(1)] pos by (simp add: put_bus_mem)
    next
      fix s' m' b' new
      assume g: "AllocBlocksForStripe os (h_mem h) (h_bus h) s (int ?n) = Some (None, s', m', b')" "bus_ok b'"
        "os_fresh os b'" "grows (h_bus h) b'" "bus_stripe b' m' (as @ new) s'" "length new = ?n" "set new \<inter> used (h_bus h) = {}"
        "used b' = used (h_bus h) \<union> set new" "DataLen s' = DataLen s" "contents m' s' = contents (h_mem h) s"
        "capacity s' = capacity s + BlockSize * ?n" "\<forall>r i. \<not> covers (Blocks s') r i \<longrightarrow> m' r i = h_mem h r i"
        "UpdateStripeHeader (h_mem h) s' = Some m'"
      have "hub_ok os cas ((put_bus h b')\<lparr>h_mem := m'\<rparr>)" using hub_ok_grows[OF h g(2-4)] H(5) g(8) by blast
      then show thesis
        using g en extra_blocks_enough[of needed s] by (intro room[of "(put_bus h b')\<lparr>h_mem := m'\<rparr>" s' new]) simp_all
    qed
  qed
qed

subsection \<open>Writing\<close>

text \<open>\<open>bs\<close> put at offset \<open>off\<close> of \<open>xs\<close>, past its end if necessary.\<close>

definition write_over :: "'a list \<Rightarrow> nat \<Rightarrow> 'a list \<Rightarrow> 'a list" where
  "write_over xs off bs = take off xs @ bs @ drop (off + length bs) xs"

lemma written_contents:
  assumes ok: "stripe_ok m s" and w: "written m s off bs m' s'" and off: "off \<le> unat (DataLen s)" "off + length bs \<le> capacity s"
  shows "contents m' s' = write_over (contents m s) off bs"
proof -
  let ?d = "unat (DataLen s)" and ?R = "data_region m s"
  note okD = stripe_okD[OF ok]
  have R: "length ?R = capacity s" using okD(1) by simp
  have reg: "data_region m' s' = overlay ?R off bs" using written_fields[OF w] by blast
  have "unat (DataLen s') = (if bs = [] then ?d else max ?d (off + length bs))"
  proof (cases "bs = []")
    case False
    have "unat (of_nat (off + length bs) :: uint32) = off + length bs"
      using off(2) capacity_bound[OF okD(3)] by (simp add: unat_of_nat del: of_nat_add)
    then show ?thesis using w False by (simp add: written_def max_def word_le_nat_alt del: of_nat_add)
  qed (use w in \<open>simp add: written_def\<close>)
  then have d: "unat (DataLen s') = max ?d (off + length bs)" using off(1) by auto
  let ?e = "off + length bs"
  have "take (max ?d ?e) (take off ?R @ bs @ drop ?e ?R) = take off ?R @ bs @ take (?d - ?e) (drop ?e ?R)"
    using off R by (simp add: max_def) linarith
  also have "\<dots> = take off (take ?d ?R) @ bs @ drop ?e (take ?d ?R)"
    using off(1) by (simp only: drop_take take_take min_absorb1)
  finally show ?thesis unfolding contents_def reg d overlay_def write_over_def .
qed

text \<open>What a write at an offset inside or at the end of the data does to the hub and the connection:
  the stripe may grow, its contents are written over, and every other stripe of the bus is kept.\<close>

definition wrote_conn ::
  "(nat \<Rightarrow> chunk_sys) \<Rightarrow> nat list \<Rightarrow> nat list \<Rightarrow> hub \<Rightarrow> stripe \<Rightarrow> nat \<Rightarrow> byte list \<Rightarrow> hub \<Rightarrow> stripe \<Rightarrow> bool" where
  "wrote_conn os cas as h s off data h' s' \<longleftrightarrow> hub_ok os cas h'
     \<and> (\<exists>new. bus_stripe (h_bus h') (h_mem h') (as @ new) s' \<and> set new \<inter> used (h_bus h) = {}
          \<and> used (h_bus h') = used (h_bus h) \<union> set new \<and> length new \<le> extra_blocks s (off + length data))
     \<and> contents (h_mem h') s' = write_over (contents (h_mem h) s) off data
     \<and> (\<forall>ts t. bus_stripe (h_bus h) (h_mem h) ts t \<longrightarrow> set ts \<inter> set as = {} \<longrightarrow>
          bus_stripe (h_bus h') (h_mem h') ts t \<and> contents (h_mem h') t = contents (h_mem h) t)
     \<and> same_admin h h' \<and> grows (h_bus h) (h_bus h')
     \<and> (set cas \<inter> set as = {} \<longrightarrow> (\<forall>f. field_valid f \<longrightarrow> fget (h_ctrl h) (h_mem h') f = fget (h_ctrl h) (h_mem h) f))
     \<and> (header_synced (h_mem h) s \<longrightarrow> length (Sequence s') \<le> seq_capacity \<longrightarrow> header_synced (h_mem h') s')"

lemma bus_stripe_mem: "bus_stripe b m as s \<Longrightarrow> written m s off bs m' s' \<Longrightarrow> bus_stripe b m' as s'"
  using written_fields[of m s off bs m' s'] by (simp add: bus_stripe_def stripe_blocks_def)

lemma bus_stripe_count: "bus_ok b \<Longrightarrow> bus_stripe b m as s \<Longrightarrow> BlockCount s = int (length as) \<and> length as \<le> 65536"
  using distinct_addr_length bus_addr_bound by (fastforce simp: bus_stripe_def stripe_blocks_def)

lemma sequence_longer: "stripe_blocks cks as s \<Longrightarrow> length as \<le> length (Sequence s)"
proof -
  have "length blks \<le> length (append_sequence c [] blks)" for c blks
    by (induction blks arbitrary: c) (simp_all add: append_sequence_Cons trans_le_add2 del: append_sequence.simps(2))
  then show "stripe_blocks cks as s \<Longrightarrow> length as \<le> length (Sequence s)" by (simp add: stripe_blocks_def) (metis length_map)
qed

lemma synced_after_update:
  assumes "bus_ok b" "bus_stripe b m' as s" "UpdateStripeHeader m s = Some m'" "length (Sequence s) \<le> seq_capacity"
  shows "header_synced m' s"
proof (rule header_synced_update[OF assms(3)])
  have "length as \<le> length (Sequence s)" using assms(2) sequence_longer unfolding bus_stripe_def by blast
  then show "BlockCount s < 65536" "0 \<le> BlockCount s"
    using bus_stripe_count[OF assms(1,2)] assms(4) by (simp_all add: seq_capacity_eq)
  show "Blocks s \<noteq> []" "blocks_wf (Blocks s)" using assms(2) by (auto simp: bus_stripe_def stripe_okD)
qed (rule assms(4))

lemma write_in_room:
  assumes h: "hub_ok os cas h" and s: "bus_stripe (h_bus h) (h_mem h) as s" and off: "off \<le> unat (DataLen s)"
    and h': "hub_ok os cas h'" and s': "bus_stripe (h_bus h') (h_mem h') (as @ new) s'" and new: "set new \<inter> used (h_bus h) = {}"
    "used (h_bus h') = used (h_bus h) \<union> set new" and g: "grows (h_bus h) (h_bus h')" and d: "DataLen s' = DataLen s"
    and cnt: "contents (h_mem h') s' = contents (h_mem h) s" and cap: "off + length data \<le> capacity s'"
    and fr: "\<forall>r i. \<not> covers (Blocks s') r i \<longrightarrow> h_mem h' r i = h_mem h r i"
    and upd: "(s' = s \<and> h_mem h' = h_mem h) \<or> UpdateStripeHeader (h_mem h) s' = Some (h_mem h')" and adm: "same_admin h h'" and nn: "length new \<le> extra_blocks s (off + length data)"
  obtains m'' s'' where "WriteAt (h_mem h') s' data (int off) = Some (m'', s'', int (length data), None)"
    "wrote_conn os cas as h s off data (h'\<lparr>h_mem := m''\<rparr>) s''"
proof -
  have ok': "stripe_ok (h_mem h') s'" using s' by (simp add: bus_stripe_def)
  have "off < 2 ^ 62" using cap capacity_bound[OF stripe_okD(3)[OF ok']] by simp
  then obtain m'' s'' where w: "WriteAt (h_mem h') s' data (int off) = Some (m'', s'', int (length data), None)"
    "written (h_mem h') s' off data m'' s''"
    by (rule WriteAt_spec[OF ok', of off data]) (use cap in simp)
  note wf = written_fields[OF w(2)]
  have "contents m'' s'' = write_over (contents (h_mem h) s) off data"
    using written_contents[OF ok' w(2) _ cap] off d cnt by simp
  moreover have "bus_stripe (h_bus h') m'' (as @ new) s''" by (rule bus_stripe_mem[OF s' w(2)])
  moreover have "bus_stripe (h_bus h') m'' ts t \<and> contents m'' t = contents (h_mem h) t"
    if t: "bus_stripe (h_bus h) (h_mem h) ts t" "set ts \<inter> set as = {}" for ts t
  proof -
    have dj: "set (as @ new) \<inter> set ts = {}" using that new(1) by (auto simp: bus_stripe_def)
    have t': "bus_stripe (h_bus h') (h_mem h) ts t"
      using t new(2) by (intro bus_stripe_grows[OF hub_okD(1)[OF h] t(1) g]) (auto simp: bus_stripe_def)
    have sb: "stripe_blocks (chunks (h_bus h')) (as @ new) s'" "set (as @ new) \<subseteq> used (h_bus h')" using s' by (simp_all add: bus_stripe_def)
    have fr2: "\<forall>r i. \<not> covers (Blocks s') r i \<longrightarrow> m'' r i = h_mem h r i" using fr wf by (simp add: same_elsewhere_def)
    from bus_stripe_other[OF hub_okD(1)[OF h'] t' sb dj fr2] show ?thesis by simp
  qed
  moreover have "fget (h_ctrl h) m'' f = fget (h_ctrl h) (h_mem h) f" if f: "set cas \<inter> set as = {}" "field_valid f" for f
  proof -
    have "set (as @ new) \<inter> set cas = {}" using f(1) new(1) hub_okD(5)[OF h] by auto
    moreover have "\<forall>r i. \<not> covers (Blocks s') r i \<longrightarrow> m'' r i = h_mem h r i" using fr wf by (simp add: same_elsewhere_def)
    moreover have "stripe_blocks (chunks (h_bus h')) (as @ new) s'" "set (as @ new) \<subseteq> used (h_bus h')" using s' by (simp_all add: bus_stripe_def)
    ultimately show ?thesis using hub_ctl_frame[OF h', of "as @ new" s' m'' "h_mem h" f] f(2) same_admin_ctrl[OF adm] by simp
  qed
  moreover have "header_synced m'' s''" if "header_synced (h_mem h) s" "length (Sequence s'') \<le> seq_capacity"
  proof -
    have "header_synced (h_mem h') s'"
      using upd that synced_after_update[OF hub_okD(1)[OF h'] s'] wf by auto
    then show ?thesis by (rule header_synced_written[OF ok' w(2)])
  qed
  ultimately have "wrote_conn os cas as h s off data (h'\<lparr>h_mem := m''\<rparr>) s''"
    using h' new adm g nn unfolding wrote_conn_def hub_ok_mem by simp blast
  with w(1) show ?thesis by (rule that)
qed

lemma conn_WriteAt_spec:
  assumes h: "hub_ok os cas h" and c: "c_Stripe c = Some s" and s: "bus_stripe (h_bus h) (h_mem h) as s"
    and off: "off \<le> unat (DataLen s)" and len: "length data < 2 ^ 54"
  obtains (error) err b' where "conn_WriteAt os h c data (int off) = Some (0, Some err, put_bus h b', c)" "hub_ok os cas (put_bus h b')"
      "used b' = used (h_bus h)" "grows (h_bus h) b'" "capacity s < off + length data"
      "\<not> (os_succeeds os \<and> extra_blocks s (off + length data) + card (used (h_bus h)) \<le> 65536)"
  | (ok) h' s' where "conn_WriteAt os h c data (int off) = Some (int (length data), None, h', c\<lparr>c_Stripe := Some s'\<rparr>)"
      "wrote_conn os cas as h s off data h' s'"
proof -
  have "off < 2 ^ 32" using off unsigned_less[of "DataLen s", where 'a = nat] by simp
  then have n: "off + length data < 2 ^ 55" using len by simp
  then have i: "i64 (int off + int (length data)) = int (off + length data)" by (subst i64_id) simp_all
  show ?thesis
  proof (rule ensureCapacity_spec[OF h c s n])
    fix err b'
    assume "ensureCapacity os h c (int (off + length data)) = Some (Some err, put_bus h b', c)" "hub_ok os cas (put_bus h b')"
      "used b' = used (h_bus h)" "grows (h_bus h) b'" "capacity s < off + length data"
      "\<not> (os_succeeds os \<and> extra_blocks s (off + length data) + card (used (h_bus h)) \<le> 65536)"
    then show ?thesis using i by (intro error[of err b']) (simp_all add: conn_WriteAt_def)
  next
    fix h' s' new
    assume e: "ensureCapacity os h c (int (off + length data)) = Some (None, h', c\<lparr>c_Stripe := Some s'\<rparr>)"
      and r: "hub_ok os cas h'" "bus_stripe (h_bus h') (h_mem h') (as @ new) s'" "set new \<inter> used (h_bus h) = {}"
      "used (h_bus h') = used (h_bus h) \<union> set new" "grows (h_bus h) (h_bus h')" "DataLen s' = DataLen s"
      "contents (h_mem h') s' = contents (h_mem h) s" "off + length data \<le> capacity s'"
      "\<forall>r i. \<not> covers (Blocks s') r i \<longrightarrow> h_mem h' r i = h_mem h r i"
      "(s' = s \<and> h_mem h' = h_mem h) \<or> UpdateStripeHeader (h_mem h) s' = Some (h_mem h')" "same_admin h h'" "length new \<le> extra_blocks s (off + length data)"
    obtain m'' s'' where w: "WriteAt (h_mem h') s' data (int off) = Some (m'', s'', int (length data), None)"
      "wrote_conn os cas as h s off data (h'\<lparr>h_mem := m''\<rparr>) s''"
      by (rule write_in_room[OF h s off r])
    then show ?thesis using e i by (intro ok[of "h'\<lparr>h_mem := m''\<rparr>" s'']) (simp_all add: conn_WriteAt_def)
  qed
qed

end
