(* ===== verification/Hub_Start.thy ===== *)
theory Hub_Start
  imports Conn_Write
begin

text \<open>
  The start of the hub (\<^verbatim>\<open>NewHub\<close> of \<^verbatim>\<open>go/hub/hub.go\<close>): the control region is the first allocation of a new
  bus and so lies in the first 256 blocks of the first chunk. This is what the node's handshake
  relies on, which builds its control stripe from those blocks without being told.
\<close>

subsection \<open>The first allocation of a bus\<close>

lemma free_in_zero: "w < n \<Longrightarrow> free_in (replicate n 0) w = [w * 32..<Suc w * 32]"
proof -
  assume w: "w < n"
  have "set_bits32 (NOT 0) = [0..<32]" by (simp add: set_bits32_def)
  moreover have "map (\<lambda>i. w * 32 + i) [0..<32] = [w * 32..<Suc w * 32]"
    by (rule nth_equalityI) simp_all
  ultimately show ?thesis using w by (simp add: free_in_def del: upt.simps)
qed

lemma free_order_zero: "k \<le> n \<Longrightarrow> free_order (replicate n 0) [0..<k] = [0..<32 * k]"
proof (induction k)
  case (Suc k)
  have "free_order (replicate n 0) [0..<Suc k] = free_order (replicate n 0) [0..<k] @ free_in (replicate n 0) k"
    by (simp add: free_order_def)
  also have "\<dots> = [0..<32 * k] @ [32 * k..<32 * Suc k]"
    using Suc free_in_zero[of k n] by (simp add: mult.commute)
  also have "\<dots> = [0..<32 * Suc k]" by (rule upt_split[symmetric]) simp_all
  finally show ?case .
qed (simp add: free_order_def)

lemma AllocBlocks_first:
  assumes ok: "bus_ok b" and new: "lastSearchPos b = 0" "bitmap b = replicate 32 0" "length (chunks b) = 1" and n: "0 < n" "n \<le> 1024"
  obtains bm l where "AllocBlocks os b (int n) = Some (Inr (map (block_of (chunks b)) [0..<n]), b\<lparr>bitmap := bm, lastSearchPos := l\<rparr>)"
    "length bm = length (bitmap b)" "used_bits bm = {..<n}"
proof -
  let ?fr = "free_order (bitmap b) (scan_words (lastSearchPos b mod length (bitmap b)) 0 (length (bitmap b)))"
  obtain bm al rem' fin where sc:
    "scan (chunks b) (lastSearchPos b mod length (bitmap b)) 0 (bitmap b) (int n) [] = Some (bm, al, rem', fin)"
    "al = [] @ map (block_of (chunks b)) (take n ?fr)" "length bm = length (bitmap b)" "used_bits bm = used b \<union> set (take n ?fr)"
    "fin = None \<longleftrightarrow> n = 0 \<or> length ?fr < n"
    by (rule scan_bus[OF ok])
  have "scan_words 0 0 k = [0..<k]" for k by (auto simp: scan_words_def intro: map_idI)
  then have fr: "?fr = [0..<1024]" using free_order_zero[of 32 32] by (simp add: new del: upt_rec_numeral)
  note sc = sc[unfolded fr]
  have "used b = {}" using used_bits_zeros[of "[]" 32] by (simp add: used_def new used_bits_def)
  then have "used_bits bm = {..<n}" using sc(4) n by (auto simp: fr take_upt simp del: upt_rec_numeral)
  moreover obtain w where "fin = Some w" using sc(5) n by (auto simp: fr simp del: upt_rec_numeral)
  then have "AllocBlocks os b (int n) = Some (Inr (map (block_of (chunks b)) [0..<n]), b\<lparr>bitmap := bm, lastSearchPos := (w + 1) mod length (bitmap b)\<rparr>)"
    using sc n makeable[of n] by (simp add: AllocBlocks_def alloc_loop.simps[of os b] Let_def take_upt new del: upt_rec_numeral)
  ultimately show ?thesis using sc(3) that by blast
qed

subsection \<open>The new hub\<close>

lemma block_of_region: "a < 1024 \<Longrightarrow> bk_Data (block_of [ck] a) = region_block (chunk_region ck) a"
  by (simp add: block_of_def region_block_def mult.commute)

lemma opts_name: "foldl (\<lambda>h opt. opt h) h (map WithChunk0Name names) = h\<lparr>h_chunk0Name := (if names = [] then h_chunk0Name h else last names)\<rparr>"
  by (induction names rule: rev_induct) (simp_all add: WithChunk0Name_def)

text \<open>The bus \<open>NewBus\<close> makes of the first chunk.\<close>

definition first_bus :: "nat \<Rightarrow> int \<Rightarrow> kernel \<Rightarrow> bus" where
  "first_bus r fd k = \<lparr>lastSearchPos = 0, chunkCount = 1, bitmap = replicate 32 0,
     chunks = [\<lparr>ck_Data = Some \<lparr>sl_region = r, sl_off = 0, sl_len = ChunkSize\<rparr>, ck_Fd = fd\<rparr>], appended = [], kern = k\<rparr>"

lemma first_bus_ok: "bus_ok (first_bus r fd k)"
  by (simp add: first_bus_def bus_ok_def chunks_ok_def chunk_ok_def MaxChunks_def)

lemma first_bus_region: "map chunk_region (chunks (first_bus r fd k)) = [r]"
  by (simp add: first_bus_def chunk_region_def)

text \<open>No two mappings made for chunks are the same region: no chunk is unmapped while the hub lives.\<close>

definition mmaps_fresh :: "(nat \<Rightarrow> chunk_sys) \<Rightarrow> bool" where
  "mmaps_fresh os \<longleftrightarrow> (\<forall>n n' r. n < n' \<longrightarrow> sys_mmap (os n) = Inr r \<longrightarrow> sys_mmap (os n') \<noteq> Inr r)"

lemma first_bus_fresh:
  assumes "mmaps_fresh os" "sys_mmap (os 0) = Inr r0"
  shows "os_fresh os (first_bus r0 fd k)"
proof -
  have "chunk_region ` set (chunks (first_bus r0 fd k)) = {r0}" "length (chunks (first_bus r0 fd k)) = 1"
    by (simp_all add: first_bus_def chunk_region_def)
  moreover have "sys_mmap (os n) \<noteq> Inr r0" if "1 \<le> n" for n using that assms by (metis less_le_trans less_one mmaps_fresh_def)
  ultimately show ?thesis using assms(1) unfolding os_fresh_def mmaps_fresh_def by (metis singletonD)
qed

lemma first_blocks: "map bk_Data (map (block_of (chunks (first_bus r fd k))) [0..<256]) = map (region_block r) [0..<256]"
  using block_of_region by (auto simp: first_bus_def chunk_region_def simp del: upt_rec_numeral)

lemma AllocStripe_first:
  assumes "bus_ok b" "lastSearchPos b = 0" "bitmap b = replicate 32 0" "length (chunks b) = 1"
    and bl: "map bk_Data (map (block_of (chunks b)) [0..<256]) = map (region_block r) [0..<256]"
  obtains s m' bm l where "AllocStripe os m b 256 = Some (Inr s, m', b\<lparr>bitmap := bm, lastSearchPos := l\<rparr>)"
    "stripe_blocks (chunks b) [0..<256] s" "Blocks s = map (region_block r) [0..<256]" "ctl_ok (NewControl s)"
    "length bm = 32" "used_bits bm = {..<256}"
proof -
  obtain bm l where al: "AllocBlocks os b (int 256) = Some (Inr (map (block_of (chunks b)) [0..<256]), b\<lparr>bitmap := bm, lastSearchPos := l\<rparr>)"
    "length bm = length (bitmap b)" "used_bits bm = {..<256}"
    by (rule AllocBlocks_first[OF assms(1-4), of 256 os]) (simp, simp, rule that)
  define s where "s = \<lparr>Sequence = append_sequence 0 [] (map (block_of (chunks b)) [0..<256]), BlockCount = 256,
    Blocks = map bk_Data (map (block_of (chunks b)) [0..<256]), DataLen = 0\<rparr>"
  have B: "Blocks s = map (region_block r) [0..<256]" using bl by (simp add: s_def del: upt_rec_numeral)
  have nbk: "ControlStripeSize div BlockSize = 256" by (simp add: ControlStripeSize_def BlockSize_def)
  have "s = \<lparr>Sequence = Sequence s, BlockCount = 256, Blocks = map (region_block r) [0..<ControlStripeSize div BlockSize], DataLen = 0\<rparr>"
    using B by (simp add: s_def nbk del: upt_rec_numeral)
  then have ctl: "ctl_ok (NewControl s)" using ctl_ok_region by metis
  then have wf: "blocks_wf (Blocks s)" by (simp add: ctl_ok_def NewControl_def)
  have len: "length (Blocks s) = 256" by (simp add: B)
  then have ne: "Blocks s \<noteq> []" "length (Blocks s) \<le> 65536" by auto
  have d: "unat (DataLen s) \<le> capacity s" by (simp add: s_def)
  obtain m1 where "UpdateStripeHeader m s = Some m1" by (rule UpdateStripeHeader_ok[OF wf ne d])
  then have "AllocStripe os m b 256 = Some (Inr s, m1, b\<lparr>bitmap := bm, lastSearchPos := l\<rparr>)"
    using al(1) by (simp add: AllocStripe_def s_def del: upt_rec_numeral)
  moreover have "stripe_blocks (chunks b) [0..<256] s" by (simp add: stripe_blocks_def s_def del: upt_rec_numeral)
  ultimately show ?thesis using that al(2,3) B ctl assms(3) by simp
qed

text \<open>The hub with the control stripe \<open>s\<close>, its event counter \<open>ev\<close> and the other state given.\<close>

definition started_hub :: "bus \<Rightarrow> stripe \<Rightarrow> eventfd \<Rightarrow> string \<Rightarrow> mem \<Rightarrow> efds \<Rightarrow> hub" where
  "started_hub b s ev name m ek = \<lparr>h_bus = b, h_ctrl = NewControl s, h_respEv = ev, h_nodes = [],
     h_waiters = replicate (MaxTotalSlots + 1) None, h_nodeIDs = replicate MaxNodes 0, h_chunk0Name = name, h_limit = 0,
     h_mem = m, h_efds = ek, h_chans = (\<lambda>_. []), h_spawned = []\<rparr>"

lemma NewHub_steps:
  assumes k1: "k1 = k\<lparr>open_fds := insert cfd (open_fds k), mapped := r0 # mapped k\<rparr>"
    and os: "sys_memfd (os 0) ''mmfg_chunk0'' = Inr cfd" "sys_ftruncate (os 0) = None" "sys_mmap (os 0) = Inr r0"
  obtains s bm l m2 where "NewHub os ev (map WithChunk0Name names) k m ek =
      (case NewEventfd ev k1 ek of
         (Inl err, k', ek') \<Rightarrow> Some (Inl err, snd (snd (Chunk_Close None (Some (chunks (first_bus r0 cfd k1) ! 0)) k')))
       | (Inr respEv, k', ek') \<Rightarrow> Some (Inr (started_hub ((first_bus r0 cfd k1)\<lparr>bitmap := bm, lastSearchPos := l, kern := k'\<rparr>) s respEv
           (if names = [] then ''mmfg_chunk0'' else last names) m2 ek'), k'))"
    "stripe_blocks (chunks (first_bus r0 cfd k1)) [0..<256] s" "Blocks s = map (region_block r0) [0..<256]" "ctl_ok (NewControl s)"
    "length bm = 32" "used_bits bm = {..<256}"
    "\<forall>f. field_valid f \<longrightarrow> (\<exists>q. f = QHead q \<or> f = QTail q) \<or> (\<exists>s. f = SlotStatus s \<and> s \<noteq> 4096) \<longrightarrow> fget (NewControl s) m2 f = 0"
proof -
  let ?b = "first_bus r0 cfd k1"
  have nc: "NewChunk (os 0) ''mmfg_chunk0'' k = (Inr (chunks ?b ! 0), k1)"
    using os by (simp add: NewChunk_def AttachChunk_def first_bus_def k1)
  have nb: "NewBus (Some (chunks ?b ! 0)) True k1 = Inr ?b" by (simp add: NewBus_def BlocksPerChunk_def first_bus_def)
  have nbk: "int (ControlStripeSize div BlockSize) = 256" by (simp add: ControlStripeSize_def BlockSize_def)
  have pre: "lastSearchPos ?b = 0" "bitmap ?b = replicate 32 0" "length (chunks ?b) = 1" by (simp_all add: first_bus_def)
  obtain s m1 bm l where as: "AllocStripe os m ?b 256 = Some (Inr s, m1, ?b\<lparr>bitmap := bm, lastSearchPos := l\<rparr>)"
    "stripe_blocks (chunks ?b) [0..<256] s" "Blocks s = map (region_block r0) [0..<256]" "ctl_ok (NewControl s)"
    "length bm = 32" "used_bits bm = {..<256}"
    by (rule AllocStripe_first[OF first_bus_ok pre first_blocks])
  have "length (Blocks (ctl_stripe (NewControl s))) \<le> 65536" by (simp add: NewControl_def as(3))
  then obtain m2 where m2: "Init m1 (NewControl s) = Some m2" "\<forall>f. field_valid f \<longrightarrow> fget (NewControl s) m2 f =
    (if (\<exists>q. f = QHead q \<or> f = QTail q) \<or> (\<exists>s. f = SlotStatus s \<and> s \<noteq> 4096) then 0 else fget (NewControl s) m1 f)"
    by (rule Init_spec[OF as(4)])
  have app: "appended ?b = []" "kern ?b = k1" by (simp_all add: first_bus_def)
  show ?thesis
  proof (rule that[where s = s and bm = bm and l = l and ?m2.0 = m2, OF _ as(2-6)])
    show "NewHub os ev (map WithChunk0Name names) k m ek =
      (case NewEventfd ev k1 ek of
         (Inl err, k', ek') \<Rightarrow> Some (Inl err, snd (snd (Chunk_Close None (Some (chunks ?b ! 0)) k')))
       | (Inr respEv, k', ek') \<Rightarrow> Some (Inr (started_hub (?b\<lparr>bitmap := bm, lastSearchPos := l, kern := k'\<rparr>) s respEv
           (if names = [] then ''mmfg_chunk0'' else last names) m2 ek'), k'))"
      using as(1) m2(1) by (simp add: NewHub_def nc nb nbk opts_name started_hub_def put_bus_def app Let_def split: sum.splits prod.splits)
  qed (use m2(2) in auto)
qed

lemma NewHub_spec:
  assumes os: "sys_memfd (os 0) ''mmfg_chunk0'' = Inr cfd" "sys_ftruncate (os 0) = None" "sys_mmap (os 0) = Inr r0"
    and fresh: "mmaps_fresh os"
  obtains h k' where "NewHub os (Inr efd) (map WithChunk0Name names) k m ek = Some (Inr h, k')" "hub_ok os [0..<256] h"
    "Blocks (ctl_stripe (h_ctrl h)) = map (region_block r0) [0..<256]" "used (h_bus h) = {..<256}"
    "map ck_Fd (chunks (h_bus h)) = [cfd]" "open_fds k' = {efd, cfd} \<union> open_fds k" "h_respEv h = \<lparr>ev_fd = efd\<rparr>"
    "h_nodes h = []" "h_limit h = 0" "list_all (\<lambda>w. w = None) (h_waiters h)" "list_all (\<lambda>w. w = 0) (h_nodeIDs h)" "length (h_nodeIDs h) = 64"
    "\<forall>q<MaxNodes. q_inv (fget (h_ctrl h)) (h_mem h) q \<and> q_items (fget (h_ctrl h)) (h_mem h) q = [] \<and> fget (h_ctrl h) (h_mem h) (QTail q) = 0"
    "\<forall>s. 1 \<le> s \<and> s < 4096 \<longrightarrow> fget (h_ctrl h) (h_mem h) (SlotStatus s) = 0"
proof -
  let ?k = "k\<lparr>open_fds := insert cfd (open_fds k), mapped := r0 # mapped k\<rparr>"
  let ?b = "first_bus r0 cfd ?k"
  obtain s bm l m2 where new: "NewHub os (Inr efd) (map WithChunk0Name names) k m ek =
      (case NewEventfd (Inr efd) ?k ek of
         (Inl err, k', ek') \<Rightarrow> Some (Inl err, snd (snd (Chunk_Close None (Some (chunks ?b ! 0)) k')))
       | (Inr respEv, k', ek') \<Rightarrow> Some (Inr (started_hub (?b\<lparr>bitmap := bm, lastSearchPos := l, kern := k'\<rparr>) s respEv
           (if names = [] then ''mmfg_chunk0'' else last names) m2 ek'), k'))"
    and st: "stripe_blocks (chunks ?b) [0..<256] s" "Blocks s = map (region_block r0) [0..<256]" "ctl_ok (NewControl s)"
    "length bm = 32" "used_bits bm = {..<256}"
    and z: "\<forall>f. field_valid f \<longrightarrow> (\<exists>q. f = QHead q \<or> f = QTail q) \<or> (\<exists>s. f = SlotStatus s \<and> s \<noteq> 4096) \<longrightarrow> fget (NewControl s) m2 f = 0"
    by (rule NewHub_steps[where os = os, OF refl os])
  let ?k' = "?k\<lparr>open_fds := insert efd (open_fds ?k)\<rparr>"
  let ?b' = "?b\<lparr>bitmap := bm, lastSearchPos := l, kern := ?k'\<rparr>"
  let ?h = "started_hub ?b' s \<lparr>ev_fd = efd\<rparr> (if names = [] then ''mmfg_chunk0'' else last names) m2 (set_counter ek efd 0)"
  have f: "chunks ?b' = chunks ?b" "bitmap ?b = replicate 32 0" by (simp_all add: first_bus_def)
  have "bus_ok ?b'" using first_bus_ok[of r0 cfd ?k] st(4) f(2) by (simp add: bus_ok_def)
  moreover have "os_fresh os ?b'" using first_bus_fresh[of os r0 cfd ?k, OF fresh os(3)] by (simp add: os_fresh_def)
  moreover have "used ?b' = {..<256}" using st(5) by (simp add: used_def)
  moreover have "set [0..<256] \<subseteq> {..<256::nat}" by auto
  ultimately have ok: "hub_ok os [0..<256] ?h" "used (h_bus ?h) = {..<256}"
    using st(1,3) by (simp_all add: hub_ok_def started_hub_def NewControl_def del: upt_rec_numeral)
  have idle: "\<forall>t. 1 \<le> t \<and> t < 4096 \<longrightarrow> fget (h_ctrl ?h) (h_mem ?h) (SlotStatus t) = 0"
  proof (intro allI impI)
    fix t :: uint32 assume "1 \<le> t \<and> t < 4096"
    then have "field_valid (SlotStatus t)" "t \<noteq> 4096" by (auto simp: word_less_nat_alt word_le_nat_alt)
    then show "fget (h_ctrl ?h) (h_mem ?h) (SlotStatus t) = 0" using z by (simp add: started_hub_def)
  qed
  show ?thesis
  proof (rule that[OF _ ok(1) _ ok(2) _ _ _ _ _ _ _ _ _ idle])
    show "NewHub os (Inr efd) (map WithChunk0Name names) k m ek = Some (Inr ?h, ?k')" using new by (simp add: NewEventfd_def)
    show "\<forall>q<MaxNodes. q_inv (fget (h_ctrl ?h)) (h_mem ?h) q \<and> q_items (fget (h_ctrl ?h)) (h_mem ?h) q = [] \<and> fget (h_ctrl ?h) (h_mem ?h) (QTail q) = 0"
      using z by (simp add: q_inv_def q_items_def started_hub_def)
    show "map ck_Fd (chunks (h_bus ?h)) = [cfd]" by (simp add: started_hub_def first_bus_def)
  qed (use st(2) in \<open>simp_all add: started_hub_def NewControl_def list_all_iff MaxNodes_def del: upt_rec_numeral\<close>)
qed

text \<open>When the event counter cannot be created the chunk is closed again.\<close>

lemma NewHub_closes:
  assumes os: "sys_memfd (os 0) ''mmfg_chunk0'' = Inr cfd" "sys_ftruncate (os 0) = None" "sys_mmap (os 0) = Inr r0"
    and fd: "0 \<le> cfd" "cfd \<notin> open_fds k"
  shows "NewHub os (Inl e) (map WithChunk0Name names) k m ek = Some (Inl (EventfdFailed e), k)"
proof (rule NewHub_steps[where os = os and ev = "Inl e", OF refl os])
  let ?k = "k\<lparr>open_fds := insert cfd (open_fds k), mapped := r0 # mapped k\<rparr>"
  fix s bm l m2
  assume "NewHub os (Inl e) (map WithChunk0Name names) k m ek =
      (case NewEventfd (Inl e) ?k ek of
         (Inl err, k', ek') \<Rightarrow> Some (Inl err, snd (snd (Chunk_Close None (Some (chunks (first_bus r0 cfd ?k) ! 0)) k')))
       | (Inr respEv, k', ek') \<Rightarrow> Some (Inr (started_hub ((first_bus r0 cfd ?k)\<lparr>bitmap := bm, lastSearchPos := l, kern := k'\<rparr>) s respEv
           (if names = [] then ''mmfg_chunk0'' else last names) m2 ek'), k'))"
  then show ?thesis using fd by (simp add: NewEventfd_def Chunk_Close_def first_bus_def sys_close_def)
qed

text \<open>C38: Whatever options are given, a hub whose system calls succeed starts with the control region in the first
  256 blocks of its one chunk, empty queues and idle slots, and satisfies the invariant of the hub. When
  the event counter cannot be created the error is returned and the chunk is closed: no descriptor
  and no mapping is left behind.\<close>

theorem NewHub_correct:
  assumes os: "sys_memfd (os 0) ''mmfg_chunk0'' = Inr cfd" "sys_ftruncate (os 0) = None" "sys_mmap (os 0) = Inr r0"
    and fresh: "mmaps_fresh os"
    and fd: "0 \<le> cfd" "cfd \<notin> open_fds k"
  shows "case ev of
      Inl e \<Rightarrow> NewHub os ev (map WithChunk0Name names) k m ek = Some (Inl (EventfdFailed e), k)
    | Inr efd \<Rightarrow> (\<exists>h k'. NewHub os ev (map WithChunk0Name names) k m ek = Some (Inr h, k') \<and> hub_ok os [0..<256] h
        \<and> Blocks (ctl_stripe (h_ctrl h)) = map (region_block r0) [0..<256] \<and> used (h_bus h) = {..<256}
        \<and> map ck_Fd (chunks (h_bus h)) = [cfd] \<and> open_fds k' = {efd, cfd} \<union> open_fds k \<and> h_respEv h = \<lparr>ev_fd = efd\<rparr>
        \<and> h_nodes h = [] \<and> h_limit h = 0 \<and> list_all (\<lambda>w. w = None) (h_waiters h) \<and> list_all (\<lambda>w. w = 0) (h_nodeIDs h) \<and> length (h_nodeIDs h) = 64
        \<and> (\<forall>q<MaxNodes. q_inv (fget (h_ctrl h)) (h_mem h) q \<and> q_items (fget (h_ctrl h)) (h_mem h) q = [] \<and> fget (h_ctrl h) (h_mem h) (QTail q) = 0)
        \<and> (\<forall>s. 1 \<le> s \<and> s < 4096 \<longrightarrow> fget (h_ctrl h) (h_mem h) (SlotStatus s) = 0))"
proof (cases ev)
  case (Inl e)
  then show ?thesis using NewHub_closes[of os, OF os fd] by simp
next
  case (Inr efd)
  show ?thesis
    unfolding Inr sum.case
    by (rule NewHub_spec[where os = os and efd = efd and names = names and k = k and m = m and ek = ek, OF os fresh])
      (intro exI conjI, assumption+)
qed

subsection \<open>An example hub\<close>

definition ex_kernel :: kernel where
  "ex_kernel = \<lparr>open_fds = {0, 1, 2}, mapped = []\<rparr>"

lemma ex_os_calls: "sys_memfd (ex_os 0) nm = Inr 10" "sys_ftruncate (ex_os 0) = None" "sys_mmap (ex_os 0) = Inr 0"
  "mmaps_fresh ex_os"
  by (auto simp: ex_os_def mmaps_fresh_def)

theorem NewHub_correct_witness:
  "NewHub ex_os (Inl 24) [] ex_kernel (\<lambda>_ _. 0) ex_efds = Some (Inl (EventfdFailed 24), ex_kernel)
   \<and> (\<exists>h k'. NewHub ex_os (Inr 5) [WithChunk0Name ''other''] ex_kernel (\<lambda>_ _. 0) ex_efds = Some (Inr h, k') \<and> open_fds k' = {0, 1, 2, 5, 10})"
proof
  have fd: "(0::int) \<le> 10" "10 \<notin> open_fds ex_kernel" by (simp_all add: ex_kernel_def)
  note N = NewHub_correct[where os = ex_os, OF ex_os_calls fd]
  show "NewHub ex_os (Inl 24) [] ex_kernel (\<lambda>_ _. 0) ex_efds = Some (Inl (EventfdFailed 24), ex_kernel)"
    using N[where ev = "Inl 24" and names = "[]"] by simp
  show "\<exists>h k'. NewHub ex_os (Inr 5) [WithChunk0Name ''other''] ex_kernel (\<lambda>_ _. 0) ex_efds = Some (Inr h, k') \<and> open_fds k' = {0, 1, 2, 5, 10}"
    using N[where ev = "Inr 5" and names = "[''other'']" and m = "\<lambda>_ _. 0" and ek = ex_efds] unfolding sum.case list.map
    by - (elim exE conjE, intro exI conjI, assumption, simp add: ex_kernel_def)
qed

text \<open>A hub started on the example system calls, on which the properties of connections are tried.\<close>

lemma ex_hub:
  obtains h k' where "NewHub ex_os (Inr 5) [] ex_kernel (\<lambda>_ _. 0) ex_efds = Some (Inr h, k')" "hub_ok ex_os [0..<256] h"
    "Blocks (ctl_stripe (h_ctrl h)) = map (region_block 0) [0..<256]" "used (h_bus h) = {..<256}"
    "map ck_Fd (chunks (h_bus h)) = [10]" "h_respEv h = \<lparr>ev_fd = 5\<rparr>" "h_nodes h = []" "h_limit h = 0"
    "list_all (\<lambda>w. w = None) (h_waiters h)" "list_all (\<lambda>w. w = 0) (h_nodeIDs h)" "length (h_nodeIDs h) = 64"
    "\<forall>q<MaxNodes. q_inv (fget (h_ctrl h)) (h_mem h) q \<and> q_items (fget (h_ctrl h)) (h_mem h) q = [] \<and> fget (h_ctrl h) (h_mem h) (QTail q) = 0"
    "\<forall>s. 1 \<le> s \<and> s < 4096 \<longrightarrow> fget (h_ctrl h) (h_mem h) (SlotStatus s) = 0"
  by (rule NewHub_spec[where os = ex_os and efd = 5 and names = "[]" and k = ex_kernel and m = "\<lambda>_ _. 0" and ek = ex_efds,
        OF ex_os_calls, unfolded list.map]) (rule that)

end
