(* ===== verification/Conn_Stream.thy ===== *)
theory Conn_Stream
  imports Hub_Start
begin

text \<open>
  A connection of the hub as a byte stream: what is written to it piece by piece is what \<open>WriteTo\<close>
  delivers, and closing it gives back its blocks and its slot.
\<close>

subsection \<open>Reading\<close>

lemma contents_length: "stripe_ok m s \<Longrightarrow> length (contents m s) = unat (DataLen s)"
  using stripe_okD[of m s] by (simp add: contents_def)

lemma less_uint: "int r < uint w \<longleftrightarrow> r < unat w" "uint w \<le> int r \<longleftrightarrow> unat w \<le> r"
  using of_nat_less_iff[of r "unat w", where 'a = int] of_nat_le_iff[of "unat w" r, where 'a = int] by simp_all

lemma conn_Read_spec:
  assumes ok: "stripe_ok (h_mem h) s" and c: "c_Stripe c = Some s" "c_readOff c = int r" and r: "r < unat (DataLen s)"
  shows "\<exists>data. conn_Read h c p = Some (data, int (min (length p) (unat (DataLen s) - r)), None,
      c\<lparr>c_readOff := int (r + min (length p) (unat (DataLen s) - r))\<rparr>)
    \<and> take (min (length p) (unat (DataLen s) - r)) data = take (length p) (drop r (contents (h_mem h) s))"
proof -
  let ?k = "min (length p) (unat (DataLen s) - r)" and ?R = "data_region (h_mem h) s"
  have R: "length ?R = capacity s" "unat (DataLen s) \<le> capacity s" using stripe_okD[OF ok] by simp_all
  have "ReadAt (h_mem h) s p (int r) = Some (take ?k (drop r ?R) @ drop ?k p, int ?k, None)"
    using ReadAt_spec[OF ok, of "int r" p] r by (simp add: Let_def less_uint)
  moreover have "unat (DataLen s) < 2 ^ 32" using unsigned_less[of "DataLen s", where 'a = nat] by simp
  then have "i64 (int r + int ?k) = int (r + ?k)" using r by (subst i64_id) simp_all
  ultimately have "conn_Read h c p = Some (take ?k (drop r ?R) @ drop ?k p, int ?k, None, c\<lparr>c_readOff := int (r + ?k)\<rparr>)"
    using c by (simp add: conn_Read_def conn_ReadAt_def)
  moreover have "take ?k (take ?k (drop r ?R) @ drop ?k p) = take (length p) (drop r (contents (h_mem h) s))"
    using R by (auto simp: contents_def drop_take min_def)
  ultimately show ?thesis by blast
qed

lemma conn_Read_eof:
  assumes "c_Stripe c = Some s" "c_readOff c = int r" "unat (DataLen s) \<le> r"
  shows "conn_Read h c p = Some (p, 0, Some EOF, c)"
  using assms ReadAt_eof[of "int r" s] by (simp add: conn_Read_def conn_ReadAt_def less_uint)

lemma copy_loop_spec:
  assumes ok: "stripe_ok (h_mem h) s" and c: "c_Stripe c = Some s" "c_readOff c = int r" and r: "r \<le> unat (DataLen s)"
  shows "copy_loop h c (int n) out = Some (out @ take n (drop r (contents (h_mem h) s)), None,
    c\<lparr>c_readOff := int (r + min n (unat (DataLen s) - r))\<rparr>)"
  using c r
proof (induction n arbitrary: c r out rule: less_induct)
  case (less n)
  let ?d = "unat (DataLen s)" and ?C = "contents (h_mem h) s"
  have C: "length ?C = ?d" by (rule contents_length[OF ok])
  show ?case
  proof (cases "n = 0 \<or> r = ?d")
    case True
    then have "c\<lparr>c_readOff := int (r + min n (?d - r))\<rparr> = c" using less.prems by auto
    then show ?thesis using True less.prems C conn_Read_eof[of c s r h]
      by (auto simp: copy_loop.simps)
  next
    case False
    define w where "w = min n 32768"
    define k where "k = min w (?d - r)"
    have n: "0 < n" "r < ?d" "0 < k" "k \<le> n" "r + k \<le> ?d" using False less.prems by (auto simp: w_def k_def)
    obtain data where R: "conn_Read h c (replicate w 0) = Some (data, int k, None, c\<lparr>c_readOff := int (r + k)\<rparr>)"
      "take k data = take w (drop r ?C)"
      using conn_Read_spec[OF ok less.prems(1,2) n(2), of "replicate w 0"] unfolding k_def length_replicate by blast
    have buf: "nat (min (int n) 32768) = w" by (simp add: w_def)
    have "copy_loop h c (int n) out = copy_loop h (c\<lparr>c_readOff := int (r + k)\<rparr>) (int (n - k)) (out @ take k data)"
      using R(1) n(1,4) buf by (subst copy_loop.simps) (simp add: of_nat_diff)
    also have "\<dots> = Some ((out @ take k data) @ take (n - k) (drop (r + k) ?C), None,
        c\<lparr>c_readOff := int (r + k), c_readOff := int (r + k + min (n - k) (?d - (r + k)))\<rparr>)"
      by (rule less.IH) (use n less.prems(1) in simp_all)
    also have "r + k + min (n - k) (?d - (r + k)) = r + min n (?d - r)" using n by simp
    also have "(out @ take k data) @ take (n - k) (drop (r + k) ?C) = out @ take n (drop r ?C)"
    proof -
      have "take k data = take k (drop r ?C)" using R(2) C by (auto simp: k_def min_def)
      moreover have "take k (drop r ?C) @ take (n - k) (drop k (drop r ?C)) = take (k + (n - k)) (drop r ?C)"
        by (rule take_add[symmetric])
      ultimately show ?thesis using n(4) by (simp add: add.commute)
    qed
    finally show ?thesis by simp
  qed
qed

lemma conn_WriteTo_spec:
  assumes ok: "stripe_ok (h_mem h) s" and c: "c_Stripe c = Some s" "c_readOff c = int r" and r: "r \<le> unat (DataLen s)"
  shows "conn_WriteTo h c = Some (drop r (contents (h_mem h) s), None, c\<lparr>c_readOff := int (unat (DataLen s))\<rparr>)"
proof -
  have "r + min (unat (DataLen s)) (unat (DataLen s) - r) = unat (DataLen s)" using r by simp
  then show ?thesis
    using copy_loop_spec[OF ok c r, of "unat (DataLen s)" "[]"] c(1) contents_length[OF ok]
    by (simp add: conn_WriteTo_def)
qed

subsection \<open>Writing\<close>

text \<open>A program that writes \<open>datas\<close> one after the other and stops at the first error.\<close>

fun conn_writes :: "(nat \<Rightarrow> chunk_sys) \<Rightarrow> hub \<Rightarrow> busConn \<Rightarrow> byte list list \<Rightarrow> (go_error option \<times> hub \<times> busConn) option" where
  "conn_writes os h c [] = Some (None, h, c)"
| "conn_writes os h c (data # datas) = do {
     (n, err, h, c) \<leftarrow> conn_Write os h c data;
     (case err of Some e \<Rightarrow> Some (Some e, h, c) | None \<Rightarrow> conn_writes os h c datas)
   }"

lemma sequence_mono:
  assumes "stripe_blocks cks as s" "stripe_blocks cks (as @ new) s'" "set as \<subseteq> {..<65536}"
  shows "length (Sequence s) \<le> length (Sequence s')"
  using assms append_sequence_append[OF addr_blocks_of[of as cks], of 0 "map (block_of cks) new"] by (auto simp: stripe_blocks_def)

lemma wrote_connD:
  assumes "wrote_conn os cas as h s off data h' s'"
  shows "hub_ok os cas h'" "same_admin h h'" "grows (h_bus h) (h_bus h')"
    "contents (h_mem h') s' = write_over (contents (h_mem h) s) off data"
  using assms by (simp_all add: wrote_conn_def)

lemma wrote_conn_new:
  assumes "wrote_conn os cas as h s off data h' s'"
  obtains new where "bus_stripe (h_bus h') (h_mem h') (as @ new) s'" "set new \<inter> used (h_bus h) = {}"
    "used (h_bus h') = used (h_bus h) \<union> set new" "length new \<le> extra_blocks s (off + length data)"
  using assms by (auto simp: wrote_conn_def)

lemma capacity_blocks: "bus_stripe b m (as @ new) s' \<Longrightarrow> bus_stripe b0 m0 as s \<Longrightarrow> capacity s' = capacity s + BlockSize * length new"
  by (cases as) (auto simp: bus_stripe_def stripe_blocks_def capacity_def algebra_simps)

lemma extra_blocks_grown: "capacity s' = capacity s + BlockSize * k \<Longrightarrow> extra_blocks s' n = extra_blocks s n - k"
proof -
  assume c: "capacity s' = capacity s + BlockSize * k"
  have "(4095 + (x - 4096 * k)) div 4096 = (4095 + x) div 4096 - k" for x :: nat
  proof (cases "4096 * k \<le> x")
    case True
    then obtain y where "x = 4096 * k + y" by (auto simp: le_iff_add)
    then show ?thesis by (simp add: add.left_commute[of 4095])
  next
    case False
    then have "(4095 + x) div 4096 \<le> k" by linarith
    then show ?thesis using False by simp
  qed
  from this[of "n - capacity s"] show ?thesis using c by (simp add: extra_blocks_def BlockSize_def)
qed

lemma extra_blocks_mono: "n \<le> n' \<Longrightarrow> extra_blocks s n \<le> extra_blocks s n'"
  unfolding extra_blocks_def by (intro div_le_mono) simp

lemma appended_len:
  assumes "bus_stripe (h_bus h) (h_mem h) as s" "wrote_conn os cas as h s (unat (DataLen s)) xs h1 s1"
  shows "contents (h_mem h1) s1 = contents (h_mem h) s @ xs" "unat (DataLen s1) = unat (DataLen s) + length xs"
proof -
  have ok: "stripe_ok (h_mem h) s" "stripe_ok (h_mem h1) s1" using assms wrote_conn_new[OF assms(2)] by (auto simp: bus_stripe_def)
  show ct: "contents (h_mem h1) s1 = contents (h_mem h) s @ xs"
    using wrote_connD(4)[OF assms(2)] contents_length[OF ok(1)] by (simp add: write_over_def)
  show "unat (DataLen s1) = unat (DataLen s) + length xs" using arg_cong[OF ct, of length] contents_length ok by simp
qed

text \<open>Two writes that append are one write of both.\<close>

lemma wrote_conn_trans:
  assumes h: "hub_ok os cas h" and s: "bus_stripe (h_bus h) (h_mem h) as s"
    and w1: "wrote_conn os cas as h s (unat (DataLen s)) xs h1 s1" and st1: "bus_stripe (h_bus h1) (h_mem h1) (as @ new) s1"
      "set new \<inter> used (h_bus h) = {}" "used (h_bus h1) = used (h_bus h) \<union> set new" "length new \<le> extra_blocks s (unat (DataLen s) + length xs)"
    and w2: "wrote_conn os cas (as @ new) h1 s1 (unat (DataLen s1)) ys h2 s2"
  shows "wrote_conn os cas as h s (unat (DataLen s)) (xs @ ys) h2 s2"
proof -
  note H = hub_okD[OF h] and D1 = wrote_connD[OF w1] and D2 = wrote_connD[OF w2]
  note len = appended_len[OF s w1] appended_len[OF st1(1) w2]
  have ok: "stripe_ok (h_mem h) s" using s by (simp add: bus_stripe_def)
  obtain new' where st2: "bus_stripe (h_bus h2) (h_mem h2) ((as @ new) @ new') s2" "set new' \<inter> used (h_bus h1) = {}"
    "used (h_bus h2) = used (h_bus h1) \<union> set new'" "length new' \<le> extra_blocks s1 (unat (DataLen s1) + length ys)"
    by (rule wrote_conn_new[OF w2])
  have "contents (h_mem h2) s2 = write_over (contents (h_mem h) s) (unat (DataLen s)) (xs @ ys)"
    using len contents_length[OF ok] by (simp add: write_over_def)
  moreover have "\<exists>new. bus_stripe (h_bus h2) (h_mem h2) (as @ new) s2 \<and> set new \<inter> used (h_bus h) = {}
      \<and> used (h_bus h2) = used (h_bus h) \<union> set new \<and> length new \<le> extra_blocks s (unat (DataLen s) + length (xs @ ys))"
  proof (intro exI[of _ "new @ new'"] conjI)
    have "extra_blocks s1 (unat (DataLen s1) + length ys) = extra_blocks s (unat (DataLen s) + length (xs @ ys)) - length new"
      using extra_blocks_grown[OF capacity_blocks[OF st1(1) s]] len(2) by (simp add: add.assoc)
    moreover have "length new \<le> extra_blocks s (unat (DataLen s) + length (xs @ ys))"
      using st1(4) extra_blocks_mono[of "unat (DataLen s) + length xs" "unat (DataLen s) + length (xs @ ys)" s] by simp
    ultimately show "length (new @ new') \<le> extra_blocks s (unat (DataLen s) + length (xs @ ys))" using st2(4) by simp
  qed (use st1 st2 in auto)
  moreover have "bus_stripe (h_bus h2) (h_mem h2) ts t \<and> contents (h_mem h2) t = contents (h_mem h) t"
    if t: "bus_stripe (h_bus h) (h_mem h) ts t" "set ts \<inter> set as = {}" for ts t
  proof -
    have "bus_stripe (h_bus h1) (h_mem h1) ts t" "contents (h_mem h1) t = contents (h_mem h) t" using w1 t unfolding wrote_conn_def by blast+
    moreover have "set ts \<inter> set (as @ new) = {}" using t st1(2) by (auto simp: bus_stripe_def)
    ultimately show ?thesis using w2 unfolding wrote_conn_def by metis
  qed
  moreover have "fget (h_ctrl h) (h_mem h2) f = fget (h_ctrl h) (h_mem h) f" if f: "set cas \<inter> set as = {}" "field_valid f" for f
  proof -
    have "set cas \<inter> set (as @ new) = {}" using f(1) H(5) st1(2) by auto
    then show ?thesis using w1 w2 f unfolding wrote_conn_def by (metis same_admin_ctrl)
  qed
  moreover have "header_synced (h_mem h2) s2" if "header_synced (h_mem h) s" "length (Sequence s2) \<le> seq_capacity"
  proof -
    have u: "set (as @ new) \<subseteq> used (h_bus h2)" using st1(1) st2(3) unfolding bus_stripe_def by blast
    have "stripe_blocks (chunks (h_bus h2)) (as @ new) s1"
      using bus_stripe_grows[OF hub_okD(1)[OF D1(1)] st1(1) D2(3) u] by (simp add: bus_stripe_def)
    moreover have "stripe_blocks (chunks (h_bus h2)) ((as @ new) @ new') s2" using st2(1) unfolding bus_stripe_def by blast
    moreover have "set (as @ new) \<subseteq> {..<65536}" using bus_addr_bound[OF hub_okD(1)[OF D1(1)]] st1(1) unfolding bus_stripe_def by blast
    ultimately have "length (Sequence s1) \<le> length (Sequence s2)" by (rule sequence_mono)
    then show ?thesis using w1 w2 that unfolding wrote_conn_def by (meson order_trans)
  qed
  moreover have "hub_ok os cas h2" "same_admin h h2" "grows (h_bus h) (h_bus h2)"
    using D1 D2 same_admin_trans grows_trans by blast+
  ultimately show ?thesis unfolding wrote_conn_def by blast
qed

lemma conn_Write_spec:
  assumes h: "hub_ok os cas h" and c: "c_Stripe c = Some s" "c_writeOff c = int off" and s: "bus_stripe (h_bus h) (h_mem h) as s"
    and off: "off \<le> unat (DataLen s)" and len: "length data < 2 ^ 54"
  obtains (error) err b' where "conn_Write os h c data = Some (0, Some err, put_bus h b', c)" "hub_ok os cas (put_bus h b')"
      "used b' = used (h_bus h)" "grows (h_bus h) b'" "capacity s < off + length data"
      "\<not> (os_succeeds os \<and> extra_blocks s (off + length data) + card (used (h_bus h)) \<le> 65536)"
  | (ok) h' s' where "conn_Write os h c data = Some (int (length data), None, h',
        c\<lparr>c_Stripe := Some s', c_writeOff := int (off + length data)\<rparr>)"
      "wrote_conn os cas as h s off data h' s'"
proof (rule conn_WriteAt_spec[OF h c(1) s off len])
  fix err b'
  assume "conn_WriteAt os h c data (int off) = Some (0, Some err, put_bus h b', c)" "hub_ok os cas (put_bus h b')"
      "used b' = used (h_bus h)" "grows (h_bus h) b'" "capacity s < off + length data"
      "\<not> (os_succeeds os \<and> extra_blocks s (off + length data) + card (used (h_bus h)) \<le> 65536)"
  then show thesis using c(2) by (intro error[of err b']) (simp_all add: conn_Write_def)
next
  fix h' s'
  assume w: "conn_WriteAt os h c data (int off) = Some (int (length data), None, h', c\<lparr>c_Stripe := Some s'\<rparr>)"
    "wrote_conn os cas as h s off data h' s'"
  have "off < 2 ^ 32" using off unsigned_less[of "DataLen s", where 'a = nat] by simp
  then have "i64 (int off + int (length data)) = int (off + length data)" using len by (subst i64_id) simp_all
  then show thesis using w c(2) by (intro ok[of h' s']) (simp_all add: conn_Write_def)
qed

lemma wrote_conn_refl:
  assumes "hub_ok os cas h" "bus_stripe (h_bus h) (h_mem h) as s"
  shows "wrote_conn os cas as h s (unat (DataLen s)) [] h s"
proof -
  have "contents (h_mem h) s = write_over (contents (h_mem h) s) (unat (DataLen s)) []"
    by (simp add: write_over_def)
  moreover have "\<exists>new. bus_stripe (h_bus h) (h_mem h) (as @ new) s \<and> set new \<inter> used (h_bus h) = {}
      \<and> used (h_bus h) = used (h_bus h) \<union> set new \<and> length new \<le> extra_blocks s (unat (DataLen s) + length [])"
    using assms(2) by (intro exI[of _ "[]"]) simp
  moreover have "grows (h_bus h) (h_bus h)" by (simp add: grows_refl)
  ultimately show ?thesis using assms(1) unfolding wrote_conn_def by simp
qed

text \<open>Writing piece by piece takes no more blocks than writing all at once, and succeeds when these can be had.\<close>

lemma conn_writes_spec:
  assumes "hub_ok os cas h" "c_Stripe c = Some s" "c_writeOff c = int (unat (DataLen s))" "bus_stripe (h_bus h) (h_mem h) as s"
    and "os_succeeds os" "extra_blocks s (unat (DataLen s) + length (concat datas)) + card (used (h_bus h)) \<le> 65536"
  shows "\<exists>h' s'. conn_writes os h c datas = Some (None, h', c\<lparr>c_Stripe := Some s', c_writeOff := int (unat (DataLen s'))\<rparr>)
    \<and> wrote_conn os cas as h s (unat (DataLen s)) (concat datas) h' s'"
  using assms
proof (induction datas arbitrary: h c s as)
  case Nil
  then show ?case using wrote_conn_refl[OF Nil(1,4)] by (intro exI[of _ h] exI[of _ s]) simp
next
  case (Cons data datas)
  let ?d = "unat (DataLen s)" and ?E = "extra_blocks s (unat (DataLen s) + length (concat (data # datas)))"
  have E: "extra_blocks s (?d + length data) \<le> ?E" by (intro extra_blocks_mono) simp
  have "?d + length data \<le> capacity s + BlockSize * 65536"
    using extra_blocks_enough[of "?d + length data" s] E Cons.prems(6) by (simp add: BlockSize_def)
  moreover have "capacity s < 2 ^ 28" using Cons.prems(4) stripe_okD(3) capacity_bound unfolding bus_stripe_def by blast
  ultimately have len: "length data < 2 ^ 54" by (simp add: BlockSize_def)
  show ?case
  proof (rule conn_Write_spec[OF Cons.prems(1-4) order_refl len])
    fix err b'
    assume "\<not> (os_succeeds os \<and> extra_blocks s (?d + length data) + card (used (h_bus h)) \<le> 65536)"
    then show ?thesis using E Cons.prems(5,6) by simp
  next
    fix h1 s1
    let ?c1 = "c\<lparr>c_Stripe := Some s1, c_writeOff := int (?d + length data)\<rparr>"
    assume w: "conn_Write os h c data = Some (int (length data), None, h1, ?c1)" "wrote_conn os cas as h s ?d data h1 s1"
    obtain new where n: "bus_stripe (h_bus h1) (h_mem h1) (as @ new) s1" "set new \<inter> used (h_bus h) = {}"
      "used (h_bus h1) = used (h_bus h) \<union> set new" "length new \<le> extra_blocks s (?d + length data)"
      by (rule wrote_conn_new[OF w(2)])
    have d1: "unat (DataLen s1) = ?d + length data" by (rule appended_len[OF Cons.prems(4) w(2)])
    have "extra_blocks s1 (unat (DataLen s1) + length (concat datas)) = ?E - length new"
      using extra_blocks_grown[OF capacity_blocks[OF n(1) Cons.prems(4)]] d1 by (simp add: add.assoc)
    moreover have "card (used (h_bus h1)) \<le> card (used (h_bus h)) + length new"
      unfolding n(3) by (meson card_Un_le card_length le_trans add_le_cancel_left)
    ultimately have "extra_blocks s1 (unat (DataLen s1) + length (concat datas)) + card (used (h_bus h1)) \<le> 65536"
      using Cons.prems(6) n(4) E by linarith
    then obtain h' s' where ih: "conn_writes os h1 ?c1 datas = Some (None, h', ?c1\<lparr>c_Stripe := Some s', c_writeOff := int (unat (DataLen s'))\<rparr>)"
      "wrote_conn os cas (as @ new) h1 s1 (unat (DataLen s1)) (concat datas) h' s'"
      using Cons.IH[OF wrote_connD(1)[OF w(2)], of ?c1 s1 "as @ new"] n(1) d1 Cons.prems(5) by auto
    have "wrote_conn os cas as h s ?d (data @ concat datas) h' s'"
      by (rule wrote_conn_trans[OF Cons.prems(1,4) w(2) n ih(2)])
    then show ?thesis using w(1) ih(1) by (intro exI[of _ h'] exI[of _ s']) simp
  qed
qed

end
