(* ===== verification/Conn_Lifecycle.thy ===== *)
theory Conn_Lifecycle
  imports Conn_Stream
begin

text \<open>
  The life of a connection: \<open>Request\<close> allocates its blocks and, on demand, its slot; \<open>Close\<close> gives both
  back.
\<close>

subsection \<open>Slots\<close>

lemma uint_less: "uint w < int n \<longleftrightarrow> unat w < n"
  using of_nat_less_iff[of "unat w" n, where 'a = int] by simp

lemma stripe_ids:
  assumes "bus_ok b" "bus_stripe b m as s"
  shows "go_nth (Sequence s) 0 = Some (Sequence s ! 0)" "go_nth (Sequence s) 1 = Some (Sequence s ! 1)"
proof -
  obtain a as' where as: "as = a # as'" using assms(2) by (cases as) (auto simp: bus_stripe_def)
  have "a < 65536" using bus_addr_bound[OF assms(1), of as] assms(2) as by (auto simp: bus_stripe_def)
  then have "2 \<le> length (Sequence s)" using stripe_head(1)[of "chunks b" a as' s] assms(2) as by (simp add: bus_stripe_def)
  then show "go_nth (Sequence s) 0 = Some (Sequence s ! 0)" "go_nth (Sequence s) 1 = Some (Sequence s ! 1)"
    by (auto simp: go_nth_def)
qed

lemma waiter_nth:
  assumes "hub_ok os cas h" "valid_slot t"
  shows "go_nth (h_waiters h) (uint t) = Some (h_waiters h ! unat t)"
proof -
  have "unat t < length (h_waiters h)" using assms(2) hub_okD(6)[OF assms(1)] by (simp add: MaxTotalSlots_def word_le_nat_alt)
  then show ?thesis by (simp add: go_nth_def uint_less)
qed

lemma same_cursor: "fget (c\<lparr>cursor := x\<rparr>) = fget c" "ctl_ok (c\<lparr>cursor := x\<rparr>) = ctl_ok c" "fput (c\<lparr>cursor := x\<rparr>) = fput c"
  using ctl_cong[of "c\<lparr>cursor := x\<rparr>" c] by simp_all

text \<open>A slot given to the stripe \<open>s\<close>: only the fields of the slot, the cursor and the count of tokens change.\<close>

definition slot_taken :: "hub \<Rightarrow> stripe \<Rightarrow> uint32 \<Rightarrow> hub \<Rightarrow> bool" where
  "slot_taken h s slotID h' \<longleftrightarrow> valid_slot slotID \<and> fget (h_ctrl h) (h_mem h) (SlotStatus slotID) = 0
     \<and> (\<exists>m x. h' = h\<lparr>h_mem := m, h_ctrl := (h_ctrl h)\<lparr>cursor := x\<rparr>, h_limit := Suc (h_limit h)\<rparr> \<and> same_elsewhere (h_mem h) m (ctl_stripe (h_ctrl h)))
     \<and> fget (h_ctrl h) (h_mem h') (SlotStatus slotID) = unat StripeStatusReady
     \<and> GetStripeHeader (h_mem h') (h_ctrl h') slotID = Some (Sequence s ! 0, Sequence s ! 1)
     \<and> (\<forall>f. field_valid f \<longrightarrow> f \<notin> {SlotStatus slotID, SlotHeader slotID, SlotOwner slotID} \<longrightarrow>
          fget (h_ctrl h) (h_mem h') f = fget (h_ctrl h) (h_mem h) f)"

lemma allocSlot_spec:
  assumes h: "hub_ok os cas h" and s: "bus_stripe (h_bus h) (h_mem h) as s" and limit: "h_limit h < MaxTotalSlots"
  obtains (none) x where "allocSlot h s = Some (Inl NoSlots, h\<lparr>h_ctrl := (h_ctrl h)\<lparr>cursor := x\<rparr>\<rparr>)"
      "\<forall>t. valid_slot t \<longrightarrow> fget (h_ctrl h) (h_mem h) (SlotStatus t) \<noteq> 0"
  | (slot) slotID h' where "allocSlot h s = Some (Inr slotID, h')" "slot_taken h s slotID h'"
proof -
  note H = hub_okD[OF h]
  let ?c = "(h_ctrl h)\<lparr>cursor := cursor (h_ctrl h) + 1\<rparr>"
  show ?thesis
  proof (rule AllocSlot_spec[OF H(3), of "h_mem h"])
    assume "AllocSlot (h_mem h) (h_ctrl h) = Some (h_mem h, ?c, 0, False)" "\<forall>s. valid_slot s \<longrightarrow> slot_status (h_ctrl h) (h_mem h) s \<noteq> 0"
    then show ?thesis using limit by (intro none[of "cursor (h_ctrl h) + 1"]) (simp_all add: allocSlot_def slot_status_def)
  next
    fix t
    let ?m = "fput (h_ctrl h) (h_mem h) (SlotStatus t) 1"
    assume t: "AllocSlot (h_mem h) (h_ctrl h) = Some (?m, ?c, t, True)" "valid_slot t" "slot_status (h_ctrl h) (h_mem h) t = 0"
    have c: "ctl_ok ?c" using H(3) same_cursor by simp
    obtain m' where m': "SetStripe ?m ?c t StripeStatusReady (Sequence s ! 0) (Sequence s ! 1) 0 = Some m'"
      "fget ?c m' (SlotStatus t) = unat StripeStatusReady" "GetStripeHeader m' ?c t = Some (Sequence s ! 0, Sequence s ! 1)"
      "fget ?c m' (SlotOwner t) = unat (0 :: uint32)" "\<forall>f. field_valid f \<longrightarrow> f \<notin> {SlotStatus t, SlotHeader t, SlotOwner t} \<longrightarrow> fget ?c m' f = fget ?c ?m f"
      "same_elsewhere ?m m' (ctl_stripe ?c)"
      by (rule SetStripe_spec[OF c t(2)])
    let ?h = "h\<lparr>h_mem := m', h_ctrl := ?c, h_limit := Suc (h_limit h)\<rparr>"
    have "same_elsewhere (h_mem h) m' (ctl_stripe (h_ctrl h))"
      using fput_elsewhere[OF H(3), of "SlotStatus t"] m'(6) t(2) by (auto intro: same_elsewhere_trans)
    moreover have "fget (h_ctrl h) m' f = fget (h_ctrl h) (h_mem h) f" if "field_valid f" "f \<notin> {SlotStatus t, SlotHeader t, SlotOwner t}" for f
      using m'(5) that t(2) by (auto simp: same_cursor fget_fput[OF H(3)])
    ultimately have "slot_taken h s t ?h"
      unfolding slot_taken_def using m'(2,3) t(2,3) by (auto simp: same_cursor slot_status_def)
    moreover have "allocSlot h s = Some (Inr t, ?h)"
      using limit t(1) m'(1) stripe_ids[OF H(1) s] by (simp add: allocSlot_def Let_def)
    ultimately show ?thesis using slot by blast
  qed
qed

lemma slot_taken_frame:
  assumes "hub_ok os cas h" "slot_taken h s slotID h'"
  shows "hub_ok os cas h'" "h_bus h' = h_bus h" "h_limit h' = Suc (h_limit h)" "same_elsewhere (h_mem h) (h_mem h') (ctl_stripe (h_ctrl h))"
    "fget (h_ctrl h') = fget (h_ctrl h)" "h_waiters h' = h_waiters h" "valid_slot slotID"
proof -
  obtain m x where h': "h' = h\<lparr>h_mem := m, h_ctrl := (h_ctrl h)\<lparr>cursor := x\<rparr>, h_limit := Suc (h_limit h)\<rparr>"
    "same_elsewhere (h_mem h) m (ctl_stripe (h_ctrl h))" "valid_slot slotID"
    using assms(2) unfolding slot_taken_def by blast
  then show "h_bus h' = h_bus h" "h_limit h' = Suc (h_limit h)" "same_elsewhere (h_mem h) (h_mem h') (ctl_stripe (h_ctrl h))"
    "fget (h_ctrl h') = fget (h_ctrl h)" "h_waiters h' = h_waiters h" "valid_slot slotID" by (simp_all add: same_cursor)
  show "hub_ok os cas h'" using h'(1) by (intro hub_ok_changed[OF assms(1)]) simp_all
qed

subsection \<open>Opening\<close>

text \<open>A connection \<open>c\<close> over the stripe \<open>s\<close> with blocks \<open>as\<close>, just opened on the hub \<open>h\<close>.\<close>

definition opened :: "(nat \<Rightarrow> chunk_sys) \<Rightarrow> nat list \<Rightarrow> bool \<Rightarrow> nat \<Rightarrow> hub \<Rightarrow> nat \<Rightarrow> hub \<Rightarrow> busConn \<Rightarrow> stripe \<Rightarrow> nat list \<Rightarrow> bool" where
  "opened os cas needSlot pool h n h' c s as \<longleftrightarrow> hub_ok os cas h' \<and> bus_stripe (h_bus h') (h_mem h') as s \<and> length as = Suc n
     \<and> set as \<inter> used (h_bus h) = {} \<and> used (h_bus h') = used (h_bus h) \<union> set as \<and> grows (h_bus h) (h_bus h') \<and> DataLen s = 0
     \<and> (length (Sequence s) \<le> seq_capacity \<longrightarrow> header_synced (h_mem h') s)
     \<and> c_Stripe c = Some s \<and> c_readOff c = 0 \<and> c_writeOff c = 0
     \<and> h_waiters h' = h_waiters h \<and> fget (h_ctrl h') = fget (h_ctrl h)
     \<and> (\<forall>ts t. bus_stripe (h_bus h) (h_mem h) ts t \<longrightarrow> set ts \<inter> set cas = {} \<longrightarrow>
          bus_stripe (h_bus h') (h_mem h') ts t \<and> contents (h_mem h') t = contents (h_mem h) t)
     \<and> (if needSlot
        then c_done c = Some pool \<and> valid_slot (c_slotID c) \<and> h_limit h' = Suc (h_limit h)
          \<and> fget (h_ctrl h) (h_mem h) (SlotStatus (c_slotID c)) = 0
          \<and> fget (h_ctrl h) (h_mem h') (SlotStatus (c_slotID c)) = unat StripeStatusReady
          \<and> GetStripeHeader (h_mem h') (h_ctrl h') (c_slotID c) = Some (Sequence s ! 0, Sequence s ! 1)
        else c_done c = None \<and> c_slotID c = 0 \<and> h_limit h' = h_limit h)
     \<and> (\<forall>f. field_valid f \<longrightarrow> needSlot \<and> f \<in> {SlotStatus (c_slotID c), SlotHeader (c_slotID c), SlotOwner (c_slotID c)} \<or>
          fget (h_ctrl h) (h_mem h') f = fget (h_ctrl h) (h_mem h) f)"

lemma opened_status:
  assumes "opened os cas needSlot pool h n h' c s as" "valid_slot t"
  shows "needSlot \<and> t = c_slotID c \<and> fget (h_ctrl h) (h_mem h) (SlotStatus t) = 0
    \<or> fget (h_ctrl h) (h_mem h') (SlotStatus t) = fget (h_ctrl h) (h_mem h) (SlotStatus t)"
proof -
  have "needSlot \<and> SlotStatus t \<in> {SlotStatus (c_slotID c), SlotHeader (c_slotID c), SlotOwner (c_slotID c)}
      \<or> fget (h_ctrl h) (h_mem h') (SlotStatus t) = fget (h_ctrl h) (h_mem h) (SlotStatus t)"
    using assms unfolding opened_def by (metis field_valid.simps(4))
  then show ?thesis using assms(1) unfolding opened_def by auto
qed

lemma header_synced_new:
  assumes "bus_ok b" "bus_stripe b m' as s" "UpdateStripeHeader m s = Some m'"
  shows "length (Sequence s) \<le> seq_capacity \<Longrightarrow> header_synced m' s"
  by (rule synced_after_update[OF assms])

lemma opened_plain:
  assumes h: "hub_ok os cas h" and b: "bus_ok b'" "os_fresh os b'" "grows (h_bus h) b'" and s: "bus_stripe b' m' as s"
    and as: "length as = Suc n" "set as \<inter> used (h_bus h) = {}" "used b' = used (h_bus h) \<union> set as" and d: "DataLen s = 0"
    and fr: "\<forall>r i. \<not> covers (Blocks s) r i \<longrightarrow> m' r i = h_mem h r i" and upd: "UpdateStripeHeader (h_mem h) s = Some m'"
  shows "opened os cas False pool h n ((put_bus h b')\<lparr>h_mem := m'\<rparr>)
    \<lparr>c_node = None, c_Stripe = Some s, c_readOff = 0, c_writeOff = 0, c_slotID = 0, c_done = None\<rparr> s as"
proof -
  note H = hub_okD[OF h]
  have st: "stripe_blocks (chunks b') as s" "set as \<subseteq> used b'" using s by (simp_all add: bus_stripe_def)
  have ok: "hub_ok os cas ((put_bus h b')\<lparr>h_mem := m'\<rparr>)" using hub_ok_grows[OF h b] H(5) as(3) by blast
  have "fget (h_ctrl h) m' f = fget (h_ctrl h) (h_mem h) f" if "field_valid f" for f
    using hub_ctl_frame[OF ok _ _ _ fr that, of as] st as(2) H(5) by force
  moreover have "bus_stripe b' m' ts t \<and> contents m' t = contents (h_mem h) t" if t: "bus_stripe (h_bus h) (h_mem h) ts t" for ts t
  proof -
    have u: "set ts \<subseteq> used (h_bus h)" using t by (simp add: bus_stripe_def)
    have "bus_stripe b' (h_mem h) ts t" using u as(3) by (intro bus_stripe_grows[OF H(1) t b(3)]) blast
    moreover have "set as \<inter> set ts = {}" using u as(2) by blast
    ultimately show ?thesis using bus_stripe_other[OF b(1) _ st _ fr] by blast
  qed
  moreover note header_synced_new[OF b(1) s upd] ok
  ultimately show ?thesis using s as d b unfolding opened_def by simp
qed

lemma opened_slot:
  assumes o: "opened os cas False pool h n h1 c s as" and t: "slot_taken h1 s slotID h'" and dj: "set cas \<subseteq> used (h_bus h)"
  shows "opened os cas True pool h n h' (c\<lparr>c_done := Some pool, c_slotID := slotID\<rparr>) s as"
proof -
  have ok: "hub_ok os cas h1" and s: "bus_stripe (h_bus h1) (h_mem h1) as s" "set as \<inter> used (h_bus h) = {}"
    and f1: "fget (h_ctrl h1) = fget (h_ctrl h)" "\<forall>f. field_valid f \<longrightarrow> fget (h_ctrl h) (h_mem h1) f = fget (h_ctrl h) (h_mem h) f"
    using o by (simp_all add: opened_def)
  note T = slot_taken_frame[OF ok t]
  have cas: "set as \<inter> set cas = {}" using s(2) dj by blast
  note fr = hub_stripe_frame[OF ok s(1) cas T(4)]
  have "bus_stripe (h_bus h') (h_mem h') ts t \<and> contents (h_mem h') t = contents (h_mem h) t"
    if "bus_stripe (h_bus h) (h_mem h) ts t" "set ts \<inter> set cas = {}" for ts t
    using hub_stripe_frame[OF ok _ that(2) T(4), of t] that o unfolding opened_def T(2) by metis
  moreover have "fget (h_ctrl h) (h_mem h') (SlotStatus slotID) = unat StripeStatusReady" "fget (h_ctrl h) (h_mem h) (SlotStatus slotID) = 0"
    "GetStripeHeader (h_mem h') (h_ctrl h') slotID = Some (Sequence s ! 0, Sequence s ! 1)"
    "\<forall>f. field_valid f \<longrightarrow> f \<notin> {SlotStatus slotID, SlotHeader slotID, SlotOwner slotID} \<longrightarrow> fget (h_ctrl h) (h_mem h') f = fget (h_ctrl h) (h_mem h) f"
    using t f1 T(7) unfolding slot_taken_def by auto
  ultimately show ?thesis using o fr T unfolding opened_def by simp blast
qed

lemma AllocStripe_error_cause:
  assumes "bus_ok b" "os_fresh os b" "AllocStripe os m b (int (Suc n)) = Some (Inl err, m', b')"
  shows "\<not> (os_succeeds os \<and> Suc n + card (used b) \<le> 65536)"
proof -
  obtain res b1 where "AllocBlocks os b (int (Suc n)) = Some (res, b1)"
    "os_succeeds os \<longrightarrow> 0 < Suc n \<longrightarrow> Suc n + card (used b) \<le> 65536 \<longrightarrow> (\<exists>blks. res = Inr blks)"
    by (rule AllocBlocks_spec[OF assms(1,2) AllocStripe_Some[OF assms(3)]])
  then show ?thesis using assms(3) by (auto simp: AllocStripe_def Let_def split: bind_splits sum.splits)
qed

text \<open>When there is no slot for a new stripe, its blocks are given back.\<close>

lemma opened_abandoned:
  assumes o: "opened os cas False pool h n h1 c s as" and dj: "set cas \<subseteq> used (h_bus h)"
  obtains b where "FreeStripe (h_bus h1) s = Some b" "used b = used (h_bus h)"
    "hub_ok os cas (h1\<lparr>h_ctrl := (h_ctrl h1)\<lparr>cursor := x\<rparr>, h_bus := b\<rparr>)"
proof -
  have ok: "hub_ok os cas h1" and s: "stripe_blocks (chunks (h_bus h1)) as s" "set as \<subseteq> used (h_bus h1)"
    and as: "set as \<inter> used (h_bus h) = {}" "used (h_bus h1) = used (h_bus h) \<union> set as"
    using o by (simp_all add: opened_def bus_stripe_def)
  obtain b where b: "FreeStripe (h_bus h1) s = Some b" "bus_ok b" "used b = used (h_bus h1) - set as" "chunks b = chunks (h_bus h1)"
    "appended b = appended (h_bus h1)" by (rule FreeStripe_blocks[OF hub_okD(1)[OF ok] s])
  have used: "used b = used (h_bus h)" using b(3) as by auto
  have "hub_ok os cas (h1\<lparr>h_ctrl := (h_ctrl h1)\<lparr>cursor := x\<rparr>, h_bus := b\<rparr>)"
    using hub_okD[OF ok] b(2,4) used dj by (simp add: hub_ok_def os_fresh_def same_cursor)
  then show ?thesis by (rule that[OF b(1) used])
qed

lemma Request_spec:
  assumes h: "hub_ok os cas h" and limit: "needSlot \<longrightarrow> h_limit h < MaxTotalSlots" and mk: "int (Suc n) \<le> MaxMakeBlocks"
  obtains (error) err h' where "Request os pool h (int n) needSlot = Some (Inl err, h')" "hub_ok os cas h'"
      "used (h_bus h') = used (h_bus h)" "h_limit h' = h_limit h"
      "\<not> (os_succeeds os \<and> Suc n + card (used (h_bus h)) \<le> 65536)
       \<or> needSlot \<and> (\<forall>t. valid_slot t \<longrightarrow> fget (h_ctrl h) (h_mem h) (SlotStatus t) \<noteq> 0)"
  | (opened) c h' s as where "Request os pool h (int n) needSlot = Some (Inr c, h')" "opened os cas needSlot pool h n h' c s as"
proof -
  note H = hub_okD[OF h]
  have n: "i64 (int n + 1) = int (Suc n)" using mk by (subst i64_id) (simp_all add: MaxMakeBlocks_def)
  show ?thesis
  proof (rule AllocStripe_spec[OF H(1,2) mk, of "h_mem h"])
    fix err b'
    assume e: "AllocStripe os (h_mem h) (h_bus h) (int (Suc n)) = Some (Inl err, h_mem h, b')" "bus_ok b'" "os_fresh os b'"
      "grows (h_bus h) b'" "used b' = used (h_bus h)"
    let ?h = "(put_bus h b')\<lparr>h_mem := h_mem h\<rparr>"
    have "\<not> (os_succeeds os \<and> Suc n + card (used (h_bus h)) \<le> 65536)" by (rule AllocStripe_error_cause[OF H(1,2) e(1)])
    moreover have "hub_ok os cas ?h" using hub_ok_grows[OF h e(2-4)] H(5) e(5) by simp
    moreover have "Request os pool h (int n) needSlot = Some (Inl err, ?h)" using e(1) unfolding Request_def n by simp
    ultimately show ?thesis using e(5) by (intro error[of err ?h]) simp_all
  next
    fix s m' b' as
    assume a: "AllocStripe os (h_mem h) (h_bus h) (int (Suc n)) = Some (Inr s, m', b')" "bus_ok b'" "os_fresh os b'"
      "grows (h_bus h) b'" "bus_stripe b' m' as s" "length as = Suc n" "set as \<inter> used (h_bus h) = {}" "used b' = used (h_bus h) \<union> set as"
      "DataLen s = 0" "\<forall>r i. \<not> covers (Blocks s) r i \<longrightarrow> m' r i = h_mem h r i" "UpdateStripeHeader (h_mem h) s = Some m'"
    let ?h = "(put_bus h b')\<lparr>h_mem := m'\<rparr>"
    let ?c = "\<lparr>c_node = None, c_Stripe = Some s, c_readOff = 0, c_writeOff = 0, c_slotID = 0, c_done = None\<rparr>"
    note plain = opened_plain[OF h a(2-)]
    have ok: "hub_ok os cas ?h" and st: "bus_stripe (h_bus ?h) (h_mem ?h) as s" using plain[of pool] a(5) by (simp_all add: opened_def)
    show ?thesis
    proof (cases needSlot)
      case False
      have "Request os pool h (int n) needSlot = Some (Inr ?c, ?h)" using a(1) False unfolding Request_def n by simp
      then show ?thesis using opened[of ?c ?h s as] plain False by simp
    next
      case True
      have lim: "h_limit ?h < MaxTotalSlots" using True limit by simp
      show ?thesis
      proof (rule allocSlot_spec[OF ok st lim])
        fix x
        let ?h1 = "?h\<lparr>h_ctrl := (h_ctrl ?h)\<lparr>cursor := x\<rparr>\<rparr>"
        assume al: "allocSlot ?h s = Some (Inl NoSlots, ?h1)" and none: "\<forall>t. valid_slot t \<longrightarrow> fget (h_ctrl ?h) (h_mem ?h) (SlotStatus t) \<noteq> 0"
        obtain b2 where b2: "FreeStripe (h_bus ?h) s = Some b2" "used b2 = used (h_bus h)"
          "hub_ok os cas (?h\<lparr>h_ctrl := (h_ctrl ?h)\<lparr>cursor := x\<rparr>, h_bus := b2\<rparr>)"
          by (rule opened_abandoned[OF plain H(5)])
        have "Request os pool h (int n) needSlot = Some (Inl NoSlots, ?h1\<lparr>h_bus := b2\<rparr>)"
          using a(1) True al b2(1) unfolding Request_def n by simp
        moreover have "\<forall>t. valid_slot t \<longrightarrow> fget (h_ctrl h) (h_mem h) (SlotStatus t) \<noteq> 0"
          using none plain[of pool] by (simp add: opened_def)
        ultimately show ?thesis using b2(2,3) True by (intro error[of NoSlots "?h1\<lparr>h_bus := b2\<rparr>"]) simp_all
      next
        fix slotID h'
        assume al: "allocSlot ?h s = Some (Inr slotID, h')" "slot_taken ?h s slotID h'"
        have "Request os pool h (int n) needSlot = Some (Inr (?c\<lparr>c_done := Some pool, c_slotID := slotID\<rparr>), h')"
          using a(1) True al unfolding Request_def n by simp
        then show ?thesis
        proof (rule opened)
          show "opened os cas needSlot pool h n h' (?c\<lparr>c_done := Some pool, c_slotID := slotID\<rparr>) s as"
            using True opened_slot[OF plain al(2) H(5)] by (simp only: simp_thms)
        qed
      qed
    qed
  qed
qed

subsection \<open>Closing\<close>

lemma conn_Close_spec:
  assumes h: "hub_ok os cas h" and c: "c_Stripe c = Some s" and s: "stripe_blocks (chunks (h_bus h)) as s" "set as \<subseteq> used (h_bus h)"
    and dj: "set as \<inter> set cas = {}" and slot: "c_slotID c \<noteq> 0 \<longrightarrow> valid_slot (c_slotID c)"
  obtains h' c' where "conn_Close h c = Some (h', c')" "hub_ok os cas h'" "c_Stripe c' = None" "used (h_bus h') = used (h_bus h) - set as"
    "chunks (h_bus h') = chunks (h_bus h)" "h_limit h' = (if c_slotID c = 0 then h_limit h else h_limit h - 1)" "h_ctrl h' = h_ctrl h"
    "\<forall>f. field_valid f \<longrightarrow> fget (h_ctrl h) (h_mem h') f =
       (if c_slotID c \<noteq> 0 \<and> f = SlotStatus (c_slotID c) then 0 else fget (h_ctrl h) (h_mem h) f)"
    "same_elsewhere (h_mem h) (h_mem h') (ctl_stripe (h_ctrl h))"
proof -
  note H = hub_okD[OF h]
  obtain b where b: "FreeStripe (h_bus h) s = Some b" "bus_ok b" "used b = used (h_bus h) - set as" "chunks b = chunks (h_bus h)"
    by (rule FreeStripe_blocks[OF H(1) s])
  have ok: "hub_ok os cas (h\<lparr>h_bus := b\<rparr>)"
    using H b dj by (auto simp: hub_ok_def os_fresh_def)
  show ?thesis
  proof (cases "c_slotID c = 0")
    case True
    then show ?thesis using c b ok by (intro that[of "h\<lparr>h_bus := b\<rparr>" "c\<lparr>c_Stripe := None\<rparr>"]) (simp_all add: conn_Close_def)
  next
    case False
    let ?t = "c_slotID c"
    have t: "valid_slot ?t" using False slot by blast
    let ?m = "fput (h_ctrl h) (h_mem h) (SlotStatus ?t) 0"
    let ?h = "h\<lparr>h_bus := b, h_waiters := (h_waiters h)[unat ?t := None], h_mem := ?m, h_limit := h_limit h - 1\<rparr>"
    have fs: "FreeSlot (h_mem h) (h_ctrl h) ?t = Some ?m" using slot_writes(1)[OF H(3) t] by (simp add: FreeSlot_def StripeStatusIdle_def)
    have "conn_Close h c = Some (?h, c\<lparr>c_Stripe := None, c_done := None\<rparr>)"
      using c b(1) False fs waiter_nth[OF h t] by (simp add: conn_Close_def Let_def)
    moreover have "hub_ok os cas ?h" by (rule hub_ok_changed[OF ok]) simp_all
    moreover have "\<forall>f. field_valid f \<longrightarrow> fget (h_ctrl h) ?m f = (if ?t \<noteq> 0 \<and> f = SlotStatus ?t then 0 else fget (h_ctrl h) (h_mem h) f)"
      using t False by (auto simp: fget_fput[OF H(3)])
    moreover have "same_elsewhere (h_mem h) ?m (ctl_stripe (h_ctrl h))" using fput_elsewhere[OF H(3)] t by simp
    ultimately show ?thesis using b False by (intro that[of ?h "c\<lparr>c_Stripe := None, c_done := None\<rparr>"]) simp_all
  qed
qed

text \<open>Closing a connection that was opened and written to restores what the hub had before.\<close>

definition restored :: "(nat \<Rightarrow> chunk_sys) \<Rightarrow> nat list \<Rightarrow> hub \<Rightarrow> hub \<Rightarrow> bool" where
  "restored os cas h h' \<longleftrightarrow> hub_ok os cas h' \<and> used (h_bus h') = used (h_bus h) \<and> h_limit h' = h_limit h
    \<and> (\<forall>t. valid_slot t \<longrightarrow> fget (h_ctrl h) (h_mem h') (SlotStatus t) = fget (h_ctrl h) (h_mem h) (SlotStatus t))
    \<and> (\<forall>ts t. bus_stripe (h_bus h) (h_mem h) ts t \<longrightarrow> set ts \<inter> set cas = {} \<longrightarrow>
        bus_stripe (h_bus h') (h_mem h') ts t \<and> contents (h_mem h') t = contents (h_mem h) t)"

lemma conn_Close_restores:
  assumes cas: "set cas \<subseteq> used (h_bus h)" and o: "opened os cas needSlot pool h n h1 c1 s as"
    and w: "wrote_conn os cas as h1 s k data h2 s2" and c: "c_Stripe c = Some s2" "c_slotID c = c_slotID c1"
  obtains h' c' where "conn_Close h2 c = Some (h', c')" "restored os cas h h'"
proof -
  have O: "set as \<inter> used (h_bus h) = {}" "used (h_bus h1) = used (h_bus h) \<union> set as" "fget (h_ctrl h1) = fget (h_ctrl h)"
    "c_slotID c1 \<noteq> 0 \<longrightarrow> valid_slot (c_slotID c1)"
    using o by (simp_all add: opened_def split: if_splits)
  obtain new where n: "bus_stripe (h_bus h2) (h_mem h2) (as @ new) s2" "set new \<inter> used (h_bus h1) = {}" "used (h_bus h2) = used (h_bus h1) \<union> set new"
    by (rule wrote_conn_new[OF w])
  have ok2: "stripe_blocks (chunks (h_bus h2)) (as @ new) s2" "set (as @ new) \<subseteq> used (h_bus h2)" using n(1) by (simp_all add: bus_stripe_def)
  note D = wrote_connD[OF w]
  have dj: "set (as @ new) \<inter> set cas = {}" using O(1,2) n(2) cas by auto
  have sl: "c_slotID c \<noteq> 0 \<longrightarrow> valid_slot (c_slotID c)" using O(4) c(2) by simp
  obtain h4 c4 where cl: "conn_Close h2 c = Some (h4, c4)" "hub_ok os cas h4" "c_Stripe c4 = None" "used (h_bus h4) = used (h_bus h2) - set (as @ new)"
    "chunks (h_bus h4) = chunks (h_bus h2)" "h_limit h4 = (if c_slotID c = 0 then h_limit h2 else h_limit h2 - 1)" "h_ctrl h4 = h_ctrl h2"
    "\<forall>f. field_valid f \<longrightarrow> fget (h_ctrl h2) (h_mem h4) f =
       (if c_slotID c \<noteq> 0 \<and> f = SlotStatus (c_slotID c) then 0 else fget (h_ctrl h2) (h_mem h2) f)"
    "same_elsewhere (h_mem h2) (h_mem h4) (ctl_stripe (h_ctrl h2))"
    by (rule conn_Close_spec[OF D(1) c(1) ok2 dj sl])
  have used: "used (h_bus h4) = used (h_bus h)" using cl(4) n(2,3) O(1,2) by auto
  have ctl: "h_ctrl h2 = h_ctrl h1" "h_limit h2 = h_limit h1" using D(2) by (simp_all add: same_admin_def)
  have limit: "h_limit h4 = h_limit h" using cl(6) ctl o c(2) by (auto simp: opened_def split: if_splits)
  have idle: "fget (h_ctrl h) (h_mem h4) (SlotStatus t) = fget (h_ctrl h) (h_mem h) (SlotStatus t)" if t: "valid_slot t" for t
  proof -
    have "fget (h_ctrl h) (h_mem h2) (SlotStatus t) = fget (h_ctrl h) (h_mem h1) (SlotStatus t)"
      using w dj t O(3) unfolding wrote_conn_def by auto
    moreover have "fget (h_ctrl h) (h_mem h4) (SlotStatus t) =
        (if c_slotID c1 \<noteq> 0 \<and> t = c_slotID c1 then 0 else fget (h_ctrl h) (h_mem h2) (SlotStatus t))"
      using cl(8) t O(3) ctl(1) c(2) by simp
    moreover have "c_slotID c1 \<noteq> 0 \<longleftrightarrow> needSlot" using o by (auto simp: opened_def split: if_splits)
    ultimately show ?thesis using opened_status[OF o t] o t by (auto simp: opened_def)
  qed
  have "bus_stripe (h_bus h4) (h_mem h4) ts t \<and> contents (h_mem h4) t = contents (h_mem h) t"
    if t: "bus_stripe (h_bus h) (h_mem h) ts t" "set ts \<inter> set cas = {}" for ts t
  proof -
    have "bus_stripe (h_bus h1) (h_mem h1) ts t" "contents (h_mem h1) t = contents (h_mem h) t"
      using o t unfolding opened_def by blast+
    moreover have "set ts \<inter> set as = {}" using O(1) t(1) by (auto simp: bus_stripe_def)
    ultimately have t2: "bus_stripe (h_bus h2) (h_mem h2) ts t" "contents (h_mem h2) t = contents (h_mem h) t"
      using w unfolding wrote_conn_def by metis+
    show ?thesis using hub_stripe_frame[OF D(1) t2(1) t(2) cl(9)] t2(2) cl(5) used t(1) by (auto simp: bus_stripe_def)
  qed
  then have "restored os cas h h4" using cl(2) used limit idle unfolding restored_def by blast
  then show ?thesis by (rule that[OF cl(1)])
qed

subsection \<open>The whole life\<close>

text \<open>C6: A connection is a stream, and nothing is left of it. Opened with room for \<open>n\<close> blocks, with or without
  a slot, and written to piece by piece, with the system able to provide the blocks, a connection
  delivers through \<open>WriteTo\<close> exactly what was written, in order, whatever the pieces; \<open>Close\<close> then gives
  back its blocks, its slot and its token, so that the hub has the same used blocks, free slots and
  tokens as before. Meanwhile no stripe of another connection is changed.\<close>

theorem conn_stream_and_close:
  assumes h: "hub_ok os cas h" and os: "os_succeeds os"
    and room: "Suc n + (length (concat datas) + 4095) div 4096 + card (used (h_bus h)) \<le> 65536"
    and slot: "needSlot \<longrightarrow> h_limit h < MaxTotalSlots \<and> (\<exists>t. valid_slot t \<and> fget (h_ctrl h) (h_mem h) (SlotStatus t) = 0)"
  shows "\<exists>c1 h1 c2 h2 c3 h4 c4.
    Request os pool h (int n) needSlot = Some (Inr c1, h1)
    \<and> conn_writes os h1 c1 datas = Some (None, h2, c2)
    \<and> conn_WriteTo h2 c2 = Some (concat datas, None, c3)
    \<and> conn_Close h2 c3 = Some (h4, c4) \<and> hub_ok os cas h4
    \<and> used (h_bus h4) = used (h_bus h) \<and> h_limit h4 = h_limit h
    \<and> (\<forall>t. valid_slot t \<longrightarrow> fget (h_ctrl h) (h_mem h4) (SlotStatus t) = fget (h_ctrl h) (h_mem h) (SlotStatus t))
    \<and> (\<forall>ts t. bus_stripe (h_bus h) (h_mem h) ts t \<longrightarrow> set ts \<inter> set cas = {} \<longrightarrow>
        bus_stripe (h_bus h4) (h_mem h4) ts t \<and> contents (h_mem h4) t = contents (h_mem h) t)"
proof -
  note H = hub_okD[OF h]
  have lim: "needSlot \<longrightarrow> h_limit h < MaxTotalSlots" using slot by blast
  obtain c1 h1 s as where rq: "Request os pool h (int n) needSlot = Some (Inr c1, h1)" "opened os cas needSlot pool h n h1 c1 s as"
    by (rule Request_spec[OF h lim makeable, of n pool]) (use os room slot in auto)
  have o: "hub_ok os cas h1" "bus_stripe (h_bus h1) (h_mem h1) as s" "length as = Suc n" "set as \<inter> used (h_bus h) = {}"
    "used (h_bus h1) = used (h_bus h) \<union> set as" "DataLen s = 0" "c_Stripe c1 = Some s" "c_readOff c1 = 0" "c_writeOff c1 = 0"
    "fget (h_ctrl h1) = fget (h_ctrl h)"
    using rq(2) by (simp_all add: opened_def)
  have "card (used (h_bus h1)) \<le> card (used (h_bus h)) + Suc n"
    unfolding o(5) using card_Un_le[of "used (h_bus h)" "set as"] card_length[of as] o(3) by linarith
  moreover have "extra_blocks s (length (concat datas)) \<le> (length (concat datas) + 4095) div 4096"
    unfolding extra_blocks_def by (simp add: BlockSize_def div_le_mono)
  ultimately have room1: "extra_blocks s (unat (DataLen s) + length (concat datas)) + card (used (h_bus h1)) \<le> 65536"
    using room o(6) by simp
  have w0: "c_writeOff c1 = int (unat (DataLen s))" using o(6,9) by simp
  obtain h2 s2 where w: "conn_writes os h1 c1 datas = Some (None, h2, c1\<lparr>c_Stripe := Some s2, c_writeOff := int (unat (DataLen s2))\<rparr>)"
    "wrote_conn os cas as h1 s (unat (DataLen s)) (concat datas) h2 s2"
    using conn_writes_spec[OF o(1,7) w0 o(2) os room1] by blast
  let ?c2 = "c1\<lparr>c_Stripe := Some s2, c_writeOff := int (unat (DataLen s2))\<rparr>"
  let ?c3 = "?c2\<lparr>c_readOff := int (unat (DataLen s2))\<rparr>"
  have ct: "contents (h_mem h2) s2 = concat datas"
    using appended_len(1)[OF o(2) w(2)] o(6) by (simp add: contents_def)
  have "stripe_ok (h_mem h2) s2" using wrote_conn_new[OF w(2)] by (metis bus_stripe_def)
  then have wt: "conn_WriteTo h2 ?c2 = Some (concat datas, None, ?c3)"
    using conn_WriteTo_spec[of h2 s2 ?c2 0] o(8) ct by simp
  have c3: "c_Stripe ?c3 = Some s2" "c_slotID ?c3 = c_slotID c1" by simp_all
  obtain h4 c4 where "conn_Close h2 ?c3 = Some (h4, c4)" "restored os cas h h4"
    by (rule conn_Close_restores[OF H(5) rq(2) w(2) c3])
  then show ?thesis using rq(1) w(1) wt unfolding restored_def by blast
qed

theorem conn_stream_and_close_witness:
  "\<exists>h k'. NewHub ex_os (Inr 5) [] ex_kernel (\<lambda>_ _. 0) ex_efds = Some (Inr h, k')
    \<and> (\<exists>c1 h1 c2 h2 c3. Request ex_os 0 h 1 True = Some (Inr c1, h1) \<and> conn_writes ex_os h1 c1 [[1, 2], [], [3]] = Some (None, h2, c2)
      \<and> conn_WriteTo h2 c2 = Some ([1, 2, 3], None, c3))"
proof (rule ex_hub)
  fix h k'
  assume h: "NewHub ex_os (Inr 5) [] ex_kernel (\<lambda>_ _. 0) ex_efds = Some (Inr h, k')" "hub_ok ex_os [0..<256] h"
    "used (h_bus h) = {..<256}" "h_limit h = 0" "\<forall>s. 1 \<le> s \<and> s < 4096 \<longrightarrow> fget (h_ctrl h) (h_mem h) (SlotStatus s) = 0"
  have room: "Suc 1 + (length (concat [[1, 2], [], [3 :: byte]]) + 4095) div 4096 + card (used (h_bus h)) \<le> 65536" using h(3) by simp
  have "fget (h_ctrl h) (h_mem h) (SlotStatus 1) = 0" using h(5) by simp
  then have slot: "True \<longrightarrow> h_limit h < MaxTotalSlots \<and> (\<exists>t. valid_slot t \<and> fget (h_ctrl h) (h_mem h) (SlotStatus t) = 0)"
    using h(4) by (auto simp: MaxTotalSlots_def intro: exI[of _ 1])
  from conn_stream_and_close[OF h(2) ex_os_succeeds room slot, of 0]
  show ?thesis using h(1) unfolding concat.simps append.simps of_nat_1 by blast
qed

text \<open>C9: Writing to a connection, at any offset inside its data or at their end. The write either fails, which
  happens only when the blocks it needs cannot be had: then the connection, the memory, the used blocks,
  the slots, tokens and waiters are as before, and the only trace are the chunks appended before the
  failure, which stay and have been announced to the nodes. Or it writes all the bytes over what was
  there, growing the stripe by no more blocks than needed, and moves the write offset behind them. It never
  runs into the capacity of the stripe, and it touches neither another stripe nor the control region nor
  the slots, tokens and waiters. (A Go slice has at most \<open>2 ^ 48\<close> bytes.)\<close>

theorem conn_Write_correct:
  assumes h: "hub_ok os cas h" and c: "c_Stripe c = Some s" "c_writeOff c = int off" and s: "bus_stripe (h_bus h) (h_mem h) as s"
    and off: "off \<le> unat (DataLen s)" and len: "length data < 2 ^ 54" and dj: "set as \<inter> set cas = {}"
  shows "\<exists>n err h' c'. conn_Write os h c data = Some (n, err, h', c') \<and> hub_ok os cas h'
    \<and> (os_succeeds os \<longrightarrow> extra_blocks s (off + length data) + card (used (h_bus h)) \<le> 65536 \<longrightarrow> err = None)
    \<and> (case err of
         Some e \<Rightarrow> n = 0 \<and> c' = c \<and> h_mem h' = h_mem h \<and> same_admin h h'
           \<and> (\<exists>b'. h' = put_bus h b' \<and> grows (h_bus h) b' \<and> used b' = used (h_bus h))
       | None \<Rightarrow> n = int (length data) \<and> c_writeOff c' = int (off + length data) \<and> c_readOff c' = c_readOff c
           \<and> same_admin h h' \<and> grows (h_bus h) (h_bus h')
           \<and> (\<exists>s' new. c_Stripe c' = Some s' \<and> bus_stripe (h_bus h') (h_mem h') (as @ new) s'
                \<and> length new \<le> extra_blocks s (off + length data) \<and> set new \<inter> used (h_bus h) = {}
                \<and> used (h_bus h') = used (h_bus h) \<union> set new
                \<and> contents (h_mem h') s' = take off (contents (h_mem h) s) @ data @ drop (off + length data) (contents (h_mem h) s))
           \<and> (\<forall>ts t. bus_stripe (h_bus h) (h_mem h) ts t \<longrightarrow> set ts \<inter> set as = {} \<longrightarrow> contents (h_mem h') t = contents (h_mem h) t)
           \<and> (\<forall>f. field_valid f \<longrightarrow> fget (h_ctrl h) (h_mem h') f = fget (h_ctrl h) (h_mem h) f))"
proof (rule conn_Write_spec[OF h c s off len])
  fix err b'
  assume "conn_Write os h c data = Some (0, Some err, put_bus h b', c)" "hub_ok os cas (put_bus h b')"
      "used b' = used (h_bus h)" "grows (h_bus h) b'" "\<not> (os_succeeds os \<and> extra_blocks s (off + length data) + card (used (h_bus h)) \<le> 65536)"
  then show ?thesis by (intro exI[of _ 0] exI[of _ "Some err"] exI[of _ "put_bus h b'"] exI[of _ c]) auto
next
  fix h' s'
  let ?c = "c\<lparr>c_Stripe := Some s', c_writeOff := int (off + length data)\<rparr>"
  assume w: "conn_Write os h c data = Some (int (length data), None, h', ?c)" "wrote_conn os cas as h s off data h' s'"
  obtain new where "bus_stripe (h_bus h') (h_mem h') (as @ new) s'" "set new \<inter> used (h_bus h) = {}"
    "used (h_bus h') = used (h_bus h) \<union> set new" "length new \<le> extra_blocks s (off + length data)"
    by (rule wrote_conn_new[OF w(2)])
  moreover have "\<forall>ts t. bus_stripe (h_bus h) (h_mem h) ts t \<longrightarrow> set ts \<inter> set as = {} \<longrightarrow> contents (h_mem h') t = contents (h_mem h) t"
    using w(2) unfolding wrote_conn_def by blast
  moreover have "\<forall>f. field_valid f \<longrightarrow> fget (h_ctrl h) (h_mem h') f = fget (h_ctrl h) (h_mem h) f"
    using w(2) dj unfolding wrote_conn_def by blast
  ultimately show ?thesis
    using w(1) wrote_connD[OF w(2)]
    by (intro exI[of _ "int (length data)"] exI[of _ None] exI[of _ h'] exI[of _ ?c]) (auto simp: write_over_def)
qed

theorem conn_Write_correct_witness:
  "\<exists>h c s as. c_Stripe c = Some s \<and> bus_stripe (h_bus h) (h_mem h) as s
    \<and> (\<exists>h' c'. conn_Write ex_os h c [7, 8] = Some (2, None, h', c'))"
proof (rule ex_hub)
  fix h k'
  assume h: "hub_ok ex_os [0..<256] h" "used (h_bus h) = {..<256}"
  obtain c1 h1 s as where o: "opened ex_os [0..<256] False 0 h 1 h1 c1 s as"
    by (rule Request_spec[OF h(1) _ makeable, of False 1 0]) (use h(2) ex_os_succeeds in auto)
  have o1: "hub_ok ex_os [0..<256] h1" "bus_stripe (h_bus h1) (h_mem h1) as s" "length as = 2" "set as \<inter> used (h_bus h) = {}"
    "used (h_bus h1) = used (h_bus h) \<union> set as" "DataLen s = 0" "c_Stripe c1 = Some s" "c_writeOff c1 = int 0"
    using o by (simp_all add: opened_def)
  have dj: "set as \<inter> set [0..<256] = {}" using o1(4) h(2) by (auto simp del: upt_rec_numeral)
  have "card (used (h_bus h1)) \<le> 258"
    unfolding o1(5) using card_Un_le[of "used (h_bus h)" "set as"] card_length[of as] o1(3) h(2) by simp
  moreover have "extra_blocks s (0 + length [7, 8 :: byte]) \<le> 1" by (simp add: extra_blocks_def BlockSize_def)
  ultimately have "extra_blocks s (0 + length [7, 8 :: byte]) + card (used (h_bus h1)) \<le> 65536" by linarith
  then show ?thesis
    using conn_Write_correct[OF o1(1,7,8,2) _ _ dj, of "[7, 8]"] ex_os_succeeds o1(2,7) by (fastforce split: option.splits)
qed

text \<open>C39: \<open>WriteTo\<close> ends, whatever has been read before: the copy loop makes progress with every read, delivers the
  rest of the data in reads of at most 32 KB and leaves the read offset at their end. A read at the
  end gives \<open>io.EOF\<close>, which \<open>io.Copy\<close> does not report.\<close>

theorem conn_WriteTo_delivers:
  assumes "stripe_ok (h_mem h) s" "c_Stripe c = Some s" "c_readOff c = int r" "r \<le> unat (DataLen s)"
  shows "conn_WriteTo h c = Some (drop r (contents (h_mem h) s), None, c\<lparr>c_readOff := int (unat (DataLen s))\<rparr>)
    \<and> (\<forall>p. conn_Read h (c\<lparr>c_readOff := int (unat (DataLen s))\<rparr>) p = Some (p, 0, Some EOF, c\<lparr>c_readOff := int (unat (DataLen s))\<rparr>))"
proof (intro conjI allI)
  show "conn_Read h (c\<lparr>c_readOff := int (unat (DataLen s))\<rparr>) p = Some (p, 0, Some EOF, c\<lparr>c_readOff := int (unat (DataLen s))\<rparr>)" for p
    by (rule conn_Read_eof[of _ s "unat (DataLen s)"]) (use assms(2) in simp_all)
qed (rule conn_WriteTo_spec[OF assms])

theorem conn_WriteTo_delivers_witness:
  "\<exists>h s c. c_Stripe c = Some s \<and> conn_WriteTo h c = Some (drop 0 (contents (h_mem h) s), None, c\<lparr>c_readOff := int (unat (DataLen s))\<rparr>)"
proof (rule ex_hub)
  fix h k'
  assume h: "hub_ok ex_os [0..<256] h" "used (h_bus h) = {..<256}"
  obtain c1 h1 s as where o: "opened ex_os [0..<256] False 0 h 1 h1 c1 s as"
    by (rule Request_spec[OF h(1) _ makeable, of False 1 0]) (use h(2) ex_os_succeeds in auto)
  then have "stripe_ok (h_mem h1) s" "c_Stripe c1 = Some s" "c_readOff c1 = int 0" by (simp_all add: opened_def bus_stripe_def)
  then show ?thesis using conn_WriteTo_delivers[of h1 s c1 0] by blast
qed

end
