(* ===== verification/Request_Send.thy ===== *)
theory Request_Send
  imports Conn_Lifecycle
begin

text \<open>
  The hub hands a connection's stripe to a node: \<open>Next\<close> up to its wait (\<open>Next_send\<close>), with or without a
  slot from before.
\<close>

lemma cmd_consts: "CMD_PROCESS AND NOT Q_READY_BIT = CMD_PROCESS" "CMD_REQUEST_EXPAND AND NOT Q_READY_BIT = CMD_REQUEST_EXPAND"
  "CMD_EXPAND_READY AND NOT Q_READY_BIT = CMD_EXPAND_READY" "CMD_EXPAND_ERROR AND NOT Q_READY_BIT = CMD_EXPAND_ERROR"
  by (simp_all add: CMD_PROCESS_def CMD_REQUEST_EXPAND_def CMD_EXPAND_READY_def CMD_EXPAND_ERROR_def Q_READY_BIT_def)

text \<open>A queue with room for one more entry.\<close>

definition queue_room :: "control \<Rightarrow> mem \<Rightarrow> nat \<Rightarrow> bool" where
  "queue_room c m q \<longleftrightarrow> q < MaxNodes \<and> q_inv (fget c) m q \<and> length (q_items (fget c) m q) < QueueSize - 1
     \<and> Suc (fget c m (QTail q)) < 4294967296"

text \<open>The changes of a push: the queue has one entry more, and no other field of the region changes.\<close>

definition pushed :: "control \<Rightarrow> mem \<Rightarrow> nat \<Rightarrow> uint32 \<times> uint32 \<Rightarrow> mem \<Rightarrow> bool" where
  "pushed c m q item m' \<longleftrightarrow> q_inv (fget c) m' q \<and> q_items (fget c) m' q = q_items (fget c) m q @ [item]
     \<and> (\<forall>f. field_valid f \<longrightarrow> \<not> queue_field q f \<longrightarrow> fget c m' f = fget c m f) \<and> same_elsewhere m m' (ctl_stripe c)"

lemma Push_room:
  assumes "ctl_ok c" "queue_room c m q" "cmd AND NOT Q_READY_BIT = cmd"
  obtains m' where "Push m c (GetNodeReqQueueOffset q) slotID cmd = Some (m', True)" "pushed c m q (slotID, cmd) m'"
proof -
  have q: "q < MaxNodes" "q_inv (fget c) m q" "Suc (fget c m (QTail q)) < 4294967296" "length (q_items (fget c) m q) < QueueSize - 1"
    using assms(2) by (simp_all add: queue_room_def del: length_q_items)
  show ?thesis
  proof (rule Push_spec[OF assms(1) q(1-3), of slotID cmd], unfold simp_thms assms(3))
    fix m'
    assume "Push m c (GetNodeReqQueueOffset q) slotID cmd = Some (m', length (q_items (fget c) m q) < QueueSize - 1)" "q_inv (fget c) m' q"
      "q_items (fget c) m' q = (if length (q_items (fget c) m q) < QueueSize - 1 then q_items (fget c) m q @ [(slotID, cmd)] else q_items (fget c) m q)"
      "\<forall>f. field_valid f \<longrightarrow> \<not> queue_field q f \<longrightarrow> fget c m' f = fget c m f" "same_elsewhere m m' (ctl_stripe c)"
    with q(4) show thesis by (intro that[of m']) (simp_all add: pushed_def del: length_q_items)
  qed
qed

lemma push_retry_room:
  assumes "ctl_ok c" "queue_room c m q" "cmd AND NOT Q_READY_BIT = cmd"
  obtains m' where "push_retry_loop closed m c (GetNodeReqQueueOffset q) slotID cmd = Some (m', None)" "pushed c m q (slotID, cmd) m'"
proof -
  obtain m' where "Push m c (GetNodeReqQueueOffset q) slotID cmd = Some (m', True)" "pushed c m q (slotID, cmd) m'"
    by (rule Push_room[OF assms])
  then show ?thesis using that by (simp add: push_retry_loop.simps)
qed

text \<open>A counter of a kernel as documented that can take one more wake-up.\<close>

definition counter_room :: "efds \<Rightarrow> eventfd \<Rightarrow> bool" where
  "counter_room ek e \<longleftrightarrow> eventfd_kernel ek \<and> (\<exists>k. counters ek (ev_fd e) = Some k \<and> k + 1 < 2 ^ 64 - 1)"

lemma Notify_room:
  assumes "counter_room ek e"
  obtains k where "Notify ek e = Some (None, set_counter ek (ev_fd e) (Suc k))"
  using assms that Notify_counter by (auto simp: counter_room_def)

lemma submit_spec:
  assumes h: "ctl_ok (h_ctrl h)" and n: "ni_nodeID target = int q" "\<not> ni_closed target"
    and q: "queue_room (h_ctrl h) (h_mem h) q" and ev: "counter_room (h_efds h) (ni_nodeEv target)"
  obtains m' k where "submit h target slotID = Some (None, h\<lparr>h_mem := m', h_efds := set_counter (h_efds h) (ev_fd (ni_nodeEv target)) (Suc k)\<rparr>)"
    "pushed (h_ctrl h) (h_mem h) q (slotID, CMD_PROCESS) m'"
proof -
  obtain m' where m': "push_retry_loop False (h_mem h) (h_ctrl h) (GetNodeReqQueueOffset q) slotID CMD_PROCESS = Some (m', None)"
    "pushed (h_ctrl h) (h_mem h) q (slotID, CMD_PROCESS) m'"
    by (rule push_retry_room[OF h q cmd_consts(1)])
  obtain k where "Notify (h_efds h) (ni_nodeEv target) = Some (None, set_counter (h_efds h) (ev_fd (ni_nodeEv target)) (Suc k))"
    by (rule Notify_room[OF ev])
  then have "submit h target slotID = Some (None, h\<lparr>h_mem := m', h_efds := set_counter (h_efds h) (ev_fd (ni_nodeEv target)) (Suc k)\<rparr>)"
    using m'(1) n by (simp add: submit_def pushToNode_def notify_def)
  then show ?thesis using that m'(2) by blast
qed

subsection \<open>Next, up to its wait\<close>

text \<open>A connection without a slot gets one first.\<close>

lemma Next_send_alloc:
  assumes "map_of (h_nodes h) name = Some target" "h_nodes h' = h_nodes h" "c_Stripe c = Some s" "c_slotID c = 0"
    and "allocSlot h s = Some (Inr slotID, h')" "slotID \<noteq> 0"
  shows "Next_send pool h c name = Next_send pool h' (c\<lparr>c_done := Some pool, c_slotID := slotID\<rparr>) name"
  using assms by (cases c) (simp add: Next_send_def Let_def)

text \<open>A connection with stripe \<open>s\<close> that has a slot nobody is working on.\<close>

definition has_slot :: "hub \<Rightarrow> busConn \<Rightarrow> stripe \<Rightarrow> bool" where
  "has_slot h c s \<longleftrightarrow> c_Stripe c = Some s \<and> valid_slot (c_slotID c) \<and> c_done c \<noteq> None
     \<and> fget (h_ctrl h) (h_mem h) (SlotStatus (c_slotID c)) \<in> {unat StripeStatusReady, unat StripeStatusDone}"

text \<open>The request has been sent: the slot is busy, names the header block of the stripe and its owner, the
  request is in the node's queue, and the caller is registered under the slot.\<close>

definition request_sent :: "hub \<Rightarrow> busConn \<Rightarrow> stripe \<Rightarrow> nat \<Rightarrow> eventfd \<Rightarrow> hub \<Rightarrow> bool" where
  "request_sent h c s q ev h' \<longleftrightarrow> h_ctrl h' = h_ctrl h \<and> h_bus h' = h_bus h \<and> h_nodes h' = h_nodes h \<and> h_respEv h' = h_respEv h
     \<and> same_elsewhere (h_mem h) (h_mem h') (ctl_stripe (h_ctrl h))
     \<and> fget (h_ctrl h) (h_mem h') (SlotStatus (c_slotID c)) = unat StripeStatusBusy
     \<and> GetStripeHeader (h_mem h') (h_ctrl h) (c_slotID c) = Some (Sequence s ! 0, Sequence s ! 1)
     \<and> fget (h_ctrl h) (h_mem h') (SlotOwner (c_slotID c)) = q
     \<and> q_inv (fget (h_ctrl h)) (h_mem h') q
     \<and> q_items (fget (h_ctrl h)) (h_mem h') q = q_items (fget (h_ctrl h)) (h_mem h) q @ [(c_slotID c, CMD_PROCESS)]
     \<and> (\<forall>f. field_valid f \<longrightarrow> \<not> queue_field q f \<longrightarrow> f \<notin> {SlotStatus (c_slotID c), SlotHeader (c_slotID c), SlotOwner (c_slotID c)} \<longrightarrow>
          fget (h_ctrl h) (h_mem h') f = fget (h_ctrl h) (h_mem h) f)
     \<and> h_waiters h' = (h_waiters h)[unat (c_slotID c) := c_done c] \<and> h_chans h' = (h_chans h)(the (c_done c) := [])
     \<and> (\<exists>k. h_efds h' = set_counter (h_efds h) (ev_fd ev) (Suc k))"

lemma queue_other: "field_valid f \<Longrightarrow> queue_field q f \<Longrightarrow> f \<notin> {SlotStatus t, SlotHeader t, SlotOwner t}"
  by (auto simp: queue_field_def)

lemma q_cong:
  assumes "q < MaxNodes" "\<forall>f. field_valid f \<longrightarrow> queue_field q f \<longrightarrow> fget c m' f = fget c m f"
  shows "q_inv (fget c) m' q = q_inv (fget c) m q" "q_items (fget c) m' q = q_items (fget c) m q" "fget c m' (QTail q) = fget c m (QTail q)"
proof -
  have e: "fget c m' (QHead q) = fget c m (QHead q)" "fget c m' (QTail q) = fget c m (QTail q)"
    "fget c m' (QEntry q (i mod QueueSize)) = fget c m (QEntry q (i mod QueueSize))" for i
    using assms(2)[rule_format, of "QHead q"] assms(2)[rule_format, of "QTail q"] assms(2)[rule_format, of "QEntry q (i mod QueueSize)"] assms(1)
    by (simp_all add: queue_field_def QueueSize_def)
  then show "q_inv (fget c) m' q = q_inv (fget c) m q" "q_items (fget c) m' q = q_items (fget c) m q" "fget c m' (QTail q) = fget c m (QTail q)"
    by (simp_all add: q_inv_def q_items_def)
qed

lemma queue_room_cong:
  assumes "q < MaxNodes" "\<forall>f. field_valid f \<longrightarrow> queue_field q f \<longrightarrow> fget c m' f = fget c m f"
  shows "queue_room c m' q = queue_room c m q"
  unfolding queue_room_def q_cong[OF assms] ..

lemma GetStripeHeader_cong:
  assumes "ctl_ok c" "valid_slot t" "fget c m' (SlotHeader t) = fget c m (SlotHeader t)"
  shows "GetStripeHeader m' c t = GetStripeHeader m c t"
  using assms by (simp add: GetStripeHeader_def slot_reads)

lemma Next_send_spec:
  assumes h: "hub_ok os cas h" and nd: "map_of (h_nodes h) name = Some target" "ni_nodeID target = int q" "\<not> ni_closed target"
    and s: "bus_stripe (h_bus h) (h_mem h) as s" and c: "has_slot h c s"
    and q: "queue_room (h_ctrl h) (h_mem h) q" and ev: "counter_room (h_efds h) (ni_nodeEv target)"
  obtains h' where "Next_send pool h c name = Some (None, h', c\<lparr>c_node := Some name, c_writeOff := 0, c_readOff := 0\<rparr>)"
    "request_sent h c s q (ni_nodeEv target) h'"
proof -
  note H = hub_okD[OF h]
  let ?c = "h_ctrl h" and ?t = "c_slotID c"
  obtain ch where C: "c_Stripe c = Some s" "valid_slot ?t" "c_done c = Some ch"
    "fget ?c (h_mem h) (SlotStatus ?t) \<in> {unat StripeStatusReady, unat StripeStatusDone}"
    using c by (auto simp: has_slot_def)
  have q64: "q < MaxNodes" using q by (simp add: queue_room_def)
  obtain m1 where m1: "SetStripe (h_mem h) ?c ?t StripeStatusBusy (Sequence s ! 0) (Sequence s ! 1) (word_of_int (int q)) = Some m1"
    "fget ?c m1 (SlotStatus ?t) = unat StripeStatusBusy" "GetStripeHeader m1 ?c ?t = Some (Sequence s ! 0, Sequence s ! 1)"
    "fget ?c m1 (SlotOwner ?t) = unat (word_of_int (int q) :: uint32)"
    "\<forall>f. field_valid f \<longrightarrow> f \<notin> {SlotStatus ?t, SlotHeader ?t, SlotOwner ?t} \<longrightarrow> fget ?c m1 f = fget ?c (h_mem h) f"
    "same_elsewhere (h_mem h) m1 (ctl_stripe ?c)"
    by (rule SetStripe_spec[OF H(3) C(2)])
  have owner: "unat (word_of_int (int q) :: uint32) = q" using q64 by (simp add: unat_of_nat MaxNodes_def)
  let ?h1 = "(clearChannel (h\<lparr>h_mem := m1\<rparr>) ch)\<lparr>h_waiters := (h_waiters h)[unat ?t := Some ch]\<rparr>"
  have h1: "h_ctrl ?h1 = ?c" "h_mem ?h1 = m1" "h_efds ?h1 = h_efds h" by (simp_all add: clearChannel_def)
  have qf: "\<forall>f. field_valid f \<longrightarrow> queue_field q f \<longrightarrow> fget ?c m1 f = fget ?c (h_mem h) f" using m1(5) queue_other by blast
  have qr: "queue_room (h_ctrl ?h1) (h_mem ?h1) q"
    using q queue_room_cong[OF q64 qf] unfolding h1 by simp
  obtain m2 k where sb: "submit ?h1 target ?t = Some (None, ?h1\<lparr>h_mem := m2, h_efds := set_counter (h_efds ?h1) (ev_fd (ni_nodeEv target)) (Suc k)\<rparr>)"
    "pushed (h_ctrl ?h1) (h_mem ?h1) q (?t, CMD_PROCESS) m2"
    by (rule submit_spec[of ?h1, OF _ nd(2,3) qr, of ?t]) (use H(3) ev h1 in simp_all)
  let ?h2 = "?h1\<lparr>h_mem := m2, h_efds := set_counter (h_efds ?h1) (ev_fd (ni_nodeEv target)) (Suc k)\<rparr>"
  have wt: "go_nth (h_waiters h) (uint ?t) = Some (h_waiters h ! unat ?t)"
    by (rule waiter_nth[OF h C(2)])
  have st: "GetStripeStatus (h_mem h) ?c ?t = Some StripeStatusReady \<or> GetStripeStatus (h_mem h) ?c ?t = Some StripeStatusDone"
    using slot_reads(1)[OF H(3) C(2), of "h_mem h"] C(4) by (auto simp: GetStripeStatus_def)
  have t0: "?t \<noteq> 0" using C(2) by auto
  have send: "Next_send pool h c name = Some (None, ?h2, c\<lparr>c_node := Some name, c_writeOff := 0, c_readOff := 0\<rparr>)"
    using nd C(1,3) t0 st stripe_ids[OF H(1) s] m1(1) wt sb(1)
    by (auto simp: Next_send_def Let_def clearChannel_def StripeStatusReady_def StripeStatusDone_def)
  have P: "q_inv (fget ?c) m2 q" "q_items (fget ?c) m2 q = q_items (fget ?c) (h_mem h) q @ [(?t, CMD_PROCESS)]"
    "\<forall>f. field_valid f \<longrightarrow> \<not> queue_field q f \<longrightarrow> fget ?c m2 f = fget ?c m1 f" "same_elsewhere m1 m2 (ctl_stripe ?c)"
    using sb(2) q_cong(2)[OF q64 qf] unfolding pushed_def h1 by simp_all
  have slot: "fget ?c m2 (SlotStatus ?t) = fget ?c m1 (SlotStatus ?t)" "fget ?c m2 (SlotHeader ?t) = fget ?c m1 (SlotHeader ?t)"
    "fget ?c m2 (SlotOwner ?t) = fget ?c m1 (SlotOwner ?t)" using P(3) C(2) by (auto simp: queue_field_def)
  have "request_sent h c s q (ni_nodeEv target) ?h2"
    unfolding request_sent_def
    using P m1 slot owner C(3) GetStripeHeader_cong[OF H(3) C(2) slot(2)] same_elsewhere_trans[OF m1(6) P(4)]
    by (simp add: clearChannel_def) blast
  with send show ?thesis by (rule that)
qed

end
