(* ===== verification/Node_Serve.thy ===== *)
theory Node_Serve
  imports Request_Send
begin

text \<open>
  The node serves requests: a turn of its event loop takes every command out of its queue, and serving
  a slot gives the handler the stripe the hub sent and answers.
\<close>

subsection \<open>A turn of the event loop\<close>

text \<open>What a command does to the node apart from the shared memory.\<close>

definition take_cmd :: "uint32 \<times> uint32 \<Rightarrow> nodeState \<Rightarrow> nodeState" where
  "take_cmd item n = (case item of (slotID, cmd) \<Rightarrow>
     if cmd = CMD_PROCESS then n\<lparr>n_spawned := n_spawned n @ [slotID]\<rparr>
     else if cmd \<in> {CMD_EXPAND_READY, CMD_EXPAND_ERROR} \<and> n_waiters n slotID \<noteq> None
     then n\<lparr>n_answers := n_answers n @ [(slotID, cmd = CMD_EXPAND_READY)], n_waiters := (n_waiters n)(slotID := None)\<rparr>
     else n)"

definition released :: "(uint32 \<times> uint32) list \<Rightarrow> uint32 set" where
  "released items = {t. (t, CMD_RELEASE) \<in> set items}"

text \<open>An answer for a slot whose waiter has been left behind.\<close>

definition stray_answer :: "nodeState \<Rightarrow> uint32 \<times> uint32 \<Rightarrow> bool" where
  "stray_answer n item = (case item of (slotID, cmd) \<Rightarrow>
     cmd \<in> {CMD_EXPAND_READY, CMD_EXPAND_ERROR} \<and> n_waiters n slotID = Some False)"

lemma take_cmd_mem [simp]: "take_cmd item (n\<lparr>n_mem := m\<rparr>) = (take_cmd item n)\<lparr>n_mem := m\<rparr>" "n_mem (take_cmd item n) = n_mem n"
  "n_ctrl (take_cmd item n) = n_ctrl n" "take_cmd item (n\<lparr>n_efds := e\<rparr>) = (take_cmd item n)\<lparr>n_efds := e\<rparr>"
  by (auto simp: take_cmd_def split: prod.splits)

lemma fold_take_cmd: "fold take_cmd items (n\<lparr>n_mem := m\<rparr>) = (fold take_cmd items n)\<lparr>n_mem := m\<rparr>"
  "fold take_cmd items (n\<lparr>n_efds := e\<rparr>) = (fold take_cmd items n)\<lparr>n_efds := e\<rparr>"
  by (induction items arbitrary: n) simp_all

lemma stray_answer_mem [simp]: "stray_answer (n\<lparr>n_mem := m\<rparr>) item = stray_answer n item"
  "stray_answer (n\<lparr>n_efds := e\<rparr>) item = stray_answer n item"
  by (simp_all add: stray_answer_def)

text \<open>Handling a command neither abandons a waiter nor helps an abandoned one.\<close>

lemma take_cmd_stray: "\<not> stray_answer n item \<Longrightarrow> stray_answer (take_cmd item n) item' \<longleftrightarrow> stray_answer n item'"
  by (auto simp: stray_answer_def take_cmd_def split: prod.splits)

lemma cmds_distinct: "CMD_RELEASE \<noteq> CMD_PROCESS" "CMD_RELEASE \<noteq> CMD_EXPAND_READY" "CMD_RELEASE \<noteq> CMD_EXPAND_ERROR"
  "CMD_EXPAND_READY \<noteq> CMD_PROCESS" "CMD_EXPAND_ERROR \<noteq> CMD_PROCESS" "CMD_EXPAND_ERROR \<noteq> CMD_EXPAND_READY"
  by (simp_all add: CMD_RELEASE_def CMD_PROCESS_def CMD_EXPAND_READY_def CMD_EXPAND_ERROR_def)

lemma handle_cmd_stray: "stray_answer n (t, cmd) \<Longrightarrow> handle_cmd n t cmd = None"
  using cmds_distinct by (auto simp: stray_answer_def handle_cmd_def answer_def)

lemma handle_cmd_spec:
  assumes c: "n_ctrl n = Some c" "ctl_ok c" and t: "cmd = CMD_RELEASE \<longrightarrow> valid_slot t" and st: "\<not> stray_answer n (t, cmd)"
  obtains m' where "handle_cmd n t cmd = Some ((take_cmd (t, cmd) n)\<lparr>n_mem := m'\<rparr>)"
    "\<forall>f. field_valid f \<longrightarrow> \<not> (cmd = CMD_RELEASE \<and> f = SlotStatus t) \<longrightarrow> fget c m' f = fget c (n_mem n) f"
    "cmd = CMD_RELEASE \<longrightarrow> fget c m' (SlotStatus t) = 0" "same_elsewhere (n_mem n) m' (ctl_stripe c)"
proof (cases "cmd = CMD_RELEASE")
  case True
  let ?m = "fput c (n_mem n) (SlotStatus t) 0"
  have t: "valid_slot t" using t True by simp
  have "handle_cmd n t cmd = Some ((take_cmd (t, cmd) n)\<lparr>n_mem := ?m\<rparr>)"
    using c slot_writes(1)[OF c(2) t] cmds_distinct by (simp add: True handle_cmd_def take_cmd_def FreeSlot_def StripeStatusIdle_def)
  then show ?thesis using t True by (intro that[of ?m]) (auto simp: fget_fput[OF c(2)] fput_elsewhere[OF c(2)])
next
  case False
  have "(take_cmd (t, cmd) n)\<lparr>n_mem := n_mem n\<rparr> = take_cmd (t, cmd) n"
    by (simp add: take_cmd_def)
  then have "handle_cmd n t cmd = Some ((take_cmd (t, cmd) n)\<lparr>n_mem := n_mem n\<rparr>)"
    using False st cmds_distinct by (auto simp: handle_cmd_def take_cmd_def answer_def stray_answer_def split: option.splits)
  then show ?thesis using False by (intro that[of "n_mem n"]) simp_all
qed

text \<open>One round of the loop that finds a command it can handle.\<close>

lemma drain_step:
  assumes c: "n_ctrl n = Some c" "ctl_ok c" "q < MaxNodes" "q_inv (fget c) (n_mem n) q" "q_items (fget c) (n_mem n) q = (t, cmd) # items"
    and rel: "cmd = CMD_RELEASE \<longrightarrow> valid_slot t" and st: "\<not> stray_answer n (t, cmd)"
  obtains m' where "drain_loop n (GetNodeReqQueueOffset q) = drain_loop ((take_cmd (t, cmd) n)\<lparr>n_mem := m'\<rparr>) (GetNodeReqQueueOffset q)"
    "q_inv (fget c) m' q" "q_items (fget c) m' q = items" "cmd = CMD_RELEASE \<longrightarrow> fget c m' (SlotStatus t) = 0"
    "\<forall>f. field_valid f \<longrightarrow> \<not> queue_field q f \<longrightarrow> \<not> (cmd = CMD_RELEASE \<and> f = SlotStatus t) \<longrightarrow> fget c m' f = fget c (n_mem n) f"
    "same_elsewhere (n_mem n) m' (ctl_stripe c)"
proof -
  obtain m1 where pop: "Pop (n_mem n) c (GetNodeReqQueueOffset q) = Some (m1, t, cmd, True)" "q_inv (fget c) m1 q" "q_items (fget c) m1 q = items"
    "\<forall>f. field_valid f \<longrightarrow> \<not> queue_field q f \<longrightarrow> fget c m1 f = fget c (n_mem n) f" "same_elsewhere (n_mem n) m1 (ctl_stripe c)"
    by (rule Pop_spec[OF c(2-4)]) (use c(5) in auto)
  obtain m2 where hc: "handle_cmd (n\<lparr>n_mem := m1\<rparr>) t cmd = Some ((take_cmd (t, cmd) (n\<lparr>n_mem := m1\<rparr>))\<lparr>n_mem := m2\<rparr>)"
    "\<forall>f. field_valid f \<longrightarrow> \<not> (cmd = CMD_RELEASE \<and> f = SlotStatus t) \<longrightarrow> fget c m2 f = fget c (n_mem (n\<lparr>n_mem := m1\<rparr>)) f"
    "cmd = CMD_RELEASE \<longrightarrow> fget c m2 (SlotStatus t) = 0" "same_elsewhere (n_mem (n\<lparr>n_mem := m1\<rparr>)) m2 (ctl_stripe c)"
    by (rule handle_cmd_spec[of "n\<lparr>n_mem := m1\<rparr>", OF _ c(2) rel]) (use c(1) st in simp_all)
  have "\<forall>f. field_valid f \<longrightarrow> queue_field q f \<longrightarrow> fget c m2 f = fget c m1 f" using hc(2) queue_other[of _ q t] by auto
  note qc = q_cong[OF c(3) this]
  have "drain_loop n (GetNodeReqQueueOffset q) = drain_loop ((take_cmd (t, cmd) n)\<lparr>n_mem := m2\<rparr>) (GetNodeReqQueueOffset q)"
    using c(1) pop(1) hc(1) by (subst drain_loop.simps) simp
  then show ?thesis
    by (rule that) (use pop hc qc in \<open>auto intro: same_elsewhere_trans\<close>)
qed

lemma drain_loop_spec:
  assumes "n_ctrl n = Some c" "ctl_ok c" "q < MaxNodes" "q_inv (fget c) (n_mem n) q" "q_items (fget c) (n_mem n) q = items"
    and "\<forall>t\<in>released items. valid_slot t" and "\<forall>item\<in>set items. \<not> stray_answer n item"
  shows "\<exists>m'. drain_loop n (GetNodeReqQueueOffset q) = Some ((fold take_cmd items n)\<lparr>n_mem := m'\<rparr>)
    \<and> q_inv (fget c) m' q \<and> q_items (fget c) m' q = [] \<and> (\<forall>t\<in>released items. fget c m' (SlotStatus t) = 0)
    \<and> (\<forall>f. field_valid f \<longrightarrow> \<not> queue_field q f \<longrightarrow> f \<notin> SlotStatus ` released items \<longrightarrow> fget c m' f = fget c (n_mem n) f)
    \<and> same_elsewhere (n_mem n) m' (ctl_stripe c)"
  using assms
proof (induction items arbitrary: n)
  case Nil
  have "Pop (n_mem n) c (GetNodeReqQueueOffset q) = Some (n_mem n, 0, 0, False)"
    by (rule Pop_spec[OF Nil(2-4)]) (use Nil(5) in simp_all)
  then have "drain_loop n (GetNodeReqQueueOffset q) = Some (n\<lparr>n_mem := n_mem n\<rparr>)"
    using Nil(1) by (simp add: drain_loop.simps)
  then show ?case using Nil by (intro exI[of _ "n_mem n"]) (simp add: released_def)
next
  case (Cons item items)
  obtain t cmd where item: "item = (t, cmd)" by (cases item)
  have rel: "cmd = CMD_RELEASE \<longrightarrow> valid_slot t" "\<forall>t\<in>released items. valid_slot t"
    using Cons.prems(6) item by (auto simp: released_def)
  have st: "\<not> stray_answer n (t, cmd)" using Cons.prems(7) item by simp
  obtain m1 where d: "drain_loop n (GetNodeReqQueueOffset q) = drain_loop ((take_cmd (t, cmd) n)\<lparr>n_mem := m1\<rparr>) (GetNodeReqQueueOffset q)"
    "q_inv (fget c) m1 q" "q_items (fget c) m1 q = items" "cmd = CMD_RELEASE \<longrightarrow> fget c m1 (SlotStatus t) = 0"
    "\<forall>f. field_valid f \<longrightarrow> \<not> queue_field q f \<longrightarrow> \<not> (cmd = CMD_RELEASE \<and> f = SlotStatus t) \<longrightarrow> fget c m1 f = fget c (n_mem n) f"
    "same_elsewhere (n_mem n) m1 (ctl_stripe c)"
    by (rule drain_step[OF Cons.prems(1-4) _ rel(1) st]) (use Cons.prems(5) item in simp)
  let ?n = "(take_cmd (t, cmd) n)\<lparr>n_mem := m1\<rparr>"
  have st': "\<forall>item\<in>set items. \<not> stray_answer ?n item" using Cons.prems(7) take_cmd_stray[OF st] by simp
  obtain m' where ih: "drain_loop ?n (GetNodeReqQueueOffset q) = Some ((fold take_cmd items ?n)\<lparr>n_mem := m'\<rparr>)"
    "q_inv (fget c) m' q" "q_items (fget c) m' q = []" "\<forall>t\<in>released items. fget c m' (SlotStatus t) = 0"
    "\<forall>f. field_valid f \<longrightarrow> \<not> queue_field q f \<longrightarrow> f \<notin> SlotStatus ` released items \<longrightarrow> fget c m' f = fget c m1 f"
    "same_elsewhere m1 m' (ctl_stripe c)"
    using Cons.IH[of ?n] Cons.prems(1-3) d(2,3) rel(2) st' by auto
  have fold: "(fold take_cmd items ?n)\<lparr>n_mem := m'\<rparr> = (fold take_cmd (item # items) n)\<lparr>n_mem := m'\<rparr>"
    by (simp add: item fold_take_cmd)
  have idle: "fget c m' (SlotStatus u) = 0" if u: "u \<in> released (item # items)" for u
  proof (cases "u \<in> released items")
    case False
    then have "cmd = CMD_RELEASE" "u = t" using u by (auto simp: released_def item)
    then show ?thesis using ih(5)[rule_format, of "SlotStatus t"] False rel(1) d(4) by (auto simp: queue_field_def)
  qed (use ih(4) in blast)
  have frame: "fget c m' f = fget c (n_mem n) f" if "field_valid f" "\<not> queue_field q f" "f \<notin> SlotStatus ` released (item # items)" for f
  proof -
    have "f \<notin> SlotStatus ` released items" "\<not> (cmd = CMD_RELEASE \<and> f = SlotStatus t)" using that(3) by (auto simp: released_def item)
    then show ?thesis using ih(5) d(5) that by simp
  qed
  show ?case
    by (rule exI[of _ m']) (use d(1) ih(1-3) fold idle frame same_elsewhere_trans[OF d(6) ih(6)] in auto)
qed

lemma drain_loop_stuck:
  assumes "n_ctrl n = Some c" "ctl_ok c" "q < MaxNodes" "q_inv (fget c) (n_mem n) q" "q_items (fget c) (n_mem n) q = items"
    and "\<forall>t\<in>released items. valid_slot t" and "item \<in> set items" "stray_answer n item"
  shows "drain_loop n (GetNodeReqQueueOffset q) = None"
  using assms
proof (induction items arbitrary: n)
  case (Cons i items)
  obtain t cmd where i: "i = (t, cmd)" by (cases i)
  show ?case
  proof (cases "stray_answer n (t, cmd)")
    case True
    obtain m1 where "Pop (n_mem n) c (GetNodeReqQueueOffset q) = Some (m1, t, cmd, True)"
      by (rule Pop_spec[OF Cons.prems(2-4)]) (use Cons.prems(5) i in auto)
    then show ?thesis using Cons.prems(1) handle_cmd_stray[of "n\<lparr>n_mem := m1\<rparr>" t cmd] True by (subst drain_loop.simps) simp
  next
    case False
    have rel: "cmd = CMD_RELEASE \<longrightarrow> valid_slot t" "\<forall>t\<in>released items. valid_slot t"
      using Cons.prems(6) i by (auto simp: released_def)
    obtain m1 where d: "drain_loop n (GetNodeReqQueueOffset q) = drain_loop ((take_cmd (t, cmd) n)\<lparr>n_mem := m1\<rparr>) (GetNodeReqQueueOffset q)"
      "q_inv (fget c) m1 q" "q_items (fget c) m1 q = items"
      by (rule drain_step[OF Cons.prems(1-4) _ rel(1) False]) (use Cons.prems(5) i in simp)
    have "item \<in> set items" using Cons.prems(7,8) False i by auto
    with Cons.IH[of "(take_cmd (t, cmd) n)\<lparr>n_mem := m1\<rparr>"] Cons.prems(1-3,8) d rel(2) take_cmd_stray[OF False] show ?thesis by simp
  qed
qed simp

text \<open>C10: A turn of the event loop that finds the counter raised takes every command out of the node's queue, in
  the order in which they were pushed, whatever they are: it starts the processing of every
  \<open>CMD_PROCESS\<close>, hands every answer to the expansion request that waits for it, and makes the slots idle that
  it is told to release. The loop ends, with the queue empty, the counter reset, and nothing else in the
  control region changed. The one exception is an answer for a slot whose \<open>RequestExpand\<close> has given up after
  a failed push and left its channel behind: the loop blocks on it for ever.\<close>

theorem event_turn_drains:
  assumes "n_ctrl n = Some c" "ctl_ok c" "n_nodeID n = int q" "q < MaxNodes" "q_inv (fget c) (n_mem n) q"
    and "\<forall>t\<in>released (q_items (fget c) (n_mem n) q). valid_slot t"
    and "n_nodeEv n = Some ev" "eventfd_kernel (n_efds n)" "counters (n_efds n) (ev_fd ev) = Some (Suc k)"
  shows "if \<exists>item\<in>set (q_items (fget c) (n_mem n) q). stray_answer n item then event_turn n = None
    else \<exists>m'. event_turn n = Some (None, (fold take_cmd (q_items (fget c) (n_mem n) q) n)
        \<lparr>n_efds := set_counter (n_efds n) (ev_fd ev) 0, n_mem := m'\<rparr>)
    \<and> q_inv (fget c) m' q \<and> q_items (fget c) m' q = []
    \<and> (\<forall>t\<in>released (q_items (fget c) (n_mem n) q). GetStripeStatus m' c t = Some StripeStatusIdle)
    \<and> (\<forall>f. field_valid f \<longrightarrow> \<not> queue_field q f \<longrightarrow> f \<notin> SlotStatus ` released (q_items (fget c) (n_mem n) q) \<longrightarrow>
         fget c m' f = fget c (n_mem n) f)
    \<and> same_elsewhere (n_mem n) m' (ctl_stripe c)"
proof -
  let ?items = "q_items (fget c) (n_mem n) q" and ?n = "n\<lparr>n_efds := set_counter (n_efds n) (ev_fd ev) 0\<rparr>"
  have "Wait (n_efds n) ev = Some (None, set_counter (n_efds n) (ev_fd ev) 0)" by (rule Wait_counter[OF assms(8,9)])
  then have turn: "event_turn n = map_option (\<lambda>n. (None, n)) (drain_loop ?n (GetNodeReqQueueOffset q))"
    using assms(3,7) by (simp add: event_turn_def)
  show ?thesis
  proof (cases "\<exists>item\<in>set ?items. stray_answer n item")
    case True
    then obtain item where "item \<in> set ?items" "stray_answer n item" by blast
    then have "drain_loop ?n (GetNodeReqQueueOffset q) = None"
      using drain_loop_stuck[of ?n c q ?items item] assms(1,2,4-6) by simp
    then show ?thesis using turn True by simp
  next
    case False
    obtain m' where m': "drain_loop ?n (GetNodeReqQueueOffset q) = Some ((fold take_cmd ?items ?n)\<lparr>n_mem := m'\<rparr>)"
      "q_inv (fget c) m' q" "q_items (fget c) m' q = []" "\<forall>t\<in>released ?items. fget c m' (SlotStatus t) = 0"
      "\<forall>f. field_valid f \<longrightarrow> \<not> queue_field q f \<longrightarrow> f \<notin> SlotStatus ` released ?items \<longrightarrow> fget c m' f = fget c (n_mem n) f"
      "same_elsewhere (n_mem n) m' (ctl_stripe c)"
      using drain_loop_spec[of ?n c q ?items] False assms(1,2,4-6) by auto
    have "GetStripeStatus m' c t = Some StripeStatusIdle" if "t \<in> released ?items" for t
      using m'(4) that slot_reads(1)[OF assms(2), of t] assms(6) by (simp add: GetStripeStatus_def StripeStatusIdle_def)
    with m' turn False show ?thesis by (simp add: fold_take_cmd) blast
  qed
qed

subsection \<open>Serving a slot\<close>

text \<open>What a well-behaved handler may do to the stripe it is given: write to its data and nothing else, so
  that the contents become \<open>f\<close> of what they were.\<close>

definition handler_does :: "(byte list \<Rightarrow> byte list) \<Rightarrow> handler \<Rightarrow> stripe \<Rightarrow> nodeState \<Rightarrow> bool" where
  "handler_does f handler s n \<longleftrightarrow>
     (\<forall>t. let conn = \<lparr>nc_stripe = s, nc_readOff = 0, nc_writeOff = 0, nc_slotID = t, nc_failed = False\<rparr> in
       \<exists>m' s' conn'. handler n conn = (n\<lparr>n_mem := m'\<rparr>, Returns conn') \<and> \<not> nc_failed conn' \<and> nc_stripe conn' = s'
         \<and> stripe_ok m' s' \<and> Blocks s' = Blocks s \<and> Sequence s' = Sequence s \<and> BlockCount s' = BlockCount s
         \<and> header_rest m' s' = header_rest (n_mem n) s \<and> same_elsewhere (n_mem n) m' s
         \<and> contents m' s' = f (contents (n_mem n) s))"

lemma push_response_room:
  assumes "ctl_ok c" "queue_room c m 0"
  obtains m' where "push_response_loop m c slotID = Some m'" "pushed c m 0 (slotID, CMD_PROCESS) m'"
proof -
  obtain m' where "Push m c (GetNodeReqQueueOffset 0) slotID CMD_PROCESS = Some (m', True)" "pushed c m 0 (slotID, CMD_PROCESS) m'"
    by (rule Push_room[OF assms cmd_consts(1)])
  then show ?thesis using that by (simp add: push_response_loop.simps)
qed

text \<open>The answer: the slot is done and its number is in the response queue.\<close>

definition answered :: "control \<Rightarrow> mem \<Rightarrow> uint32 \<Rightarrow> mem \<Rightarrow> bool" where
  "answered c m t m' \<longleftrightarrow> fget c m' (SlotStatus t) = unat StripeStatusDone
     \<and> q_inv (fget c) m' 0 \<and> q_items (fget c) m' 0 = q_items (fget c) m 0 @ [(t, CMD_PROCESS)]
     \<and> (\<forall>f. field_valid f \<longrightarrow> \<not> queue_field 0 f \<longrightarrow> f \<noteq> SlotStatus t \<longrightarrow> fget c m' f = fget c m f)
     \<and> same_elsewhere m m' (ctl_stripe c)"

lemma finish_slot_spec:
  assumes c: "n_ctrl n = Some c" "ctl_ok c" and t: "valid_slot t" and q: "queue_room c (n_mem n) 0"
    and ev: "n_hubEv n = Some ev" "counter_room (n_efds n) ev"
  obtains m' k where "finish_slot n t = Some (n\<lparr>n_mem := m', n_efds := set_counter (n_efds n) (ev_fd ev) (Suc k)\<rparr>)" "answered c (n_mem n) t m'"
proof -
  let ?m = "fput c (n_mem n) (SlotStatus t) (unat StripeStatusDone)"
  have st: "SetStripeStatus (n_mem n) c t StripeStatusDone = Some ?m" using slot_writes(1)[OF c(2) t] by (simp add: SetStripeStatus_def)
  have f: "fget c ?m f = (if f = SlotStatus t then unat StripeStatusDone else fget c (n_mem n) f)" if "field_valid f" for f
    using that t by (auto simp: fget_fput[OF c(2)] StripeStatusDone_def)
  have "\<forall>f. field_valid f \<longrightarrow> queue_field 0 f \<longrightarrow> fget c ?m f = fget c (n_mem n) f" using f queue_other[of _ 0 t] by auto
  note fq = this and qc = q_cong[OF _ this]
  have "queue_room c ?m 0" using q queue_room_cong[OF _ fq] by (simp add: MaxNodes_def)
  then obtain m' where m': "push_response_loop ?m c t = Some m'" "pushed c ?m 0 (t, CMD_PROCESS) m'"
    by (rule push_response_room[OF c(2)])
  obtain k where k: "Notify (n_efds n) ev = Some (None, set_counter (n_efds n) (ev_fd ev) (Suc k))" by (rule Notify_room[OF ev(2)])
  have "finish_slot n t = Some (n\<lparr>n_mem := m', n_efds := set_counter (n_efds n) (ev_fd ev) (Suc k)\<rparr>)"
    using c st m'(1) k ev by (simp add: finish_slot_def pushResponse_def)
  moreover have "answered c (n_mem n) t m'"
    unfolding answered_def
  proof (intro conjI)
    show "fget c m' (SlotStatus t) = unat StripeStatusDone" using m'(2) f t by (simp add: pushed_def queue_field_def)
    show "same_elsewhere (n_mem n) m' (ctl_stripe c)"
      using fput_elsewhere[OF c(2), of "SlotStatus t"] t m'(2) by (auto simp: pushed_def intro: same_elsewhere_trans)
    show "q_items (fget c) m' 0 = q_items (fget c) (n_mem n) 0 @ [(t, CMD_PROCESS)]"
      using m'(2) qc(2) by (simp add: pushed_def MaxNodes_def)
  qed (use m'(2) f in \<open>auto simp: pushed_def\<close>)
  ultimately show ?thesis by (rule that)
qed

end
