(* ===== verification/Request_Roundtrip.thy ===== *)
theory Request_Roundtrip
  imports Node_Serve
begin

text \<open>
  A request from the hub to a node and back. The hub and the node share the memory and the event
  counters; \<open>attached\<close> says what the handshake has set up: both see the same control region and the same
  chunks, and know each other's counter. A counter has one name on both sides here, the hub's
  descriptor.
\<close>

definition attached :: "hub \<Rightarrow> NodeInfo \<Rightarrow> nat \<Rightarrow> nodeState \<Rightarrow> bool" where
  "attached h target q n \<longleftrightarrow>
     (\<exists>ctl. n_ctrl n = Some ctl \<and> Blocks (ctl_stripe ctl) = Blocks (ctl_stripe (h_ctrl h)))
     \<and> same_chunks (chunks (h_bus h)) (n_chunks n) \<and> n_nodeID n = int q \<and> ni_nodeID target = int q \<and> 0 < q \<and> q < MaxNodes
     \<and> \<not> ni_closed target \<and> n_nodeEv n = Some (ni_nodeEv target) \<and> n_hubEv n = Some (h_respEv h)
     \<and> ev_fd (ni_nodeEv target) \<noteq> ev_fd (h_respEv h)"

subsection \<open>The node's part\<close>

lemma handler_doesD:
  assumes "handler_does f handler s n"
  obtains m' s' conn' where
    "handler n \<lparr>nc_stripe = s, nc_readOff = 0, nc_writeOff = 0, nc_slotID = t, nc_failed = False\<rparr> = (n\<lparr>n_mem := m'\<rparr>, Returns conn')"
    "\<not> nc_failed conn'" "nc_stripe conn' = s'" "stripe_ok m' s'" "Blocks s' = Blocks s" "Sequence s' = Sequence s" "BlockCount s' = BlockCount s"
    "header_rest m' s' = header_rest (n_mem n) s" "same_elsewhere (n_mem n) m' s" "contents m' s' = f (contents (n_mem n) s)"
  using assms unfolding handler_does_def Let_def by blast

text \<open>The stripe after the handler: the same blocks with new contents, described by its header.\<close>

definition served :: "(byte list \<Rightarrow> byte list) \<Rightarrow> bus \<Rightarrow> nat list \<Rightarrow> mem \<Rightarrow> stripe \<Rightarrow> mem \<Rightarrow> stripe \<Rightarrow> bool" where
  "served f b as m s m' s' \<longleftrightarrow> bus_stripe b m' as s' \<and> header_synced m' s' \<and> contents m' s' = f (contents m s)
     \<and> Blocks s' = Blocks s \<and> Sequence s' = Sequence s \<and> BlockCount s' = BlockCount s"

lemma processSlot_spec:
  assumes h: "hub_ok os cas h" and at: "attached h target q n" and s: "bus_stripe (h_bus h) (n_mem n) as s" "set as \<inter> set cas = {}"
    and sy: "header_synced (n_mem n) s" and t: "valid_slot t" and hd: "GetStripeHeader (n_mem n) (h_ctrl h) t = Some (Sequence s ! 0, Sequence s ! 1)"
    and q: "queue_room (h_ctrl h) (n_mem n) 0" and ev: "counter_room (n_efds n) (h_respEv h)" and hn: "handler_does f handler s n"
  obtains m' s' k where "processSlot (Some handler) n t = Some (n\<lparr>n_mem := m', n_efds := set_counter (n_efds n) (ev_fd (h_respEv h)) (Suc k)\<rparr>)"
    "served f (h_bus h) as (n_mem n) s m' s'"
    "fget (h_ctrl h) m' (SlotStatus t) = unat StripeStatusDone"
    "q_inv (fget (h_ctrl h)) m' 0" "q_items (fget (h_ctrl h)) m' 0 = q_items (fget (h_ctrl h)) (n_mem n) 0 @ [(t, CMD_PROCESS)]"
    "\<forall>f. field_valid f \<longrightarrow> \<not> queue_field 0 f \<longrightarrow> f \<noteq> SlotStatus t \<longrightarrow> fget (h_ctrl h) m' f = fget (h_ctrl h) (n_mem n) f"
proof -
  note H = hub_okD[OF h]
  obtain ctl where c: "n_ctrl n = Some ctl" "Blocks (ctl_stripe ctl) = Blocks (ctl_stripe (h_ctrl h))"
    and a: "same_chunks (chunks (h_bus h)) (n_chunks n)" "n_hubEv n = Some (h_respEv h)"
    using at by (auto simp: attached_def)
  note cc = ctl_cong[OF c(2)]
  have ctl: "ctl_ok ctl" "fget ctl = fget (h_ctrl h)" using cc H(3) by simp_all
  have gh: "GetStripeHeader m ctl t = GetStripeHeader m (h_ctrl h) t" for m
    by (simp add: GetStripeHeader_def readU32_def cc(4))
  have sl: "slot_stripe (n_mem n) ctl (n_chunks n) t = Returns s"
    using slot_stripe_spec[OF H(1) s(1) sy a(1)] hd gh by simp
  obtain m1 s' conn' where hdl:
    "handler n \<lparr>nc_stripe = s, nc_readOff = 0, nc_writeOff = 0, nc_slotID = t, nc_failed = False\<rparr> = (n\<lparr>n_mem := m1\<rparr>, Returns conn')"
    "\<not> nc_failed conn'" "nc_stripe conn' = s'" "stripe_ok m1 s'" "Blocks s' = Blocks s" "Sequence s' = Sequence s" "BlockCount s' = BlockCount s"
    "header_rest m1 s' = header_rest (n_mem n) s" "same_elsewhere (n_mem n) m1 s" "contents m1 s' = f (contents (n_mem n) s)"
    by (rule handler_doesD[OF hn])
  have st: "stripe_blocks (chunks (h_bus h)) as s" "set as \<subseteq> used (h_bus h)" "stripe_ok (n_mem n) s" using s(1) by (simp_all add: bus_stripe_def)
  have fr: "\<forall>r i. \<not> covers (Blocks s) r i \<longrightarrow> m1 r i = n_mem n r i" using hdl(9) by (simp add: same_elsewhere_def)
  have f1: "\<forall>f. field_valid f \<longrightarrow> fget (h_ctrl h) m1 f = fget (h_ctrl h) (n_mem n) f"
    using hub_ctl_frame[OF h st(1,2) s(2) fr] by blast
  then have qc: "q_inv (fget (h_ctrl h)) m1 0 = q_inv (fget (h_ctrl h)) (n_mem n) 0"
    "q_items (fget (h_ctrl h)) m1 0 = q_items (fget (h_ctrl h)) (n_mem n) 0" "fget (h_ctrl h) m1 (QTail 0) = fget (h_ctrl h) (n_mem n) (QTail 0)"
    using q_cong[of 0 "h_ctrl h" m1 "n_mem n"] by (simp_all add: MaxNodes_def)
  have q1: "queue_room ctl (n_mem (n\<lparr>n_mem := m1\<rparr>)) 0" using q qc ctl(2) by (simp add: queue_room_def)
  obtain m' k where fs: "finish_slot (n\<lparr>n_mem := m1\<rparr>) t = Some ((n\<lparr>n_mem := m1\<rparr>)\<lparr>n_mem := m', n_efds := set_counter (n_efds (n\<lparr>n_mem := m1\<rparr>)) (ev_fd (h_respEv h)) (Suc k)\<rparr>)"
    "answered ctl (n_mem (n\<lparr>n_mem := m1\<rparr>)) t m'"
    by (rule finish_slot_spec[of "n\<lparr>n_mem := m1\<rparr>", OF _ ctl(1) t q1, of "h_respEv h"]) (use c(1) a(2) ev in simp_all)
  have ps: "processSlot (Some handler) n t = Some (n\<lparr>n_mem := m', n_efds := set_counter (n_efds n) (ev_fd (h_respEv h)) (Suc k)\<rparr>)"
    using c(1) sl hdl(1,2) fs(1) by (simp add: processSlot_def)
  have A: "fget (h_ctrl h) m' (SlotStatus t) = unat StripeStatusDone" "q_inv (fget (h_ctrl h)) m' 0"
    "q_items (fget (h_ctrl h)) m' 0 = q_items (fget (h_ctrl h)) m1 0 @ [(t, CMD_PROCESS)]"
    "\<forall>f. field_valid f \<longrightarrow> \<not> queue_field 0 f \<longrightarrow> f \<noteq> SlotStatus t \<longrightarrow> fget (h_ctrl h) m' f = fget (h_ctrl h) m1 f"
    "same_elsewhere m1 m' (ctl_stripe (h_ctrl h))"
    using fs(2) ctl(2) c(2) by (simp_all add: answered_def same_elsewhere_def)
  have b1: "bus_stripe (h_bus h) m1 as s'"
    using s(1) hdl(4-7) by (simp add: bus_stripe_def stripe_blocks_def)
  have sy1: "header_synced m1 s'" by (rule header_synced_cong[OF st(3) hdl(4-8) sy])
  have "served f (h_bus h) as (n_mem n) s m' s'"
    using hub_stripe_frame[OF h b1 s(2) A(5)] sy1 hdl(5-7,10) by (simp add: served_def)
  then show ?thesis using ps A f1 qc(2) by (intro that[of k m' s']) auto
qed

subsection \<open>The hub's part\<close>

text \<open>The dispatch loop takes one response and wakes the caller registered under the slot.\<close>

lemma dispatch_response:
  assumes h: "hub_ok os cas h" and q: "q_inv (fget (h_ctrl h)) (h_mem h) 0" "q_items (fget (h_ctrl h)) (h_mem h) 0 = (t, CMD_PROCESS) # items"
    and t: "valid_slot t" and w: "h_waiters h ! unat t = Some ch" "h_chans h ch = []"
  obtains m' where "dispatch_turn h = Some (Dispatch_continue, h\<lparr>h_mem := m', h_waiters := (h_waiters h)[unat t := None], h_chans := (h_chans h)(ch := [None])\<rparr>)"
    "q_inv (fget (h_ctrl h)) m' 0" "q_items (fget (h_ctrl h)) m' 0 = items"
    "\<forall>f. field_valid f \<longrightarrow> \<not> queue_field 0 f \<longrightarrow> fget (h_ctrl h) m' f = fget (h_ctrl h) (h_mem h) f"
    "same_elsewhere (h_mem h) m' (ctl_stripe (h_ctrl h))"
proof (rule Pop_spec[of "h_ctrl h" 0 "h_mem h", OF hub_okD(3)[OF h] _ q(1)])
  fix slotID cmd items' m'
  assume p: "q_items (fget (h_ctrl h)) (h_mem h) 0 = (slotID, cmd) # items'"
    "Pop (h_mem h) (h_ctrl h) (GetNodeReqQueueOffset 0) = Some (m', slotID, cmd, True)"
    and m': "q_inv (fget (h_ctrl h)) m' 0" "q_items (fget (h_ctrl h)) m' 0 = items'"
      "\<forall>f. field_valid f \<longrightarrow> \<not> queue_field 0 f \<longrightarrow> fget (h_ctrl h) m' f = fget (h_ctrl h) (h_mem h) f"
      "same_elsewhere (h_mem h) m' (ctl_stripe (h_ctrl h))"
  have e: "slotID = t" "cmd = CMD_PROCESS" "items' = items" using p(1) q(2) by simp_all
  have "GetNodeReqQueueOffset 0 = OFF_RESP_QUEUE" by (simp add: GetNodeReqQueueOffset_def)
  then have "dispatch_turn h = Some (Dispatch_continue, h\<lparr>h_mem := m', h_waiters := (h_waiters h)[unat t := None], h_chans := (h_chans h)(ch := [None])\<rparr>)"
    using p(2) w waiter_nth[OF h t] by (simp add: dispatch_turn_def e chan_send_def)
  then show thesis using that m' e by blast
qed (use q(2) in \<open>simp_all add: MaxNodes_def\<close>)

lemma refreshStripe_same:
  assumes s: "c_Stripe c = Some s" and b: "bus_stripe b (h_mem h) as s'" and sy: "header_synced (h_mem h) s'"
    and same: "Blocks s' = Blocks s" "Sequence s' = Sequence s" "BlockCount s' = BlockCount s"
  shows "refreshStripe h c = Some (None, c\<lparr>c_Stripe := Some s'\<rparr>)"
proof -
  have ne: "Blocks s' \<noteq> []" using b by (auto simp: bus_stripe_def dest: stripe_okD(1))
  then have "go_nth (Blocks s) 0 = Some (Blocks s' ! 0)" by (simp add: go_nth_def same)
  moreover have "s\<lparr>DataLen := DataLen s'\<rparr> = s'" using same by (cases s; cases s') simp
  ultimately show ?thesis using s sy same by (simp add: refreshStripe_def header_synced_def)
qed

lemma Next_receive_ok:
  assumes "c_done c = Some ch" "h_chans h ch = None # rest" "refreshStripe (h\<lparr>h_chans := (h_chans h)(ch := rest)\<rparr>) c = Some (None, c')"
  shows "Next_receive h c = Some (None, h\<lparr>h_chans := (h_chans h)(ch := rest)\<rparr>, c')"
  using assms by (simp add: Next_receive_def)

subsection \<open>There and back\<close>

lemma request_sent_node:
  assumes h: "hub_ok os cas h" and at: "attached h target q n" and sent: "request_sent h c s q (ni_nodeEv target) h1" and t: "valid_slot (c_slotID c)"
    and q: "q_items (fget (h_ctrl h)) (h_mem h) q = []" and ek: "eventfd_kernel (h_efds h)"
  obtains m where "event_turn (n\<lparr>n_mem := h_mem h1, n_efds := h_efds h1\<rparr>) =
      Some (None, n\<lparr>n_mem := m, n_efds := set_counter (h_efds h) (ev_fd (ni_nodeEv target)) 0, n_spawned := n_spawned n @ [c_slotID c]\<rparr>)"
    "q_inv (fget (h_ctrl h)) m q" "q_items (fget (h_ctrl h)) m q = []"
    "\<forall>f. field_valid f \<longrightarrow> \<not> queue_field q f \<longrightarrow> fget (h_ctrl h) m f = fget (h_ctrl h) (h_mem h1) f"
    "same_elsewhere (h_mem h1) m (ctl_stripe (h_ctrl h))"
proof -
  let ?n = "n\<lparr>n_mem := h_mem h1, n_efds := set_counter (h_efds h1) (ev_fd (ni_nodeEv target)) 0\<rparr>"
  obtain ctl where c: "n_ctrl n = Some ctl" "Blocks (ctl_stripe ctl) = Blocks (ctl_stripe (h_ctrl h))"
    and a: "n_nodeID n = int q" "q < MaxNodes" "n_nodeEv n = Some (ni_nodeEv target)"
    using at by (auto simp: attached_def)
  have ctl: "ctl_ok ctl" "fget ctl = fget (h_ctrl h)" using ctl_cong[OF c(2)] hub_okD(3)[OF h] by simp_all
  have qs: "q_inv (fget ctl) (h_mem h1) q" "q_items (fget ctl) (h_mem h1) q = [(c_slotID c, CMD_PROCESS)]"
    using sent q ctl(2) by (simp_all add: request_sent_def)
  have rel: "released [(c_slotID c, CMD_PROCESS)] = {}" using cmds_distinct by (simp add: released_def)
  obtain m where m: "drain_loop ?n (GetNodeReqQueueOffset q) = Some ((fold take_cmd [(c_slotID c, CMD_PROCESS)] ?n)\<lparr>n_mem := m\<rparr>)"
    "q_inv (fget ctl) m q" "q_items (fget ctl) m q = []"
    "\<forall>f. field_valid f \<longrightarrow> \<not> queue_field q f \<longrightarrow> fget ctl m f = fget ctl (h_mem h1) f" "same_elsewhere (h_mem h1) m (ctl_stripe ctl)"
    using drain_loop_spec[of ?n ctl q "[(c_slotID c, CMD_PROCESS)]"] c(1) ctl(1) a(2) qs rel cmds_distinct by (auto simp: stray_answer_def)
  obtain k where k: "h_efds h1 = set_counter (h_efds h) (ev_fd (ni_nodeEv target)) (Suc k)" using sent by (auto simp: request_sent_def)
  then have "Wait (h_efds h1) (ni_nodeEv target) = Some (None, set_counter (h_efds h1) (ev_fd (ni_nodeEv target)) 0)"
    using ek by (subst Wait_counter[of _ _ k]) simp_all
  then have "event_turn (n\<lparr>n_mem := h_mem h1, n_efds := h_efds h1\<rparr>) =
      Some (None, n\<lparr>n_mem := m, n_efds := set_counter (h_efds h) (ev_fd (ni_nodeEv target)) 0, n_spawned := n_spawned n @ [c_slotID c]\<rparr>)"
    using m(1) a k by (simp add: event_turn_def take_cmd_def)
  then show ?thesis using m(2-5) ctl(2) c(2) by (intro that[of m]) (simp_all add: same_elsewhere_def)
qed

lemma queue_apart: "queue_field q f \<Longrightarrow> q \<noteq> q' \<Longrightarrow> \<not> queue_field q' f"
  by (auto simp: queue_field_def)

text \<open>The way to the node and the handler.\<close>

lemma request_served:
  assumes h: "hub_ok os cas h" and at: "attached h target q n"
    and s: "bus_stripe (h_bus h) (h_mem h) as s" "set as \<inter> set cas = {}" "header_synced (h_mem h) s"
    and sent: "request_sent h c s q (ni_nodeEv target) h1" and t: "valid_slot (c_slotID c)" and q: "q_items (fget (h_ctrl h)) (h_mem h) q = []"
    and q0: "queue_room (h_ctrl h) (h_mem h) 0" "q_items (fget (h_ctrl h)) (h_mem h) 0 = []" and ev: "counter_room (h_efds h) (h_respEv h)"
    and hn: "\<forall>n. stripe_ok (n_mem n) s \<longrightarrow> handler_does f handler s n"
  obtains n1 n2 s' where "event_turn (n\<lparr>n_mem := h_mem h1, n_efds := h_efds h1\<rparr>) = Some (None, n1)" "n_spawned n1 = n_spawned n @ [c_slotID c]"
    "processSlot (Some handler) n1 (c_slotID c) = Some n2" "served f (h_bus h) as (h_mem h) s (n_mem n2) s'"
    "fget (h_ctrl h) (n_mem n2) (SlotStatus (c_slotID c)) = unat StripeStatusDone"
    "q_inv (fget (h_ctrl h)) (n_mem n2) 0" "q_items (fget (h_ctrl h)) (n_mem n2) 0 = [(c_slotID c, CMD_PROCESS)]"
    "q_items (fget (h_ctrl h)) (n_mem n2) q = []"
proof -
  let ?t = "c_slotID c"
  note H = hub_okD[OF h]
  obtain m where m: "event_turn (n\<lparr>n_mem := h_mem h1, n_efds := h_efds h1\<rparr>) =
      Some (None, n\<lparr>n_mem := m, n_efds := set_counter (h_efds h) (ev_fd (ni_nodeEv target)) 0, n_spawned := n_spawned n @ [?t]\<rparr>)"
    "q_inv (fget (h_ctrl h)) m q" "q_items (fget (h_ctrl h)) m q = []"
    "\<forall>f. field_valid f \<longrightarrow> \<not> queue_field q f \<longrightarrow> fget (h_ctrl h) m f = fget (h_ctrl h) (h_mem h1) f"
    "same_elsewhere (h_mem h1) m (ctl_stripe (h_ctrl h))"
    by (rule request_sent_node[OF h at sent t q]) (use ev in \<open>simp add: counter_room_def\<close>)
  let ?n1 = "n\<lparr>n_mem := m, n_efds := set_counter (h_efds h) (ev_fd (ni_nodeEv target)) 0, n_spawned := n_spawned n @ [?t]\<rparr>"
  have R: "same_elsewhere (h_mem h) (h_mem h1) (ctl_stripe (h_ctrl h))"
    "GetStripeHeader (h_mem h1) (h_ctrl h) ?t = Some (Sequence s ! 0, Sequence s ! 1)"
    "\<forall>f. field_valid f \<longrightarrow> \<not> queue_field q f \<longrightarrow> f \<notin> {SlotStatus ?t, SlotHeader ?t, SlotOwner ?t} \<longrightarrow> fget (h_ctrl h) (h_mem h1) f = fget (h_ctrl h) (h_mem h) f"
    using sent unfolding request_sent_def by blast+
  have qq: "0 < q" "q < MaxNodes" "ev_fd (ni_nodeEv target) \<noteq> ev_fd (h_respEv h)" and at1: "attached h target q ?n1"
    using at by (simp_all add: attached_def)
  note fr = hub_stripe_frame[OF h s(1,2) same_elsewhere_trans[OF R(1) m(5)]]
  have "\<not> queue_field q (SlotHeader ?t)" by (simp add: queue_field_def)
  then have hd: "GetStripeHeader (n_mem ?n1) (h_ctrl h) ?t = Some (Sequence s ! 0, Sequence s ! 1)"
    using R(2) m(4) t GetStripeHeader_cong[OF H(3) t, of m "h_mem h1"] by simp
  have "\<forall>f. field_valid f \<longrightarrow> queue_field 0 f \<longrightarrow> fget (h_ctrl h) m f = fget (h_ctrl h) (h_mem h) f"
    using m(4) R(3) queue_apart[of 0 _ q] queue_other[of _ 0 ?t] qq(1) by simp
  note fq = this and qc = q_cong[OF _ this]
  have qr: "queue_room (h_ctrl h) (n_mem ?n1) 0" using q0(1) queue_room_cong[OF _ fq] by (simp add: MaxNodes_def)
  have cr: "counter_room (n_efds ?n1) (h_respEv h)" using ev qq(3) by (simp add: counter_room_def)
  have b1: "bus_stripe (h_bus h) (n_mem ?n1) as s" and sy1: "header_synced (n_mem ?n1) s" using fr s(3) by simp_all
  have hn1: "handler_does f handler s ?n1" using hn b1 by (simp add: bus_stripe_def)
  obtain m' s' k where p: "processSlot (Some handler) ?n1 ?t = Some (?n1\<lparr>n_mem := m', n_efds := set_counter (n_efds ?n1) (ev_fd (h_respEv h)) (Suc k)\<rparr>)"
    "served f (h_bus h) as (n_mem ?n1) s m' s'" "fget (h_ctrl h) m' (SlotStatus ?t) = unat StripeStatusDone"
    "q_inv (fget (h_ctrl h)) m' 0" "q_items (fget (h_ctrl h)) m' 0 = q_items (fget (h_ctrl h)) (n_mem ?n1) 0 @ [(?t, CMD_PROCESS)]"
    "\<forall>f. field_valid f \<longrightarrow> \<not> queue_field 0 f \<longrightarrow> f \<noteq> SlotStatus ?t \<longrightarrow> fget (h_ctrl h) m' f = fget (h_ctrl h) (n_mem ?n1) f"
    by (rule processSlot_spec[OF h at1 b1 s(2) sy1 t hd qr cr hn1])
  have "\<forall>f. field_valid f \<longrightarrow> queue_field q f \<longrightarrow> fget (h_ctrl h) m' f = fget (h_ctrl h) m f"
    using p(6) queue_apart[of q _ 0] queue_other[of _ q ?t] qq(1) by simp
  from q_cong(2)[OF qq(2) this] m(3) have "q_items (fget (h_ctrl h)) m' q = []" by simp
  moreover have "served f (h_bus h) as (h_mem h) s m' s'" using p(2) fr(2) by (simp add: served_def)
  ultimately show ?thesis
    using m(1) p(1,3-5) qc(2) q0(2)
    by (intro that[of ?n1 "?n1\<lparr>n_mem := m', n_efds := set_counter (n_efds ?n1) (ev_fd (h_respEv h)) (Suc k)\<rparr>" s']) (simp_all add: MaxNodes_def)
qed

text \<open>C5: A request makes the round trip. The hub hands the stripe of a connection that has a slot to an attached
  node, whose queue and whose response queue are empty: \<open>Next\<close> sends it, a turn of the node's event loop
  starts its processing, the node rebuilds exactly the hub's stripe and runs the handler, its answer
  makes one turn of the hub's dispatch loop wake the caller, and \<open>Next\<close> returns with the stripe as the
  handler left it: its contents are what the handler made of the request. The slot is done, the queues
  are empty again, the invariant of the hub holds and the connection can be sent on to the next node.\<close>

theorem request_round_trip:
  assumes h: "hub_ok os cas h" and nd: "map_of (h_nodes h) name = Some target" and at: "attached h target q n"
    and s: "bus_stripe (h_bus h) (h_mem h) as s" "set as \<inter> set cas = {}" "header_synced (h_mem h) s" and c: "has_slot h c s"
    and q: "queue_room (h_ctrl h) (h_mem h) q" "q_items (fget (h_ctrl h)) (h_mem h) q = []"
    and q0: "queue_room (h_ctrl h) (h_mem h) 0" "q_items (fget (h_ctrl h)) (h_mem h) 0 = []"
    and ev: "counter_room (h_efds h) (ni_nodeEv target)" "counter_room (h_efds h) (h_respEv h)"
    and hn: "\<forall>n. stripe_ok (n_mem n) s \<longrightarrow> handler_does f handler s n"
  shows "\<exists>h1 c1 n1 n2 h2 h3 s'.
    Next_send pool h c name = Some (None, h1, c1)
    \<and> event_turn (n\<lparr>n_mem := h_mem h1, n_efds := h_efds h1\<rparr>) = Some (None, n1) \<and> n_spawned n1 = n_spawned n @ [c_slotID c]
    \<and> processSlot (Some handler) n1 (c_slotID c) = Some n2
    \<and> dispatch_turn (h1\<lparr>h_mem := n_mem n2, h_efds := n_efds n2\<rparr>) = Some (Dispatch_continue, h2)
    \<and> Next_receive h2 c1 = Some (None, h3, c1\<lparr>c_Stripe := Some s'\<rparr>)
    \<and> contents (h_mem h3) s' = f (contents (h_mem h) s) \<and> bus_stripe (h_bus h3) (h_mem h3) as s' \<and> header_synced (h_mem h3) s'
    \<and> hub_ok os cas h3 \<and> h_bus h3 = h_bus h \<and> has_slot h3 (c1\<lparr>c_Stripe := Some s'\<rparr>) s'
    \<and> q_items (fget (h_ctrl h3)) (h_mem h3) q = [] \<and> q_items (fget (h_ctrl h3)) (h_mem h3) 0 = []"
proof -
  let ?t = "c_slotID c" and ?c1 = "c\<lparr>c_node := Some name, c_writeOff := 0, c_readOff := 0\<rparr>"
  have nd': "ni_nodeID target = int q" "\<not> ni_closed target" and qq: "0 < q" "q < MaxNodes" using at by (simp_all add: attached_def)
  obtain ch where C: "c_Stripe c = Some s" "valid_slot ?t" "c_done c = Some ch" using c by (auto simp: has_slot_def)
  obtain h1 where sd: "Next_send pool h c name = Some (None, h1, ?c1)" "request_sent h c s q (ni_nodeEv target) h1"
    by (rule Next_send_spec[OF h nd nd' s(1) c q(1) ev(1)])
  obtain n1 n2 s' where sv: "event_turn (n\<lparr>n_mem := h_mem h1, n_efds := h_efds h1\<rparr>) = Some (None, n1)" "n_spawned n1 = n_spawned n @ [?t]"
    "processSlot (Some handler) n1 ?t = Some n2" "served f (h_bus h) as (h_mem h) s (n_mem n2) s'"
    "fget (h_ctrl h) (n_mem n2) (SlotStatus ?t) = unat StripeStatusDone"
    "q_inv (fget (h_ctrl h)) (n_mem n2) 0" "q_items (fget (h_ctrl h)) (n_mem n2) 0 = [(?t, CMD_PROCESS)]"
    "q_items (fget (h_ctrl h)) (n_mem n2) q = []"
    by (rule request_served[OF h at s sd(2) C(2) q(2) q0 ev(2) hn])
  let ?h1 = "h1\<lparr>h_mem := n_mem n2, h_efds := n_efds n2\<rparr>"
  have R: "h_ctrl h1 = h_ctrl h" "h_bus h1 = h_bus h" "h_waiters h1 = (h_waiters h)[unat ?t := Some ch]" "h_chans h1 ch = []"
    using sd(2) C(3) by (simp_all add: request_sent_def)
  have ok1: "hub_ok os cas ?h1" using R by (intro hub_ok_changed[OF h]) simp_all
  have w: "h_waiters ?h1 ! unat ?t = Some ch"
    using R(3) C(2) hub_okD(6)[OF h] by (simp add: MaxTotalSlots_def word_le_nat_alt)
  obtain m' where d: "dispatch_turn ?h1 = Some (Dispatch_continue, ?h1\<lparr>h_mem := m', h_waiters := (h_waiters ?h1)[unat ?t := None], h_chans := (h_chans ?h1)(ch := [None])\<rparr>)"
    "q_inv (fget (h_ctrl ?h1)) m' 0" "q_items (fget (h_ctrl ?h1)) m' 0 = []"
    "\<forall>f. field_valid f \<longrightarrow> \<not> queue_field 0 f \<longrightarrow> fget (h_ctrl ?h1) m' f = fget (h_ctrl ?h1) (h_mem ?h1) f"
    "same_elsewhere (h_mem ?h1) m' (ctl_stripe (h_ctrl ?h1))"
    by (rule dispatch_response[OF ok1 _ _ C(2) w, of "[]"]) (use sv(6,7) R in simp_all)
  let ?h2 = "?h1\<lparr>h_mem := m', h_waiters := (h_waiters ?h1)[unat ?t := None], h_chans := (h_chans ?h1)(ch := [None])\<rparr>"
  let ?h3 = "?h2\<lparr>h_chans := (h_chans ?h2)(ch := [])\<rparr>"
  have S: "bus_stripe (h_bus h) (n_mem n2) as s'" "header_synced (n_mem n2) s'" "contents (n_mem n2) s' = f (contents (h_mem h) s)"
    "Blocks s' = Blocks s" "Sequence s' = Sequence s" "BlockCount s' = BlockCount s" using sv(4) by (simp_all add: served_def)
  note fr = hub_stripe_frame[OF h S(1) s(2), of m']
  have b3: "bus_stripe (h_bus ?h3) (h_mem ?h3) as s'" "header_synced (h_mem ?h3) s'" "contents (h_mem ?h3) s' = f (contents (h_mem h) s)"
    using fr d(5) S R(1,2) by simp_all
  have rf: "refreshStripe ?h3 ?c1 = Some (None, ?c1\<lparr>c_Stripe := Some s'\<rparr>)"
    by (rule refreshStripe_same[OF _ b3(1,2) S(4-6)]) (use C(1) in simp)
  have rc: "Next_receive ?h2 ?c1 = Some (None, ?h3, ?c1\<lparr>c_Stripe := Some s'\<rparr>)"
    by (rule Next_receive_ok[OF _ _ rf]) (use C(3) in simp_all)
  have ok3: "hub_ok os cas ?h3" by (rule hub_ok_changed[OF ok1]) simp_all
  have "\<forall>f. field_valid f \<longrightarrow> queue_field q f \<longrightarrow> fget (h_ctrl h) m' f = fget (h_ctrl h) (n_mem n2) f"
    using d(4) queue_apart[of q _ 0] qq(1) R(1) by simp
  from q_cong(2)[OF qq(2) this] sv(8) R(1) have q3: "q_items (fget (h_ctrl ?h3)) (h_mem ?h3) q = []" by simp
  have "fget (h_ctrl h) m' (SlotStatus ?t) = unat StripeStatusDone" using d(4) sv(5) C(2) R(1) by (simp add: queue_field_def)
  then have sl: "has_slot ?h3 (?c1\<lparr>c_Stripe := Some s'\<rparr>) s'" using C R(1) by (simp add: has_slot_def)
  show ?thesis
    by (intro exI[of _ h1] exI[of _ ?c1] exI[of _ n1] exI[of _ n2] exI[of _ ?h2] exI[of _ ?h3] exI[of _ s'] conjI sd(1) sv(1-3) d(1) rc b3 ok3 sl q3)
      (use R d(3) in simp_all)
qed

end
