(* ===== verification/Node_Write.thy ===== *)
theory Node_Write
  imports Request_Roundtrip
begin

text \<open>
  Writing in a handler. A node cannot allocate blocks, so it asks the hub to expand the stripe; the
  lemmas show what this comes to: a write succeeds exactly when it fits the stripe as the handler
  got it.
\<close>

subsection \<open>The expansion loop\<close>

lemma RequestExpand_stripe: "RequestExpand reply n c = Some (err, n', c') \<Longrightarrow> nc_stripe c' = nc_stripe c \<and> nc_writeOff c' = nc_writeOff c"
  by (auto simp: RequestExpand_def Let_def split: bind_splits if_splits)

text \<open>\<open>OnExpandComplete\<close> sets the blocks and the sequence but not the block count.\<close>

lemma OnExpandComplete_count: "OnExpandComplete n c = Returns c' \<Longrightarrow> BlockCount (nc_stripe c') = BlockCount (nc_stripe c) \<and> nc_writeOff c' = nc_writeOff c"
  by (auto simp: OnExpandComplete_def Let_def split: option.splits run.splits prod.splits)

definition expand_keeps :: "nodeConn \<Rightarrow> int \<Rightarrow> go_error option \<times> nodeState \<times> nodeConn \<Rightarrow> bool" where
  "expand_keeps c need r \<longleftrightarrow> (case r of (err, n', c') \<Rightarrow> BlockCount (nc_stripe c') = BlockCount (nc_stripe c) \<and> nc_writeOff c' = nc_writeOff c
     \<and> (err = None \<longrightarrow> need \<le> userCap c))"

lemma expand_loop_result: "expand_loop reply n c need = Some r \<Longrightarrow> expand_keeps c need r"
proof (rule expand_loop.raw_induct[rotated, where P = "\<lambda>reply n c need r. expand_keeps c need r"])
  fix loop reply n c need r
  assume IH: "\<And>reply n c need r. loop reply n c need = Some r \<Longrightarrow> expand_keeps c need r"
    and r: "(if need > userCap c then
        Option.bind (RequestExpand reply n c) (\<lambda>(err, n, c).
          case err of
            Some e \<Rightarrow> Some (Some e, n, c)
          | None \<Rightarrow>
              (case OnExpandComplete n c of
                 Returns c \<Rightarrow> loop reply n c need
               | Panics \<Rightarrow> None | Waits \<Rightarrow> None))
      else Some (None, n, c)) = Some r"
  show "expand_keeps c need r"
  proof (cases "need > userCap c")
    case False
    then show ?thesis using r by (auto simp: expand_keeps_def)
  next
    case True
    then obtain err n1 c1 where e: "RequestExpand reply n c = Some (err, n1, c1)" using r by (auto split: bind_splits)
    note s1 = RequestExpand_stripe[OF e]
    show ?thesis
    proof (cases err)
      case (Some x)
      then show ?thesis using r True e s1 by (auto simp: expand_keeps_def)
    next
      case None
      then obtain c2 where c2: "OnExpandComplete n1 c1 = Returns c2" "loop reply n1 c2 need = Some r"
        using r True e by (auto split: run.splits)
      have "userCap c2 = userCap c" using OnExpandComplete_count[OF c2(1)] s1 by (simp add: userCap_def)
      then show ?thesis using IH[OF c2(2)] OnExpandComplete_count[OF c2(1)] s1 by (auto simp: expand_keeps_def)
    qed
  qed
qed

lemma expand_loop_room: "need \<le> userCap c \<Longrightarrow> expand_loop reply n c need = Some (None, n, c)"
  by (simp add: expand_loop.simps)

lemma userCap_capacity: "BlockCount (nc_stripe c) = int (length (Blocks (nc_stripe c))) \<Longrightarrow> Blocks (nc_stripe c) \<noteq> [] \<Longrightarrow>
  userCap c = int (capacity (nc_stripe c))"
  by (cases "Blocks (nc_stripe c)") (simp_all add: userCap_def capacity_def algebra_simps)

subsection \<open>Writing\<close>

text \<open>C12: What a handler's \<open>WriteAt\<close> does on a stripe as \<open>processSlot\<close> builds it, for every answer the rest of the
  system gives to expansion requests. Beyond the size limit it fails at once. Inside the stripe's capacity
  it writes all the bytes, asks nobody, and touches nothing but the stripe. In between, beyond the
  capacity but below the limit, it never succeeds: the loop compares with the block count, which
  \<open>OnExpandComplete\<close> does not update, so it ends with an error or not at all.\<close>

theorem node_WriteAt_cases:
  assumes ok: "stripe_ok (n_mem n) (nc_stripe c)" and cnt: "BlockCount (nc_stripe c) = int (length (Blocks (nc_stripe c)))"
    and len: "off + length p < 2 ^ 62"
  shows "if off + length p > StripeDataSizeLimit then node_WriteAt reply n c p (int off) = Some (0, Some LimitReached, n, c)
    else if off + length p \<le> capacity (nc_stripe c) then
      (\<exists>m' s'. node_WriteAt reply n c p (int off) = Some (int (length p), None, n\<lparr>n_mem := m'\<rparr>, c\<lparr>nc_stripe := s'\<rparr>)
        \<and> written (n_mem n) (nc_stripe c) off p m' s')
    else (\<forall>k n' c'. node_WriteAt reply n c p (int off) \<noteq> Some (k, None, n', c'))"
proof -
  have i: "i64 (int off + int (length p)) = int (off + length p)" using len by (subst i64_id) simp_all
  have cap: "userCap c = int (capacity (nc_stripe c))" by (rule userCap_capacity[OF cnt stripe_okD(1)[OF ok]])
  consider "off + length p > StripeDataSizeLimit"
    | "off + length p \<le> StripeDataSizeLimit" "off + length p \<le> capacity (nc_stripe c)"
    | "off + length p \<le> StripeDataSizeLimit" "off + length p > capacity (nc_stripe c)" by linarith
  then show ?thesis
  proof cases
    case 1
    then show ?thesis by (simp add: node_WriteAt_def i Let_def)
  next
    case 2
    have "off < 2 ^ 62" using len by simp
    then obtain m' s' where "WriteAt (n_mem n) (nc_stripe c) p (int off) = Some (m', s', int (length p), None)"
      "written (n_mem n) (nc_stripe c) off p m' s'"
      by (rule WriteAt_spec[OF ok, of off p]) (use 2(2) in simp)
    moreover from this(1) have "node_WriteAt reply n c p (int off) = Some (int (length p), None, n\<lparr>n_mem := m'\<rparr>, c\<lparr>nc_stripe := s'\<rparr>)"
      using 2 by (simp add: node_WriteAt_def i Let_def expand_loop_room cap)
    moreover have "\<not> off + length p > StripeDataSizeLimit" using 2(1) by simp
    ultimately show ?thesis using if_P[OF 2(2)] if_not_P by metis
  next
    case 3
    have "node_WriteAt reply n c p (int off) \<noteq> Some (k, None, n', c')" for k n' c'
    proof
      assume w: "node_WriteAt reply n c p (int off) = Some (k, None, n', c')"
      then obtain n1 c1 where "expand_loop reply n c (int (off + length p)) = Some (None, n1, c1)"
        using 3(1) by (auto simp: node_WriteAt_def i Let_def split: bind_splits option.splits)
      from expand_loop_result[OF this] show False using 3(2) cap by (simp add: expand_keeps_def)
    qed
    then show ?thesis using 3 by simp
  qed
qed

text \<open>Unlike \<open>Write\<close>, \<open>WriteByte\<close> does not move the write offset: whatever the outcome, the next write goes to
  the same place, so that a second \<open>WriteByte\<close> overwrites the first.\<close>

theorem node_WriteByte_stays:
  assumes "node_WriteByte reply n c b = Some (err, n', c')"
  shows "nc_writeOff c' = nc_writeOff c"
proof (cases "i64 (nc_writeOff c + 1) > int StripeDataSizeLimit")
  case True
  then show ?thesis using assms by (simp add: node_WriteByte_def Let_def)
next
  case False
  then obtain e n1 c1 where "expand_loop reply n c (i64 (nc_writeOff c + 1)) = Some (e, n1, c1)"
    "nc_writeOff c' = nc_writeOff c1"
    using assms by (auto simp: node_WriteByte_def Let_def split: bind_splits option.splits)
  with expand_loop_result[OF this(1)] show ?thesis by (simp add: expand_keeps_def)
qed

subsection \<open>A handler that answers\<close>

text \<open>The handler that writes the response \<open>data\<close> over the request.\<close>

definition respond :: "byte list \<Rightarrow> reply \<Rightarrow> handler" where
  "respond data reply n c =
     (case node_WriteAt reply n c data 0 of
        None \<Rightarrow> (n, Waits)
      | Some (k, err, n, c) \<Rightarrow> (n, Returns c))"

lemma respond_does:
  assumes s: "bus_stripe b m as s" and len: "length data \<le> capacity s" "length data \<le> StripeDataSizeLimit" and ok: "stripe_ok (n_mem n) s"
  shows "handler_does (\<lambda>req. data @ drop (length data) req) (respond data reply) s n"
  unfolding handler_does_def Let_def
proof (intro allI)
  fix t
  let ?c = "\<lparr>nc_stripe = s, nc_readOff = 0, nc_writeOff = 0, nc_slotID = t, nc_failed = False\<rparr>"
  have cnt: "BlockCount s = int (length (Blocks s))" using s by (simp add: bus_stripe_def stripe_blocks_def)
  have cap: "userCap ?c = int (capacity s)" using userCap_capacity[of ?c] cnt stripe_okD(1)[OF ok] by simp
  have l: "length data < 2 ^ 62" using len(2) by (simp add: StripeDataSizeLimit_def BlockSize_def)
  obtain m' s' where w: "WriteAt (n_mem n) s data (int 0) = Some (m', s', int (length data), None)" "written (n_mem n) s 0 data m' s'"
    by (rule WriteAt_spec[OF ok, of 0 data]) (use len(1) in simp_all)
  have "i64 (int (length data)) = int (length data)" using l by (subst i64_id) simp_all
  then have "node_WriteAt reply n ?c data 0 = Some (int (length data), None, n\<lparr>n_mem := m'\<rparr>, ?c\<lparr>nc_stripe := s'\<rparr>)"
    using len w(1) cap by (simp add: node_WriteAt_def Let_def expand_loop_room)
  then have "respond data reply n ?c = (n\<lparr>n_mem := m'\<rparr>, Returns (?c\<lparr>nc_stripe := s'\<rparr>))" by (simp add: respond_def)
  moreover have "contents m' s' = data @ drop (length data) (contents (n_mem n) s)"
    using written_contents[OF ok w(2)] len(1) by (simp add: write_over_def)
  ultimately show "\<exists>m' s' conn'. respond data reply n ?c = (n\<lparr>n_mem := m'\<rparr>, Returns conn') \<and> \<not> nc_failed conn' \<and> nc_stripe conn' = s'
         \<and> stripe_ok m' s' \<and> Blocks s' = Blocks s \<and> Sequence s' = Sequence s \<and> BlockCount s' = BlockCount s
         \<and> header_rest m' s' = header_rest (n_mem n) s \<and> same_elsewhere (n_mem n) m' s
         \<and> contents m' s' = data @ drop (length data) (contents (n_mem n) s)"
    using written_fields[OF w(2)] by (intro exI[of _ m'] exI[of _ s'] exI[of _ "?c\<lparr>nc_stripe := s'\<rparr>"]) simp
qed

subsection \<open>An example\<close>

lemma sequence_length: "length (append_sequence c [] blks) \<le> 2 * length blks"
  by (induction blks arbitrary: c) (auto simp: append_sequence_Cons le_SucI simp del: append_sequence.simps(2) split: if_splits)

definition ex_target :: NodeInfo where
  "ex_target = \<lparr>ni_nodeID = 1, ni_conn = [], ni_send_err = (\<lambda>_. None), ni_sends = 0, ni_nodeEv = \<lparr>ev_fd = 7\<rparr>, ni_closed = False\<rparr>"

text \<open>The state of a node that is attached to the hub \<open>h\<close> as its first node.\<close>

definition ex_node :: "hub \<Rightarrow> nodeState" where
  "ex_node h = \<lparr>n_nodeID = 1, n_ctrl = Some (NewControl (ctl_stripe (h_ctrl h))), n_nodeEv = Some \<lparr>ev_fd = 7\<rparr>, n_hubEv = Some \<lparr>ev_fd = 5\<rparr>,
     n_chunks = chunks (h_bus h), n_mem = h_mem h, n_efds = h_efds h, n_waiters = Map.empty, n_answers = [], n_spawned = []\<rparr>"

lemma ex_scene:
  obtains h c s as where "hub_ok ex_os [0..<256] h" "map_of (h_nodes h) ''n'' = Some ex_target" "attached h ex_target 1 (ex_node h)"
    "bus_stripe (h_bus h) (h_mem h) as s" "set as \<inter> set [0..<256] = {}" "header_synced (h_mem h) s" "has_slot h c s" "capacity s = 4096"
    "\<forall>q<MaxNodes. queue_room (h_ctrl h) (h_mem h) q \<and> q_items (fget (h_ctrl h)) (h_mem h) q = []"
    "counter_room (h_efds h) \<lparr>ev_fd = 7\<rparr>" "counter_room (h_efds h) \<lparr>ev_fd = 5\<rparr>" "h_respEv h = \<lparr>ev_fd = 5\<rparr>"
    "card (used (h_bus h)) \<le> 258" "length as = 2"
    "\<forall>t. valid_slot t \<longrightarrow> t \<noteq> c_slotID c \<longrightarrow> t \<noteq> 4096 \<longrightarrow> fget (h_ctrl h) (h_mem h) (SlotStatus t) = 0"
proof (rule ex_hub)
  fix h0 k
  assume h0: "hub_ok ex_os [0..<256] h0" "used (h_bus h0) = {..<256}" "h_limit h0 = 0"
    and q0: "\<forall>q<MaxNodes. q_inv (fget (h_ctrl h0)) (h_mem h0) q \<and> q_items (fget (h_ctrl h0)) (h_mem h0) q = [] \<and> fget (h_ctrl h0) (h_mem h0) (QTail q) = 0"
    and idle: "\<forall>s. 1 \<le> s \<and> s < 4096 \<longrightarrow> fget (h_ctrl h0) (h_mem h0) (SlotStatus s) = 0"
  have free: "\<not> (\<forall>t. valid_slot t \<longrightarrow> fget (h_ctrl h0) (h_mem h0) (SlotStatus t) \<noteq> 0)"
    using idle[rule_format, of 1] by (intro notI) (erule allE[of _ 1], simp)
  obtain c h1 s as where o: "opened ex_os [0..<256] True 0 h0 1 h1 c s as"
    by (rule Request_spec[OF h0(1) _ makeable, of True 1 0]) (use h0(2,3) ex_os_succeeds free in \<open>auto simp: MaxTotalSlots_def\<close>)
  have o1: "hub_ok ex_os [0..<256] h1" "bus_stripe (h_bus h1) (h_mem h1) as s" "length as = 2" "set as \<inter> used (h_bus h0) = {}"
    "c_Stripe c = Some s" "c_done c = Some 0" "valid_slot (c_slotID c)" "fget (h_ctrl h1) = fget (h_ctrl h0)"
    "fget (h_ctrl h0) (h_mem h1) (SlotStatus (c_slotID c)) = unat StripeStatusReady" "length (Sequence s) \<le> seq_capacity \<longrightarrow> header_synced (h_mem h1) s"
    using o by (simp_all add: opened_def)
  have st: "stripe_blocks (chunks (h_bus h1)) as s" using o1(2) by (simp add: bus_stripe_def)
  have sy: "header_synced (h_mem h1) s"
    using o1(10) st sequence_length[of 0 "map (block_of (chunks (h_bus h1))) as"] o1(3) by (simp add: stripe_blocks_def seq_capacity_eq)
  have cap: "capacity s = 4096" using st o1(3) by (simp add: capacity_def stripe_blocks_def BlockSize_def)
  have fields: "\<forall>f. field_valid f \<longrightarrow> queue_field q f \<longrightarrow> fget (h_ctrl h0) (h_mem h1) f = fget (h_ctrl h0) (h_mem h0) f" for q
    using o queue_other unfolding opened_def by metis
  have qs: "queue_room (h_ctrl h1) (h_mem h1) q \<and> q_items (fget (h_ctrl h1)) (h_mem h1) q = []" if "q < MaxNodes" for q
    using q0 that q_cong[OF that fields] by (simp add: queue_room_def o1(8) QueueSize_def)
  let ?h = "h1\<lparr>h_nodes := [(''n'', ex_target)], h_efds := ex_efds\<lparr>counters := [5 \<mapsto> 0, 7 \<mapsto> 0]\<rparr>, h_respEv := \<lparr>ev_fd = 5\<rparr>\<rparr>"
  have ok: "hub_ok ex_os [0..<256] ?h" by (rule hub_ok_changed[OF o1(1)]) simp_all
  have dj: "set as \<inter> set [0..<256] = {}" using o1(4) h0(2) by (auto simp del: upt_rec_numeral)
  have cd: "card (used (h_bus h1)) \<le> 258"
    using o card_Un_le[of "used (h_bus h0)" "set as"] card_length[of as] h0(2) by (simp add: opened_def)
  have idle1: "\<forall>t. valid_slot t \<longrightarrow> t \<noteq> c_slotID c \<longrightarrow> t \<noteq> 4096 \<longrightarrow> fget (h_ctrl h1) (h_mem h1) (SlotStatus t) = 0"
    using opened_status[OF o] idle unfolding o1(8) by (metis less_le)
  have at: "attached ?h ex_target 1 (ex_node ?h)"
    by (simp add: attached_def ex_node_def ex_target_def NewControl_def same_chunks_def MaxNodes_def)
  show thesis
    by (rule that[where c = c, OF ok _ at _ dj]) (use o1 sy cap qs cd idle1 in \<open>simp_all add: has_slot_def counter_room_def\<close>)
qed

theorem request_round_trip_witness:
  "\<exists>h c s. has_slot h c s \<and> (\<exists>h1 c1 n1 n2 h2 h3 s'. Next_send 0 h c ''n'' = Some (None, h1, c1)
    \<and> event_turn ((ex_node h)\<lparr>n_mem := h_mem h1, n_efds := h_efds h1\<rparr>) = Some (None, n1)
    \<and> processSlot (Some (respond [4, 2] (\<lambda>_. None))) n1 (c_slotID c) = Some n2
    \<and> dispatch_turn (h1\<lparr>h_mem := n_mem n2, h_efds := n_efds n2\<rparr>) = Some (Dispatch_continue, h2)
    \<and> Next_receive h2 c1 = Some (None, h3, c1\<lparr>c_Stripe := Some s'\<rparr>)
    \<and> contents (h_mem h3) s' = [4, 2] @ drop 2 (contents (h_mem h) s))"
proof (rule ex_scene)
  fix h c s as
  assume e: "hub_ok ex_os [0..<256] h" "map_of (h_nodes h) ''n'' = Some ex_target" "attached h ex_target 1 (ex_node h)"
    "bus_stripe (h_bus h) (h_mem h) as s" "set as \<inter> set [0..<256] = {}" "header_synced (h_mem h) s" "has_slot h c s" "capacity s = 4096"
    and q: "\<forall>q<MaxNodes. queue_room (h_ctrl h) (h_mem h) q \<and> q_items (fget (h_ctrl h)) (h_mem h) q = []"
    and ev: "counter_room (h_efds h) \<lparr>ev_fd = 7\<rparr>" "counter_room (h_efds h) \<lparr>ev_fd = 5\<rparr>" "h_respEv h = \<lparr>ev_fd = 5\<rparr>"
  have q1: "queue_room (h_ctrl h) (h_mem h) 1" "q_items (fget (h_ctrl h)) (h_mem h) 1 = []"
    "queue_room (h_ctrl h) (h_mem h) 0" "q_items (fget (h_ctrl h)) (h_mem h) 0 = []"
    using q by (simp_all add: MaxNodes_def)
  have ev': "counter_room (h_efds h) (ni_nodeEv ex_target)" "counter_room (h_efds h) (h_respEv h)" using ev by (simp_all add: ex_target_def)
  have "\<forall>n. stripe_ok (n_mem n) s \<longrightarrow> handler_does (\<lambda>req. [4, 2] @ drop (length [4, 2 :: byte]) req) (respond [4, 2] (\<lambda>_. None)) s n"
    using e(8) by (intro allI impI respond_does[OF e(4)]) (simp_all add: StripeDataSizeLimit_def BlockSize_def)
  note r = request_round_trip[OF e(1-7) q1 ev' this, of 0]
  have "length [4, 2 :: byte] = 2" by simp
  from r[unfolded this] e(7) show ?thesis by blast
qed

theorem event_turn_drains_witness:
  "\<exists>h h1 c c1 n1. Next_send 0 h c ''n'' = Some (None, h1, c1)
    \<and> event_turn ((ex_node h)\<lparr>n_mem := h_mem h1, n_efds := h_efds h1\<rparr>) = Some (None, n1) \<and> n_spawned n1 = [c_slotID c]"
proof (rule ex_scene)
  fix h c s as
  assume e: "hub_ok ex_os [0..<256] h" "map_of (h_nodes h) ''n'' = Some ex_target" "attached h ex_target 1 (ex_node h)"
    "bus_stripe (h_bus h) (h_mem h) as s" "has_slot h c s"
    and q: "\<forall>q<MaxNodes. queue_room (h_ctrl h) (h_mem h) q \<and> q_items (fget (h_ctrl h)) (h_mem h) q = []"
    and ev: "counter_room (h_efds h) \<lparr>ev_fd = 7\<rparr>"
  have q1: "queue_room (h_ctrl h) (h_mem h) 1" "q_items (fget (h_ctrl h)) (h_mem h) 1 = []" using q by (simp_all add: MaxNodes_def)
  have t: "ni_nodeID ex_target = int 1" "\<not> ni_closed ex_target" "counter_room (h_efds h) (ni_nodeEv ex_target)"
    using ev by (simp_all add: ex_target_def)
  obtain h1 where sd: "Next_send 0 h c ''n'' = Some (None, h1, c\<lparr>c_node := Some ''n'', c_writeOff := 0, c_readOff := 0\<rparr>)"
    "request_sent h c s 1 (ni_nodeEv ex_target) h1"
    by (rule Next_send_spec[OF e(1,2) t(1,2) e(4,5) q1(1) t(3)])
  let ?n = "(ex_node h)\<lparr>n_mem := h_mem h1, n_efds := h_efds h1\<rparr>" and ?c = "NewControl (ctl_stripe (h_ctrl h))"
  have ctl: "ctl_ok ?c" "fget ?c = fget (h_ctrl h)" using ctl_cong[of ?c "h_ctrl h"] hub_okD(3)[OF e(1)] by (simp_all add: NewControl_def)
  obtain k where r: "q_inv (fget ?c) (n_mem ?n) 1" "q_items (fget ?c) (n_mem ?n) 1 = [(c_slotID c, CMD_PROCESS)]"
    "eventfd_kernel (n_efds ?n)" "counters (n_efds ?n) (ev_fd \<lparr>ev_fd = 7\<rparr>) = Some (Suc k)"
    using sd(2) q1(2) ev by (auto simp: request_sent_def ctl(2) ex_target_def counter_room_def)
  have rel: "\<forall>t\<in>released (q_items (fget ?c) (n_mem ?n) 1). valid_slot t" using r(2) cmds_distinct by (simp add: released_def)
  have "1 < MaxNodes" "n_ctrl ?n = Some ?c" "n_nodeID ?n = int 1" "n_nodeEv ?n = Some \<lparr>ev_fd = 7\<rparr>"
    by (simp_all add: MaxNodes_def ex_node_def)
  note turn = event_turn_drains[OF this(2) ctl(1) this(3,1) r(1) rel this(4) r(3,4)]
  have "\<not> (\<exists>item\<in>set (q_items (fget ?c) (n_mem ?n) 1). stray_answer ?n item)" unfolding r(2) by (simp add: stray_answer_def ex_node_def)
  from turn[unfolded if_not_P[OF this]] obtain m' where "event_turn ?n = Some (None, (fold take_cmd (q_items (fget ?c) (n_mem ?n) 1) ?n)
        \<lparr>n_efds := set_counter (n_efds ?n) (ev_fd \<lparr>ev_fd = 7\<rparr>) 0, n_mem := m'\<rparr>)" by blast
  moreover have "n_spawned (fold take_cmd (q_items (fget ?c) (n_mem ?n) 1) ?n) = [c_slotID c]"
    unfolding r(2) by (simp add: take_cmd_def ex_node_def)
  ultimately show ?thesis using sd(1) by (intro exI conjI) (assumption, assumption, simp)
qed

text \<open>The connection of a handler on the stripe of the example.\<close>

definition ex_conn :: "stripe \<Rightarrow> nodeConn" where
  "ex_conn s = \<lparr>nc_stripe = s, nc_readOff = 0, nc_writeOff = 0, nc_slotID = 1, nc_failed = False\<rparr>"

theorem node_WriteAt_cases_witness:
  "\<exists>h s. capacity s = 4096
    \<and> node_WriteAt (\<lambda>_. None) (ex_node h) (ex_conn s) (replicate 2097153 0) (int 0) = Some (0, Some LimitReached, ex_node h, ex_conn s)
    \<and> (\<exists>m' s'. node_WriteAt (\<lambda>_. None) (ex_node h) (ex_conn s) [1] (int 4095) =
         Some (1, None, (ex_node h)\<lparr>n_mem := m'\<rparr>, (ex_conn s)\<lparr>nc_stripe := s'\<rparr>))
    \<and> (\<forall>k n' c'. node_WriteAt (\<lambda>_. None) (ex_node h) (ex_conn s) [1] (int 4096) \<noteq> Some (k, None, n', c'))"
proof (rule ex_scene)
  fix h :: hub and c s as
  assume e: "bus_stripe (h_bus h) (h_mem h) as s" "capacity s = 4096"
  have lim: "StripeDataSizeLimit = 2097152" by (simp add: StripeDataSizeLimit_def BlockSize_def)
  have ok: "stripe_ok (n_mem (ex_node h)) (nc_stripe (ex_conn s))" using e(1) by (simp add: bus_stripe_def ex_node_def ex_conn_def)
  have cnt: "BlockCount (nc_stripe (ex_conn s)) = int (length (Blocks (nc_stripe (ex_conn s))))"
    using e(1) by (simp add: bus_stripe_def stripe_blocks_def ex_conn_def)
  note W = node_WriteAt_cases[OF ok cnt, of _ _ "\<lambda>_. None"]
  have l: "0 + length (replicate 2097153 (0 :: byte)) < 2 ^ 62" "4095 + length [1 :: byte] < 2 ^ 62" "4096 + length [1 :: byte] < 2 ^ 62"
    "0 + length (replicate 2097153 (0 :: byte)) > 2097152" "\<not> 4095 + length [1 :: byte] > 2097152" "4095 + length [1 :: byte] \<le> 4096"
    "\<not> 4096 + length [1 :: byte] > 2097152" "\<not> 4096 + length [1 :: byte] \<le> 4096"
    unfolding length_replicate by simp_all
  have s: "nc_stripe (ex_conn s) = s" by (simp add: ex_conn_def)
  have one: "int (length [1 :: byte]) = 1" by simp
  note W1 = W[OF l(1), unfolded lim s e(2) if_P[OF l(4)]] and W2 = W[OF l(2), unfolded lim s e(2) if_not_P[OF l(5)] if_P[OF l(6)] one]
    and W3 = W[OF l(3), unfolded lim s e(2) if_not_P[OF l(7)] if_not_P[OF l(8)]]
  show ?thesis by (intro exI[of _ h] exI[of _ s] conjI e(2) W1 W3) (use W2 in blast)
qed

theorem node_WriteByte_stays_witness:
  "\<exists>h s err n' c'. node_WriteByte (\<lambda>_. None) (ex_node h) (ex_conn s) 9 = Some (err, n', c') \<and> nc_writeOff c' = 0"
proof (rule ex_scene)
  fix h :: hub and c s as
  assume e: "bus_stripe (h_bus h) (h_mem h) as s" "capacity s = 4096"
  have ok: "stripe_ok (h_mem h) s" and cnt: "BlockCount s = int (length (Blocks s))"
    using e(1) by (simp_all add: bus_stripe_def stripe_blocks_def)
  have cap: "userCap (ex_conn s) = 4096" using userCap_capacity[of "ex_conn s"] cnt stripe_okD(1)[OF ok] e(2) by (simp add: ex_conn_def)
  obtain m' s' where w: "WriteAt (h_mem h) s [9] (int 0) = Some (m', s', 1, None)"
    by (rule WriteAt_spec[OF ok, of 0 "[9]"]) (use e(2) in simp_all)
  have "i64 1 = 1" by (subst i64_id) simp_all
  then have "node_WriteByte (\<lambda>_. None) (ex_node h) (ex_conn s) 9 = Some (None, (ex_node h)\<lparr>n_mem := m'\<rparr>, (ex_conn s)\<lparr>nc_stripe := s'\<rparr>)"
    using w cap by (simp add: node_WriteByte_def WriteByteAt_eq_WriteAt expand_loop_room StripeDataSizeLimit_def BlockSize_def ex_conn_def ex_node_def)
  note this node_WriteByte_stays[OF this]
  then show ?thesis by (intro exI conjI) (assumption, simp add: ex_conn_def)
qed

end
