(* ===== verification/Expand_Handover.thy ===== *)
theory Expand_Handover
  imports Node_Write
begin

text \<open>
  Expansion requests: the hub grows the stripe of a slot on behalf of the node that owns it
  (\<open>handleExpandRequest\<close>), and both sides take over the new blocks from the header.
\<close>

subsection \<open>Growing a stripe known by its header only\<close>

text \<open>The hub rebuilds only the header block of the stripe; the allocation does not look at the others.\<close>

definition same_header :: "stripe \<Rightarrow> stripe \<Rightarrow> bool" where
  "same_header s s' \<longleftrightarrow> Blocks s \<noteq> [] \<and> Blocks s' \<noteq> [] \<and> Blocks s' ! 0 = Blocks s ! 0 \<and> Sequence s' = Sequence s
     \<and> BlockCount s' = BlockCount s \<and> DataLen s' = DataLen s"

lemma UpdateStripeHeader_header: "same_header s s' \<Longrightarrow> UpdateStripeHeader m s' = UpdateStripeHeader m s"
  by (simp add: same_header_def UpdateStripeHeader_def go_nth_def)

lemma AllocBlocksForStripe_header:
  assumes "same_header s s0" "AllocBlocksForStripe os m b s n = Some (err, s1, m1, b1)"
  obtains s2 where "AllocBlocksForStripe os m b s0 n = Some (err, s2, m1, b1)" "same_header s1 s2"
proof -
  obtain res b2 where al: "AllocBlocks os b n = Some (res, b2)" using assms(2) by (auto simp: AllocBlocksForStripe_def split: bind_splits)
  show ?thesis
  proof (cases res)
    case (Inl e)
    then show ?thesis using assms al that[of s0] by (simp add: AllocBlocksForStripe_def)
  next
    case (Inr blks)
    let ?f = "\<lambda>s. s\<lparr>Sequence := append_sequence (last_chunk (rev (Sequence s))) (Sequence s) blks, Blocks := Blocks s @ map bk_Data blks,
      BlockCount := BlockCount s + int (length blks)\<rparr>"
    have sh: "same_header (?f s) (?f s0)" using assms(1) by (simp add: same_header_def nth_append)
    have "UpdateStripeHeader m (?f s0) = UpdateStripeHeader m (?f s)" by (rule UpdateStripeHeader_header[OF sh])
    then have "AllocBlocksForStripe os m b s0 n = Some (err, ?f s0, m1, b1)" "s1 = ?f s"
      using assms(2) al Inr by (auto simp: AllocBlocksForStripe_def Let_def split: bind_splits)
    then show ?thesis using that sh by blast
  qed
qed

subsection \<open>The answer\<close>

lemma find_node_put_bus:
  assumes "find_node h q = Some target"
  obtains target' where "find_node (put_bus h b) q = Some target'" "ni_nodeID target' = ni_nodeID target" "ni_closed target' = ni_closed target"
    "ni_nodeEv target' = ni_nodeEv target"
proof -
  let ?same = "\<lambda>t t'. ni_nodeID t' = ni_nodeID t \<and> ni_closed t' = ni_closed t \<and> ni_nodeEv t' = ni_nodeEv t"
  have step: "\<exists>t'. find_node (AppendedChunkBroacast g c) q = Some t' \<and> ?same t t'" if "find_node g q = Some t" for g c t
  proof -
    have "map_option snd (List.find (\<lambda>(_, n). ni_nodeID n = q) (map (\<lambda>(name, n). (name, syncChunk n fds)) xs)) =
        map_option (\<lambda>n. syncChunk n fds) (map_option snd (List.find (\<lambda>(_, n). ni_nodeID n = q) xs))" for xs :: "(string \<times> NodeInfo) list" and fds
      by (induction xs) auto
    then have "find_node (AppendedChunkBroacast g c) q = map_option (\<lambda>n. syncChunk n [ck_Fd c]) (find_node g q)"
      unfolding find_node_def AppendedChunkBroacast_def by simp
    then show ?thesis using that by (intro exI[of _ "syncChunk t [ck_Fd c]"]) simp
  qed
  have "\<exists>t'. find_node (foldl AppendedChunkBroacast g xs) q = Some t' \<and> ?same t t'" if "find_node g q = Some t" for g xs t
    using that
  proof (induction xs arbitrary: g t)
    case (Cons x xs)
    from step[OF Cons.prems, of x] Cons.IH show ?case by fastforce
  qed simp
  from this[of "h\<lparr>h_bus := b\<rparr>" target] assms show ?thesis using that by (auto simp: put_bus_def find_node_def)
qed

lemma expandResponse_spec:
  assumes c: "ctl_ok (h_ctrl h)" and nd: "find_node h (int q) = Some target" "ni_nodeID target = int q" "\<not> ni_closed target"
    and q: "queue_room (h_ctrl h) (h_mem h) q" and ev: "counter_room (h_efds h) (ni_nodeEv target)" and cmd: "cmd AND NOT Q_READY_BIT = cmd"
  obtains m' k where "expandResponse h (int q) t cmd = Some (h\<lparr>h_mem := m', h_efds := set_counter (h_efds h) (ev_fd (ni_nodeEv target)) (Suc k)\<rparr>)"
    "pushed (h_ctrl h) (h_mem h) q (t, cmd) m'"
proof -
  obtain m' where m': "push_retry_loop False (h_mem h) (h_ctrl h) (GetNodeReqQueueOffset q) t cmd = Some (m', None)"
    "pushed (h_ctrl h) (h_mem h) q (t, cmd) m'"
    by (rule push_retry_room[OF c q cmd])
  obtain k where "Notify (h_efds h) (ni_nodeEv target) = Some (None, set_counter (h_efds h) (ev_fd (ni_nodeEv target)) (Suc k))"
    by (rule Notify_room[OF ev])
  then have "expandResponse h (int q) t cmd = Some (h\<lparr>h_mem := m', h_efds := set_counter (h_efds h) (ev_fd (ni_nodeEv target)) (Suc k)\<rparr>)"
    using m'(1) nd by (simp add: expandResponse_def pushToNode_def notify_def)
  then show ?thesis using that m'(2) by blast
qed

subsection \<open>Taking over the new blocks\<close>

lemma OnExpandComplete_grown:
  assumes ok: "bus_ok b" and s: "stripe_blocks (chunks b) as s" and s': "bus_stripe b (n_mem n) (as @ new) s'" "header_synced (n_mem n) s'"
    and n: "n_ctrl n = Some ctl" "same_chunks (chunks b) (n_chunks n)"
    and h: "GetStripeHeader (n_mem n) ctl (nc_slotID c) = Some (Sequence s' ! 0, Sequence s' ! 1)" and c: "nc_stripe c = s" "DataLen s' = DataLen s"
  shows "OnExpandComplete n c = Returns (c\<lparr>nc_stripe := s'\<lparr>BlockCount := BlockCount s\<rparr>\<rparr>)"
proof -
  have sub: "set (as @ new) \<subseteq> {..<1024 * length (chunks b)}" "stripe_blocks (chunks b) (as @ new) s'"
    using s'(1) used_subset[OF ok] unfolding bus_stripe_def by blast+
  note g = expand_blocks_grown[OF bus_okD(1)[OF ok] n(2) sub(1) s sub(2)]
  have "s\<lparr>Blocks := Blocks s', Sequence := Sequence s'\<rparr> = s'\<lparr>BlockCount := BlockCount s\<rparr>" using c(2) by (cases s; cases s') simp
  then show ?thesis
    using g slot_header_spec[OF ok s' n(2) h] n(1) c(1) by (simp add: OnExpandComplete_def Let_def)
qed

lemma refreshStripe_grown:
  assumes ok: "bus_ok (h_bus h)" and s: "stripe_blocks (chunks (h_bus h)) as s" "Blocks s \<noteq> []"
    and s': "bus_stripe (h_bus h) (h_mem h) (as @ new) s'" "header_synced (h_mem h) s'" and new: "new \<noteq> []" and c: "c_Stripe c = Some s"
  shows "refreshStripe h c = Some (None, c\<lparr>c_Stripe := Some s'\<rparr>)"
proof -
  have sub: "set (as @ new) \<subseteq> {..<1024 * length (chunks (h_bus h))}" "stripe_blocks (chunks (h_bus h)) (as @ new) s'"
    using s'(1) used_subset[OF ok] unfolding bus_stripe_def by blast+
  note g = refresh_blocks_grown[OF ok sub(1) s(1) sub(2)]
  have hd: "go_nth (Blocks s) 0 = Some (Blocks s' ! 0)" using s(2) g(2) by (simp add: go_nth_def nth_append)
  have cnt: "BlockCount s' \<noteq> BlockCount s" using s(1) sub(2) new by (simp add: stripe_blocks_def)
  have "s\<lparr>BlockCount := BlockCount s', Blocks := Blocks s', Sequence := Sequence s', DataLen := DataLen s'\<rparr> = s'" by (cases s; cases s') simp
  then show ?thesis using g hd cnt c s'(2) by (simp add: refreshStripe_def header_synced_def)
qed

subsection \<open>The request\<close>

lemma header_block:
  assumes ok: "bus_ok b" and st: "bus_stripe b m as s"
  shows "hub_get b (Sequence s ! 0) (Sequence s ! 1) = Some (Blocks s ! 0)" "0 < BlockCount s"
proof -
  obtain a as' where as: "as = a # as'" using st by (cases as) (auto simp: bus_stripe_def)
  have a: "a < 1024 * length (chunks b)" "a < 65536" using st used_subset[OF ok] chunks_ok_bound[OF bus_okD(1)[OF ok]] as by (auto simp: bus_stripe_def)
  have sb: "stripe_blocks (chunks b) (a # as') s" using st as by (simp add: bus_stripe_def)
  show "hub_get b (Sequence s ! 0) (Sequence s ! 1) = Some (Blocks s ! 0)"
    using hub_get_of[OF ok a(1)] by (simp add: stripe_head[OF sb a(2)])
  show "0 < BlockCount s" using sb by (simp add: stripe_blocks_def)
qed

lemma same_head_ids:
  assumes "bus_ok b" "bus_stripe b m as s" "bus_ok b'" "bus_stripe b' m' (as @ new) s'"
  shows "Sequence s' ! 0 = Sequence s ! 0" "Sequence s' ! 1 = Sequence s ! 1"
proof -
  obtain a as' where as: "as = a # as'" using assms(2) by (cases as) (auto simp: bus_stripe_def)
  have a: "a < 65536" using bus_addr_bound[OF assms(1), of as] assms(2) as by (auto simp: bus_stripe_def)
  have "stripe_blocks (chunks b) (a # as') s" "stripe_blocks (chunks b') (a # as' @ new) s'" using assms(2,4) as by (simp_all add: bus_stripe_def)
  from stripe_head(1)[OF this(1) a] stripe_head(1)[OF this(2) a]
  show "Sequence s' ! 0 = Sequence s ! 0" "Sequence s' ! 1 = Sequence s ! 1" by simp_all
qed

text \<open>The first part of \<open>handleExpandRequest\<close>, up to the answer.\<close>

lemma handleExpandRequest_grows:
  assumes h: "hub_ok os cas h" and s: "bus_stripe (h_bus h) (h_mem h) as s" "set as \<inter> set cas = {}" "header_synced (h_mem h) s"
    and t: "valid_slot t" "GetStripeHeader (h_mem h) (h_ctrl h) t = Some (Sequence s ! 0, Sequence s ! 1)"
    and owner: "fget (h_ctrl h) (h_mem h) (SlotOwner t) = q" "q < MaxNodes" and os: "os_succeeds os" "2 + card (used (h_bus h)) \<le> 65536"
  obtains b m s' new where
    "handleExpandRequest os h (int q) t = expandResponse ((put_bus h b)\<lparr>h_mem := m\<rparr>) (int q) t CMD_EXPAND_READY"
    "hub_ok os cas ((put_bus h b)\<lparr>h_mem := m\<rparr>)" "bus_stripe b m (as @ new) s'" "length new = 2" "set new \<inter> used (h_bus h) = {}"
    "used b = used (h_bus h) \<union> set new" "grows (h_bus h) b" "DataLen s' = DataLen s" "contents m s' = contents (h_mem h) s"
    "capacity s' = capacity s + 2 * BlockSize" "length (Sequence s') \<le> seq_capacity \<longrightarrow> header_synced m s'"
    "\<forall>f. field_valid f \<longrightarrow> fget (h_ctrl h) m f = fget (h_ctrl h) (h_mem h) f"
    "\<forall>r i. \<not> covers (Blocks s') r i \<longrightarrow> m r i = h_mem h r i"
proof -
  note H = hub_okD[OF h]
  let ?s0 = "\<lparr>Sequence = Sequence s, BlockCount = BlockCount s, Blocks = Blocks s ! 0 # replicate (nat (BlockCount s) - 1) nil_slice, DataLen = DataLen s\<rparr>"
  have ok: "stripe_ok (h_mem h) s" using s(1) by (simp add: bus_stripe_def)
  have sh: "same_header s ?s0" using stripe_okD(1)[OF ok] by (simp add: same_header_def)
  obtain s1 m1 b1 new where al: "AllocBlocksForStripe os (h_mem h) (h_bus h) s (int 2) = Some (None, s1, m1, b1)" "bus_ok b1" "os_fresh os b1"
      "grows (h_bus h) b1" "bus_stripe b1 m1 (as @ new) s1" "length new = 2" "set new \<inter> used (h_bus h) = {}" "used b1 = used (h_bus h) \<union> set new"
      "DataLen s1 = DataLen s" "contents m1 s1 = contents (h_mem h) s" "capacity s1 = capacity s + BlockSize * 2"
      "\<forall>r i. \<not> covers (Blocks s1) r i \<longrightarrow> m1 r i = h_mem h r i"
    by (rule AllocBlocksForStripe_spec[OF H(1,2) s(1) makeable[of 2]]) (use AllocBlocksForStripe_error[OF H(1,2)] os in fastforce)+
  obtain s2 where al0: "AllocBlocksForStripe os (h_mem h) (h_bus h) ?s0 (int 2) = Some (None, s2, m1, b1)" "same_header s1 s2"
    by (rule AllocBlocksForStripe_header[OF sh al(1)])
  have ok1: "stripe_ok m1 s1" using al(5) by (simp add: bus_stripe_def)
  obtain m2 where m2: "UpdateStripeHeader m1 s1 = Some m2" "stripe_ok m2 s1" "data_region m2 s1 = data_region m1 s1"
    "\<forall>r i. \<not> covers (Blocks s1) r i \<longrightarrow> m2 r i = m1 r i"
    by (rule UpdateStripeHeader_ok[OF stripe_okD(2,1,3,4)[OF ok1]])
  have b2: "bus_stripe b1 m2 (as @ new) s1" "contents m2 s1 = contents m1 s1" using al(5) m2(2,3) by (simp_all add: bus_stripe_def contents_def)
  have fr: "\<forall>r i. \<not> covers (Blocks s1) r i \<longrightarrow> m2 r i = h_mem h r i" using m2(4) al(12) by simp
  have hub: "hub_ok os cas ((put_bus h b1)\<lparr>h_mem := m2\<rparr>)" using hub_ok_grows[OF h al(2-4)] H(5) al(8) by blast
  have dj: "set (as @ new) \<inter> set cas = {}" using s(2) al(7) H(5) by auto
  have st: "stripe_blocks (chunks b1) (as @ new) s1" "set (as @ new) \<subseteq> used b1" using al(5) by (simp_all add: bus_stripe_def)
  have fl: "\<forall>f. field_valid f \<longrightarrow> fget (h_ctrl h) m2 f = fget (h_ctrl h) (h_mem h) f"
    using hub_ctl_frame[OF hub, of "as @ new" s1 m2 "h_mem h"] st dj fr by simp
  have ow: "GetStripeOwner (h_mem h) (h_ctrl h) t = Some (word_of_int (int q))"
    using slot_reads(3)[OF H(3) t(1)] owner(1) by (simp add: GetStripeOwner_def)
  have he: "handleExpandRequest os h (int q) t = expandResponse ((put_bus h b1)\<lparr>h_mem := m2\<rparr>) (int q) t CMD_EXPAND_READY"
  proof -
    obtain ck where ck: "GetChunk (h_bus h) (Sequence s ! 0) = Some ck"
      "chunk_slice ck (sint (Sequence s ! 1) * int BlockSize) (sint (Sequence s ! 1) * int BlockSize + int BlockSize) = Some (Blocks s ! 0)"
      using header_block(1)[OF H(1) s(1)] by (auto simp: hub_get_def split: bind_splits)
    have "BlockCount s \<noteq> 0" using header_block(2)[OF H(1) s(1)] by simp
    moreover have "UpdateStripeHeader m1 s2 = Some m2" using m2(1) UpdateStripeHeader_header[OF al0(2), of m1] by simp
    ultimately show ?thesis using t(2) ck s(3) ow al0(1) by (simp add: handleExpandRequest_def header_synced_def)
  qed
  have sy: "length (Sequence s1) \<le> seq_capacity \<longrightarrow> header_synced m2 s1"
    using synced_after_update[OF al(2) b2(1) m2(1)] by blast
  show ?thesis using that[OF he hub b2(1) al(6,7,8,4,9) _ _ sy fl fr] b2(2) al(10,11) by simp
qed

text \<open>The answer to the node changes the node's queue and nothing the stripes depend on.\<close>

lemma expand_answer:
  assumes h: "hub_ok os cas h" and nd: "find_node h (int q) = Some target" "\<not> ni_closed target"
    and q: "queue_room (h_ctrl h) m q" and ev: "counter_room (h_efds h) (ni_nodeEv target)"
    and fl: "\<forall>f. field_valid f \<longrightarrow> fget (h_ctrl h) (h_mem h1) f = fget (h_ctrl h) m f" and h1: "h1 = (put_bus h b)\<lparr>h_mem := h_mem h1\<rparr>"
  obtains m' efds where "expandResponse h1 (int q) t CMD_EXPAND_READY = Some (h1\<lparr>h_mem := m', h_efds := efds\<rparr>)"
    "q_items (fget (h_ctrl h)) m' q = q_items (fget (h_ctrl h)) m q @ [(t, CMD_EXPAND_READY)]"
    "\<forall>f. field_valid f \<longrightarrow> \<not> queue_field q f \<longrightarrow> fget (h_ctrl h) m' f = fget (h_ctrl h) m f"
    "same_elsewhere (h_mem h1) m' (ctl_stripe (h_ctrl h))"
proof -
  have q64: "q < MaxNodes" using q by (simp add: queue_room_def)
  have H1: "h_ctrl h1 = h_ctrl h" "h_efds h1 = h_efds h" by (subst h1, simp)+
  obtain target' where nd': "find_node (put_bus h b) (int q) = Some target'" "ni_nodeID target' = ni_nodeID target" "ni_closed target' = ni_closed target"
    "ni_nodeEv target' = ni_nodeEv target" by (rule find_node_put_bus[OF nd(1)])
  have "find_node h1 (int q) = find_node (put_bus h b) (int q)" by (subst h1, simp add: find_node_def)
  moreover have "ni_nodeID target = int q" using nd(1) by (auto simp: find_node_def find_Some_iff)
  ultimately have nd1: "find_node h1 (int q) = Some target'" "ni_nodeID target' = int q" "\<not> ni_closed target'" "counter_room (h_efds h1) (ni_nodeEv target')"
    using nd' nd(2) ev H1(2) by simp_all
  have fq: "\<forall>f. field_valid f \<longrightarrow> queue_field q f \<longrightarrow> fget (h_ctrl h) (h_mem h1) f = fget (h_ctrl h) m f" using fl by blast
  have qr: "queue_room (h_ctrl h1) (h_mem h1) q" using q queue_room_cong[OF q64 fq] H1(1) by simp
  have ctl: "ctl_ok (h_ctrl h1)" using hub_okD(3)[OF h] H1(1) by simp
  obtain m' k where x: "expandResponse h1 (int q) t CMD_EXPAND_READY = Some (h1\<lparr>h_mem := m', h_efds := set_counter (h_efds h1) (ev_fd (ni_nodeEv target')) (Suc k)\<rparr>)"
    "pushed (h_ctrl h1) (h_mem h1) q (t, CMD_EXPAND_READY) m'"
    by (rule expandResponse_spec[OF ctl nd1(1-3) qr nd1(4) cmd_consts(3)])
  show ?thesis using that[OF x(1)] x(2) q_cong(2)[OF q64 fq] fl H1(1) by (simp add: pushed_def)
qed

text \<open>A stripe of another connection is not touched by the growth of this one.\<close>

lemma grown_other:
  assumes H: "bus_ok (h_bus h)" and b: "bus_ok b" "grows (h_bus h) b" and s: "bus_stripe b m (as @ new) s'"
    and new: "set new \<inter> used (h_bus h) = {}" "used b = used (h_bus h) \<union> set new" and fr: "\<forall>r i. \<not> covers (Blocks s') r i \<longrightarrow> m r i = h_mem h r i"
    and u: "bus_stripe (h_bus h) (h_mem h) ts u" "set ts \<inter> set as = {}"
  shows "bus_stripe b m ts u" "contents m u = contents (h_mem h) u"
proof -
  have us: "set ts \<subseteq> used (h_bus h)" using u(1) by (simp add: bus_stripe_def)
  have "bus_stripe b (h_mem h) ts u" using us new(2) by (intro bus_stripe_grows[OF H u(1) b(2)]) blast
  moreover have "set (as @ new) \<inter> set ts = {}" using u(2) us new(1) by auto
  moreover have "stripe_blocks (chunks b) (as @ new) s'" "set (as @ new) \<subseteq> used b" using s by (simp_all add: bus_stripe_def)
  ultimately show "bus_stripe b m ts u" "contents m u = contents (h_mem h) u" using bus_stripe_other[OF b(1) _ _ _ _ fr] by blast+
qed

text \<open>C7: An expansion request grows the stripe by two blocks, and both sides get the same two. The hub, which
  knows only the slot, allocates two blocks for the stripe of a slot the node owns, with its data kept, its
  header updated and the answer \<open>CMD_EXPAND_READY\<close> in the node's queue. The node, which still has the
  old stripe, gets from \<open>OnExpandComplete\<close> exactly the blocks and the sequence of the grown
  one, but keeps the old block count; the hub's connection gets from \<open>refreshStripe\<close> exactly
  the grown stripe. No other stripe is touched.\<close>

theorem expand_handover:
  assumes h: "hub_ok os cas h" and s: "bus_stripe (h_bus h) (h_mem h) as s" "set as \<inter> set cas = {}" "header_synced (h_mem h) s"
    and t: "valid_slot t" "GetStripeHeader (h_mem h) (h_ctrl h) t = Some (Sequence s ! 0, Sequence s ! 1)"
    and owner: "fget (h_ctrl h) (h_mem h) (SlotOwner t) = q" and os: "os_succeeds os" "2 + card (used (h_bus h)) \<le> 65536"
    and nd: "find_node h (int q) = Some target" "\<not> ni_closed target"
    and q: "queue_room (h_ctrl h) (h_mem h) q" and ev: "counter_room (h_efds h) (ni_nodeEv target)"
    and seq: "length as \<le> 1000"
  shows "\<exists>h' s' new. handleExpandRequest os h (int q) t = Some h' \<and> hub_ok os cas h'
    \<and> bus_stripe (h_bus h') (h_mem h') (as @ new) s' \<and> length new = 2 \<and> set new \<inter> used (h_bus h) = {}
    \<and> contents (h_mem h') s' = contents (h_mem h) s \<and> capacity s' = capacity s + 2 * BlockSize
    \<and> q_items (fget (h_ctrl h')) (h_mem h') q = q_items (fget (h_ctrl h)) (h_mem h) q @ [(t, CMD_EXPAND_READY)]
    \<and> (\<forall>n ctl c. n_mem n = h_mem h' \<longrightarrow> n_ctrl n = Some ctl \<longrightarrow> Blocks (ctl_stripe ctl) = Blocks (ctl_stripe (h_ctrl h)) \<longrightarrow>
         same_chunks (chunks (h_bus h')) (n_chunks n) \<longrightarrow> nc_stripe c = s \<longrightarrow> nc_slotID c = t \<longrightarrow>
         OnExpandComplete n c = Returns (c\<lparr>nc_stripe := s'\<lparr>BlockCount := BlockCount s\<rparr>\<rparr>))
    \<and> (\<forall>c. c_Stripe c = Some s \<longrightarrow> refreshStripe h' c = Some (None, c\<lparr>c_Stripe := Some s'\<rparr>))
    \<and> (\<forall>ts u. bus_stripe (h_bus h) (h_mem h) ts u \<longrightarrow> set ts \<inter> (set as \<union> set cas) = {} \<longrightarrow>
         bus_stripe (h_bus h') (h_mem h') ts u \<and> contents (h_mem h') u = contents (h_mem h) u)"
proof -
  note H = hub_okD[OF h]
  have q64: "q < MaxNodes" using q by (simp add: queue_room_def)
  obtain b m s' new where e: "handleExpandRequest os h (int q) t = expandResponse ((put_bus h b)\<lparr>h_mem := m\<rparr>) (int q) t CMD_EXPAND_READY"
    "hub_ok os cas ((put_bus h b)\<lparr>h_mem := m\<rparr>)" "bus_stripe b m (as @ new) s'" "length new = 2" "set new \<inter> used (h_bus h) = {}"
    "used b = used (h_bus h) \<union> set new" "grows (h_bus h) b" "DataLen s' = DataLen s" "contents m s' = contents (h_mem h) s"
    "capacity s' = capacity s + 2 * BlockSize" and sy: "length (Sequence s') \<le> seq_capacity \<longrightarrow> header_synced m s'"
    and fl: "\<forall>f. field_valid f \<longrightarrow> fget (h_ctrl h) m f = fget (h_ctrl h) (h_mem h) f" and fr: "\<forall>r i. \<not> covers (Blocks s') r i \<longrightarrow> m r i = h_mem h r i"
    by (rule handleExpandRequest_grows[OF h s t owner q64 os])
  let ?h = "(put_bus h b)\<lparr>h_mem := m\<rparr>"
  have "length (Sequence s') \<le> seq_capacity"
    using e(3,4) seq sequence_length[of 0 "map (block_of (chunks b)) (as @ new)"] by (simp add: bus_stripe_def stripe_blocks_def seq_capacity_eq)
  note sy = sy[rule_format, OF this]
  obtain m' efds where x: "expandResponse ?h (int q) t CMD_EXPAND_READY = Some (?h\<lparr>h_mem := m', h_efds := efds\<rparr>)"
    "q_items (fget (h_ctrl h)) m' q = q_items (fget (h_ctrl h)) (h_mem h) q @ [(t, CMD_EXPAND_READY)]"
    "\<forall>f. field_valid f \<longrightarrow> \<not> queue_field q f \<longrightarrow> fget (h_ctrl h) m' f = fget (h_ctrl h) (h_mem h) f" "same_elsewhere m m' (ctl_stripe (h_ctrl h))"
    by (rule expand_answer[OF h nd q ev, of ?h b t]) (use fl in simp_all)
  let ?h' = "?h\<lparr>h_mem := m', h_efds := efds\<rparr>"
  have dj: "set (as @ new) \<inter> set cas = {}" using s(2) e(5) H(5) by auto
  have hok: "hub_ok os cas ?h'" by (rule hub_ok_changed[OF e(2)]) simp_all
  have s': "bus_stripe b m' (as @ new) s'" "contents m' s' = contents (h_mem h) s" "header_synced m' s'"
    using hub_stripe_frame[OF e(2), of m "as @ new" s' m'] e(3,9) dj x(4) sy by simp_all
  have ob: "bus_ok b" using hub_okD(1)[OF e(2)] by simp
  have sb: "stripe_blocks (chunks b) as s" "Blocks s \<noteq> []"
    using bus_stripe_grows[OF H(1) s(1) e(7)] s(1) e(6) stripe_okD(1) by (auto simp: bus_stripe_def)
  have gh: "GetStripeHeader m' (h_ctrl h) t = Some (Sequence s' ! 0, Sequence s' ! 1)"
    using GetStripeHeader_cong[OF H(3) t(1), of m' "h_mem h"] x(3) t same_head_ids[OF H(1) s(1) ob s'(1)] by (simp add: queue_field_def)
  have node: "OnExpandComplete n c = Returns (c\<lparr>nc_stripe := s'\<lparr>BlockCount := BlockCount s\<rparr>\<rparr>)"
    if n: "n_mem n = m'" "n_ctrl n = Some ctl" "Blocks (ctl_stripe ctl) = Blocks (ctl_stripe (h_ctrl h))" "same_chunks (chunks b) (n_chunks n)"
      "nc_stripe c = s" "nc_slotID c = t" for n ctl c
  proof -
    have "GetStripeHeader m' ctl t = GetStripeHeader m' (h_ctrl h) t"
      using ctl_cong(4)[OF n(3)] by (simp add: GetStripeHeader_def readU32_def)
    then show ?thesis using OnExpandComplete_grown[OF ob sb(1), of n new s' ctl c] s' n gh e(8) by simp
  qed
  have "new \<noteq> []" using e(4) by auto
  then have refresh: "\<forall>c. c_Stripe c = Some s \<longrightarrow> refreshStripe ?h' c = Some (None, c\<lparr>c_Stripe := Some s'\<rparr>)"
    using refreshStripe_grown[of ?h' as s new s'] ob sb s' by simp
  have other: "bus_stripe b m' ts u \<and> contents m' u = contents (h_mem h) u"
    if u: "bus_stripe (h_bus h) (h_mem h) ts u" "set ts \<inter> (set as \<union> set cas) = {}" for ts u
  proof -
    have "set ts \<inter> set as = {}" "set ts \<inter> set cas = {}" using u(2) by auto
    then show ?thesis using grown_other[OF H(1) ob e(7,3,5,6) fr u(1)] hub_stripe_frame[OF e(2), of m ts u m'] x(4) by simp
  qed
  have he: "handleExpandRequest os h (int q) t = Some ?h'" using e(1) x(1) by simp
  show ?thesis
    by (intro exI[of _ ?h'] exI[of _ s'] exI[of _ new] conjI he hok e(4,5,10) refresh) (use s' x(2) node other in simp_all)
qed

theorem expand_handover_witness:
  "\<exists>h h' t s s'. handleExpandRequest ex_os h 1 t = Some h'
    \<and> contents (h_mem h') s' = contents (h_mem h) s \<and> capacity s' = capacity s + 2 * BlockSize"
proof (rule ex_scene)
  fix h c s as
  assume e: "hub_ok ex_os [0..<256] h" "map_of (h_nodes h) ''n'' = Some ex_target" "bus_stripe (h_bus h) (h_mem h) as s"
    "set as \<inter> set [0..<256] = {}" "header_synced (h_mem h) s" "has_slot h c s"
    and q: "\<forall>q<MaxNodes. queue_room (h_ctrl h) (h_mem h) q \<and> q_items (fget (h_ctrl h)) (h_mem h) q = []"
    and ev: "counter_room (h_efds h) \<lparr>ev_fd = 7\<rparr>" and cd: "card (used (h_bus h)) \<le> 258" "length as = 2"
  let ?t = "c_slotID c" and ?c = "h_ctrl h"
  have t: "valid_slot ?t" using e(6) by (simp add: has_slot_def)
  obtain m where m: "SetStripe (h_mem h) ?c ?t StripeStatusBusy (Sequence s ! 0) (Sequence s ! 1) 1 = Some m"
    "fget ?c m (SlotStatus ?t) = unat StripeStatusBusy" "GetStripeHeader m ?c ?t = Some (Sequence s ! 0, Sequence s ! 1)"
    "fget ?c m (SlotOwner ?t) = unat (1 :: uint32)"
    "\<forall>f. field_valid f \<longrightarrow> f \<notin> {SlotStatus ?t, SlotHeader ?t, SlotOwner ?t} \<longrightarrow> fget ?c m f = fget ?c (h_mem h) f"
    "same_elsewhere (h_mem h) m (ctl_stripe ?c)"
    by (rule SetStripe_spec[OF hub_okD(3)[OF e(1)] t])
  let ?h = "h\<lparr>h_mem := m, h_nodes := [(''n'', ex_target)]\<rparr>"
  have h: "hub_ok ex_os [0..<256] ?h" by (rule hub_ok_changed[OF e(1)]) simp_all
  have s: "bus_stripe (h_bus ?h) (h_mem ?h) as s" "header_synced (h_mem ?h) s"
    using hub_stripe_frame[OF e(1,3,4) m(6)] e(5) by simp_all
  have "\<forall>f. field_valid f \<longrightarrow> queue_field 1 f \<longrightarrow> fget ?c m f = fget ?c (h_mem h) f" using m(5) queue_other by blast
  then have qr: "queue_room (h_ctrl ?h) (h_mem ?h) 1" using q queue_room_cong[of 1 ?c m "h_mem h"] by (simp add: MaxNodes_def)
  have nd: "find_node ?h (int 1) = Some ex_target" "\<not> ni_closed ex_target" "counter_room (h_efds ?h) (ni_nodeEv ex_target)"
    using ev by (simp_all add: find_node_def ex_target_def)
  have st: "GetStripeHeader (h_mem ?h) (h_ctrl ?h) ?t = Some (Sequence s ! 0, Sequence s ! 1)" "fget (h_ctrl ?h) (h_mem ?h) (SlotOwner ?t) = 1"
    "2 + card (used (h_bus ?h)) \<le> 65536" "length as \<le> 1000" using m cd by simp_all
  from expand_handover[OF h s(1) e(4) s(2) t st(1,2) ex_os_succeeds st(3) nd(1,2) qr nd(3) st(4)]
  show ?thesis unfolding of_nat_1 by blast
qed

end
