(* ===== verification/Hub_Cleanup.thy ===== *)
theory Hub_Cleanup
  imports Expand_Handover
begin

text \<open>
  What the hub does with the resources of a dead node (\<open>CleanupResources\<close> of \<^verbatim>\<open>go/hub/hub.go\<close>).
\<close>

subsection \<open>One slot\<close>

lemma free_decoded_eq: "free_decoded b c ids = free_sequence b c ids"
  by (induction ids arbitrary: b c) (simp_all cong: Option.bind_cong)

text \<open>Slot \<open>t\<close> is in use and belongs to node \<open>q\<close>.\<close>

definition owned_by :: "nat \<Rightarrow> hub \<Rightarrow> uint32 \<Rightarrow> bool" where
  "owned_by q h t \<longleftrightarrow> valid_slot t \<and> fget (h_ctrl h) (h_mem h) (SlotStatus t) \<noteq> 0 \<and> fget (h_ctrl h) (h_mem h) (SlotOwner t) = q"

text \<open>The slot describes the stripe \<open>s\<close> with the blocks \<open>as\<close>.\<close>

definition slot_of :: "nat list \<Rightarrow> hub \<Rightarrow> uint32 \<Rightarrow> nat list \<Rightarrow> stripe \<Rightarrow> bool" where
  "slot_of cas h t as s \<longleftrightarrow> bus_stripe (h_bus h) (h_mem h) as s \<and> set as \<inter> set cas = {} \<and> header_synced (h_mem h) s
     \<and> GetStripeHeader (h_mem h) (h_ctrl h) t = Some (Sequence s ! 0, Sequence s ! 1)"

text \<open>The hub after a slot has been reclaimed.\<close>

definition reclaimed :: "nat list \<Rightarrow> hub \<Rightarrow> uint32 set \<Rightarrow> nat set \<Rightarrow> hub \<Rightarrow> bool" where
  "reclaimed cas h ts freed h' \<longleftrightarrow> (\<exists>b m. h' = h\<lparr>h_bus := b, h_mem := m\<rparr> \<and> bus_ok b \<and> chunks b = chunks (h_bus h)
     \<and> used b = used (h_bus h) - freed \<and> same_elsewhere (h_mem h) m (ctl_stripe (h_ctrl h))
     \<and> (\<forall>f. field_valid f \<longrightarrow> fget (h_ctrl h) m f = (if f \<in> SlotStatus ` ts then 0 else fget (h_ctrl h) (h_mem h) f)))"

lemma reclaimed_refl: "hub_ok os cas h \<Longrightarrow> reclaimed cas h {} {} h"
  unfolding reclaimed_def by (intro exI[of _ "h_bus h"] exI[of _ "h_mem h"]) (simp add: hub_okD)

lemma reclaim_slot_spec:
  assumes h: "hub_ok os cas h" and t: "valid_slot t" and s: "slot_of cas h t as s"
  obtains h' where "reclaim_slot h t = Some h'" "reclaimed cas h {t} (set as) h'" "hub_ok os cas h'"
proof -
  note H = hub_okD[OF h]
  have S: "bus_stripe (h_bus h) (h_mem h) as s" "set as \<inter> set cas = {}" "header_synced (h_mem h) s"
    "GetStripeHeader (h_mem h) (h_ctrl h) t = Some (Sequence s ! 0, Sequence s ! 1)" using s by (simp_all add: slot_of_def)
  have st: "stripe_blocks (chunks (h_bus h)) as s" "set as \<subseteq> used (h_bus h)" using S(1) by (simp_all add: bus_stripe_def)
  obtain b where b: "FreeStripe (h_bus h) s = Some b" "bus_ok b" "used b = used (h_bus h) - set as" "chunks b = chunks (h_bus h)"
    by (rule FreeStripe_blocks[OF H(1) st])
  let ?m = "fput (h_ctrl h) (h_mem h) (SlotStatus t) 0" and ?h = "h\<lparr>h_bus := b, h_mem := fput (h_ctrl h) (h_mem h) (SlotStatus t) 0\<rparr>"
  have fs: "FreeSlot (h_mem h) (h_ctrl h) t = Some ?m" using slot_writes(1)[OF H(3) t] by (simp add: FreeSlot_def StripeStatusIdle_def)
  obtain ck where ck: "GetChunk (h_bus h) (Sequence s ! 0) = Some ck"
    "chunk_slice ck (sint (Sequence s ! 1) * int BlockSize) (sint (Sequence s ! 1) * int BlockSize + int BlockSize) = Some (Blocks s ! 0)"
    using header_block(1)[OF H(1) S(1)] by (auto simp: hub_get_def split: bind_splits)
  have "reclaim_slot h t = Some ?h"
    using S(3,4) ck b(1) fs by (simp add: reclaim_slot_def header_synced_def free_decoded_eq FreeStripe_def)
  moreover have "reclaimed cas h {t} (set as) ?h"
    unfolding reclaimed_def using b t fput_elsewhere[OF H(3), of "SlotStatus t" "h_mem h" 0]
    by (intro exI[of _ b] exI[of _ ?m]) (auto simp: fget_fput[OF H(3)])
  moreover have "hub_ok os cas ?h" using H b S(2) by (auto simp: hub_ok_def os_fresh_def)
  ultimately show ?thesis by (rule that)
qed

lemma reclaimed_trans:
  assumes "reclaimed cas h ts freed h1" "reclaimed cas h1 ts' freed' h2"
  shows "reclaimed cas h (ts \<union> ts') (freed \<union> freed') h2"
proof -
  obtain b m where 1: "h1 = h\<lparr>h_bus := b, h_mem := m\<rparr>" "bus_ok b" "chunks b = chunks (h_bus h)" "used b = used (h_bus h) - freed"
    "same_elsewhere (h_mem h) m (ctl_stripe (h_ctrl h))"
    "\<forall>f. field_valid f \<longrightarrow> fget (h_ctrl h) m f = (if f \<in> SlotStatus ` ts then 0 else fget (h_ctrl h) (h_mem h) f)"
    using assms(1) unfolding reclaimed_def by blast
  obtain b' m' where 2: "h2 = h1\<lparr>h_bus := b', h_mem := m'\<rparr>" "bus_ok b'" "chunks b' = chunks (h_bus h1)" "used b' = used (h_bus h1) - freed'"
    "same_elsewhere (h_mem h1) m' (ctl_stripe (h_ctrl h1))"
    "\<forall>f. field_valid f \<longrightarrow> fget (h_ctrl h1) m' f = (if f \<in> SlotStatus ` ts' then 0 else fget (h_ctrl h1) (h_mem h1) f)"
    using assms(2) unfolding reclaimed_def by blast
  have "same_elsewhere (h_mem h) m' (ctl_stripe (h_ctrl h))" using 1 2 by (auto intro: same_elsewhere_trans)
  then show ?thesis
    unfolding reclaimed_def using 1 2 by (intro exI[of _ b'] exI[of _ m']) auto
qed

lemma slot_of_kept:
  assumes h: "hub_ok os cas h" and r: "reclaimed cas h ts freed h1" and s: "slot_of cas h t as s" and dj: "set as \<inter> freed = {}" and t: "valid_slot t"
  shows "slot_of cas h1 t as s"
proof -
  obtain b m where 1: "h1 = h\<lparr>h_bus := b, h_mem := m\<rparr>" "chunks b = chunks (h_bus h)" "used b = used (h_bus h) - freed"
    "same_elsewhere (h_mem h) m (ctl_stripe (h_ctrl h))"
    "\<forall>f. field_valid f \<longrightarrow> fget (h_ctrl h) m f = (if f \<in> SlotStatus ` ts then 0 else fget (h_ctrl h) (h_mem h) f)"
    using r unfolding reclaimed_def by blast
  have S: "bus_stripe (h_bus h) (h_mem h) as s" "set as \<inter> set cas = {}" "header_synced (h_mem h) s" using s by (simp_all add: slot_of_def)
  have "fget (h_ctrl h) m (SlotHeader t) = fget (h_ctrl h) (h_mem h) (SlotHeader t)" using 1(5) t by auto
  then have "GetStripeHeader m (h_ctrl h) t = GetStripeHeader (h_mem h) (h_ctrl h) t" by (rule GetStripeHeader_cong[OF hub_okD(3)[OF h] t])
  moreover have "bus_stripe b m as s" using hub_stripe_frame(1)[OF h S(1,2) 1(4)] 1(2,3) dj by (auto simp: bus_stripe_def)
  ultimately show ?thesis using hub_stripe_frame(3)[OF h S(1,2) 1(4) S(3)] s 1(1) by (simp add: slot_of_def)
qed

lemma owned_by_kept:
  assumes "reclaimed cas h ts freed h1" "t \<notin> ts"
  shows "owned_by q h1 t = owned_by q h t"
proof -
  obtain b m where "h1 = h\<lparr>h_bus := b, h_mem := m\<rparr>"
    "\<forall>f. field_valid f \<longrightarrow> fget (h_ctrl h) m f = (if f \<in> SlotStatus ` ts then 0 else fget (h_ctrl h) (h_mem h) f)"
    using assms(1) unfolding reclaimed_def by blast
  moreover have "SlotStatus t \<notin> SlotStatus ` ts" "SlotOwner t \<notin> SlotStatus ` ts" using assms(2) by auto
  ultimately show ?thesis by (cases "valid_slot t") (auto simp: owned_by_def)
qed

subsection \<open>The loop over the slots\<close>

lemma hub_ctl_length: "hub_ok os cas h \<Longrightarrow> length (Blocks (ctl_stripe (h_ctrl h))) \<le> 65536"
proof -
  assume "hub_ok os cas h"
  note H = hub_okD[OF this]
  have "distinct (map (bk_Data \<circ> block_of (chunks (h_bus h))) cas)" using H(3,4) by (simp add: ctl_ok_def blocks_wf_def stripe_blocks_def)
  then have "distinct cas" by (simp add: distinct_map)
  then show ?thesis using distinct_addr_length[OF _ bus_addr_bound[OF H(1,5)]] H(4) by (simp add: stripe_blocks_def)
qed

lemma read_slot_0:
  assumes "hub_ok os cas h"
  shows "GetStripeStatus m (h_ctrl h) 0 = Some 0"
proof -
  have "length (Blocks (ctl_stripe (h_ctrl h))) \<le> (GetStripeEntryOffset 0 + STRIPE_OFF_STATUS) div BlockSize"
    using hub_ctl_length[OF assms] unfolding entry_offset_zero STRIPE_OFF_STATUS_def BlockSize_def by simp
  then show ?thesis by (simp add: GetStripeStatus_def readU32_def GetPointer_def Let_def)
qed

lemma slot_words:
  assumes "hub_ok os cas h" "valid_slot t"
  obtains st ow where "GetStripeStatus (h_mem h) (h_ctrl h) t = Some st" "st = 0 \<longleftrightarrow> fget (h_ctrl h) (h_mem h) (SlotStatus t) = 0"
    "GetStripeOwner (h_mem h) (h_ctrl h) t = Some ow" "uint ow = int (fget (h_ctrl h) (h_mem h) (SlotOwner t))"
proof -
  let ?s = "fget (h_ctrl h) (h_mem h) (SlotStatus t)" and ?o = "fget (h_ctrl h) (h_mem h) (SlotOwner t)"
  have b: "?s < 4294967296" "?o < 4294967296"
    using fget_less[of "h_ctrl h" "h_mem h" "SlotStatus t"] fget_less[of "h_ctrl h" "h_mem h" "SlotOwner t"] by simp_all
  have "unat (of_nat ?s :: uint32) = ?s" "unat (of_nat ?o :: uint32) = ?o" using b by (simp_all add: unat_of_nat)
  then have "(of_nat ?s :: uint32) = 0 \<longleftrightarrow> ?s = 0" "uint (of_nat ?o :: uint32) = int ?o"
    by (metis unat_eq_zero, metis uint_nat)
  then show ?thesis
    using slot_reads[OF hub_okD(3)[OF assms(1)] assms(2)] by (intro that) (simp_all only: GetStripeStatus_def GetStripeOwner_def)
qed

text \<open>One slot: it is reclaimed when the node owns it, and skipped otherwise.\<close>

lemma cleanup_slot_step:
  assumes h: "hub_ok os cas h" and t: "t = 0 \<or> valid_slot t" and so: "owned_by q h t \<longrightarrow> slot_of cas h t as s"
  obtains h1 where "cleanup_slots h (int q) (t # ts) = cleanup_slots h1 (int q) ts" "hub_ok os cas h1"
    "reclaimed cas h {u. u = t \<and> owned_by q h t} (if owned_by q h t then set as else {}) h1"
proof (cases "owned_by q h t")
  case True
  then have o: "valid_slot t" "fget (h_ctrl h) (h_mem h) (SlotStatus t) \<noteq> 0" "fget (h_ctrl h) (h_mem h) (SlotOwner t) = q"
    by (simp_all add: owned_by_def)
  obtain st w where sw: "GetStripeStatus (h_mem h) (h_ctrl h) t = Some st" "st = 0 \<longleftrightarrow> fget (h_ctrl h) (h_mem h) (SlotStatus t) = 0"
    "GetStripeOwner (h_mem h) (h_ctrl h) t = Some w" "uint w = int (fget (h_ctrl h) (h_mem h) (SlotOwner t))"
    by (rule slot_words[OF h o(1)])
  obtain h1 where h1: "reclaim_slot h t = Some h1" "reclaimed cas h {t} (set as) h1" "hub_ok os cas h1"
    using reclaim_slot_spec[OF h o(1)] so True by blast
  have "cleanup_slots h (int q) (t # ts) = cleanup_slots h1 (int q) ts"
    using sw o h1(1) by (simp add: StripeStatusIdle_def)
  moreover have "{u. u = t \<and> owned_by q h t} = {t}" using True by auto
  ultimately show ?thesis using h1(2,3) True by (intro that) auto
next
  case False
  have "cleanup_slots h (int q) (t # ts) = cleanup_slots h (int q) ts"
  proof (cases "t = 0")
    case True
    then show ?thesis using read_slot_0[OF h] by (simp add: StripeStatusIdle_def)
  next
    case nz: False
    then have v: "valid_slot t" using t by simp
    obtain st w where "GetStripeStatus (h_mem h) (h_ctrl h) t = Some st" "st = 0 \<longleftrightarrow> fget (h_ctrl h) (h_mem h) (SlotStatus t) = 0"
      "GetStripeOwner (h_mem h) (h_ctrl h) t = Some w" "uint w = int (fget (h_ctrl h) (h_mem h) (SlotOwner t))"
      by (rule slot_words[OF h v])
    then show ?thesis using False v by (auto simp: owned_by_def StripeStatusIdle_def)
  qed
  moreover have "{u. u = t \<and> owned_by q h t} = {}" using False by auto
  ultimately show ?thesis using reclaimed_refl[OF h] h False by (intro that[of h]) auto
qed

lemma cleanup_slots_spec:
  assumes "hub_ok os cas h" "distinct is" "\<forall>t\<in>set is. t = 0 \<or> valid_slot t"
    and "\<forall>t\<in>set is. owned_by q h t \<longrightarrow> slot_of cas h t (as t) (st t)"
    and "\<forall>t\<in>set is. \<forall>u\<in>set is. owned_by q h t \<longrightarrow> owned_by q h u \<longrightarrow> t \<noteq> u \<longrightarrow> set (as t) \<inter> set (as u) = {}"
  shows "\<exists>h'. cleanup_slots h (int q) is = Some h' \<and> hub_ok os cas h'
    \<and> reclaimed cas h {t \<in> set is. owned_by q h t} (\<Union>t\<in>{t \<in> set is. owned_by q h t}. set (as t)) h'"
  using assms
proof (induction "is" arbitrary: h)
  case Nil
  then show ?case using reclaimed_refl by auto
next
  case (Cons t ts)
  have so: "owned_by q h t \<longrightarrow> slot_of cas h t (as t) (st t)" and t0: "t = 0 \<or> valid_slot t" using Cons.prems(3,4) by simp_all
  obtain h1 where h1: "cleanup_slots h (int q) (t # ts) = cleanup_slots h1 (int q) ts" "hub_ok os cas h1"
    and r: "reclaimed cas h {u. u = t \<and> owned_by q h t} (if owned_by q h t then set (as t) else {}) h1"
    by (rule cleanup_slot_step[OF Cons.prems(1) t0 so])
  have same: "owned_by q h1 u = owned_by q h u" if "u \<in> set ts" for u
    using owned_by_kept[OF r, of u q] Cons.prems(2) that by auto
  have kept: "slot_of cas h1 u (as u) (st u)" if u: "u \<in> set ts" "owned_by q h u" for u
  proof (rule slot_of_kept[OF Cons.prems(1) r])
    show "slot_of cas h u (as u) (st u)" "valid_slot u" using Cons.prems(4) u by (simp_all add: owned_by_def)
    show "set (as u) \<inter> (if owned_by q h t then set (as t) else {}) = {}"
      using Cons.prems(2,5) u by auto
  qed
  obtain h' where h': "cleanup_slots h1 (int q) ts = Some h'" "hub_ok os cas h'"
    "reclaimed cas h1 {u \<in> set ts. owned_by q h1 u} (\<Union>u\<in>{u \<in> set ts. owned_by q h1 u}. set (as u)) h'"
    using Cons.IH[OF h1(2)] Cons.prems(2-5) same kept by auto
  have "{u. u = t \<and> owned_by q h t} \<union> {u \<in> set ts. owned_by q h1 u} = {u \<in> set (t # ts). owned_by q h u}"
    "(if owned_by q h t then set (as t) else {}) \<union> (\<Union>u\<in>{u \<in> set ts. owned_by q h1 u}. set (as u))
      = (\<Union>u\<in>{u \<in> set (t # ts). owned_by q h u}. set (as u))" using same by auto
  from reclaimed_trans[OF r h'(3), unfolded this] show ?case using h1(1) h'(1,2) by simp
qed

lemma scanned_slots: "set (map of_nat [0..<MaxTotalSlots]) = {t :: uint32. t < 4096}" "distinct (map (of_nat :: nat \<Rightarrow> uint32) [0..<MaxTotalSlots])"
proof -
  have i: "unat (of_nat i :: uint32) = i" if "i < 4096" for i using that by (simp add: unat_of_nat)
  then have "inj_on (of_nat :: nat \<Rightarrow> uint32) {0..<4096}" by (intro inj_on_inverseI[of _ unat]) simp
  then show "distinct (map (of_nat :: nat \<Rightarrow> uint32) [0..<MaxTotalSlots])"
    unfolding distinct_map MaxTotalSlots_def set_upt by (intro conjI distinct_upt)
  have "t \<in> of_nat ` {0..<4096}" if "t < 4096" for t :: uint32
    using that by (intro image_eqI[of _ _ "unat t"]) (simp_all add: word_less_nat_alt)
  moreover have "(of_nat i :: uint32) < 4096" if "i < 4096" for i using i[OF that] that by (simp add: word_less_nat_alt)
  ultimately show "set (map of_nat [0..<MaxTotalSlots]) = {t :: uint32. t < 4096}"
    by (auto simp: MaxTotalSlots_def simp del: upt_rec_numeral)
qed

text \<open>C11: \<open>CleanupResources\<close> takes back what a dead node holds: when the slots the node owns describe stripes with
  blocks of their own, exactly the blocks of those stripes are freed and those slots become idle; no
  other block, slot or word of the control region changes. The exception is slot 4096, which the loop
  does not visit: a node that owns it keeps its blocks and the slot for ever.\<close>

theorem CleanupResources_reclaims:
  assumes h: "hub_ok os cas h" and s: "\<forall>t. owned_by q h t \<longrightarrow> slot_of cas h t (as t) (st t)"
    and dj: "\<forall>t u. owned_by q h t \<longrightarrow> owned_by q h u \<longrightarrow> t \<noteq> u \<longrightarrow> set (as t) \<inter> set (as u) = {}"
  shows "\<exists>h'. CleanupResources h (int q) = Some h' \<and> hub_ok os cas h'
    \<and> used (h_bus h') = used (h_bus h) - (\<Union>t\<in>{t. owned_by q h t \<and> t \<noteq> 4096}. set (as t))
    \<and> (\<forall>f. field_valid f \<longrightarrow> fget (h_ctrl h') (h_mem h') f =
         (if \<exists>t. f = SlotStatus t \<and> owned_by q h t \<and> t \<noteq> 4096 then 0 else fget (h_ctrl h) (h_mem h) f))"
proof -
  let ?is = "map (of_nat :: nat \<Rightarrow> uint32) [0..<MaxTotalSlots]"
  have v: "t = 0 \<or> valid_slot t" if "t < 4096" for t :: uint32
    using that by (auto simp: word_less_nat_alt word_le_nat_alt unat_eq_zero Suc_le_eq intro: ccontr)
  obtain h' where h': "cleanup_slots h (int q) ?is = Some h'" "hub_ok os cas h'"
    "reclaimed cas h {t \<in> set ?is. owned_by q h t} (\<Union>t\<in>{t \<in> set ?is. owned_by q h t}. set (as t)) h'"
    using cleanup_slots_spec[OF h scanned_slots(2), of q as st] v s dj unfolding scanned_slots(1) by blast
  have T: "{t \<in> set ?is. owned_by q h t} = {t. owned_by q h t \<and> t \<noteq> 4096}"
  proof -
    have "t < 4096 \<longleftrightarrow> t \<noteq> 4096" if "owned_by q h t" for t using that order.strict_iff_order[of t 4096] by (simp add: owned_by_def)
    then show ?thesis unfolding scanned_slots(1) by blast
  qed
  obtain b m where r: "h' = h\<lparr>h_bus := b, h_mem := m\<rparr>" "used b = used (h_bus h) - (\<Union>t\<in>{t. owned_by q h t \<and> t \<noteq> 4096}. set (as t))"
    "\<forall>f. field_valid f \<longrightarrow> fget (h_ctrl h) m f = (if f \<in> SlotStatus ` {t. owned_by q h t \<and> t \<noteq> 4096} then 0 else fget (h_ctrl h) (h_mem h) f)"
    using h'(3) unfolding reclaimed_def T by blast
  then show ?thesis using h'(1,2) by (intro exI[of _ h']) (auto simp: CleanupResources_def)
qed

theorem CleanupResources_reclaims_witness:
  "\<exists>h q t h'. owned_by q h t \<and> CleanupResources h (int q) = Some h' \<and> (t = 4096 \<or> fget (h_ctrl h') (h_mem h') (SlotStatus t) = 0)"
proof (rule ex_scene)
  fix h :: hub and c :: busConn and s as
  let ?t = "c_slotID c" and ?c = "h_ctrl h"
  assume e: "hub_ok ex_os [0..<256] h" "bus_stripe (h_bus h) (h_mem h) as s" "set as \<inter> set [0..<256] = {}" "header_synced (h_mem h) s" "has_slot h c s"
    and idle: "\<forall>t. valid_slot t \<longrightarrow> t \<noteq> ?t \<longrightarrow> t \<noteq> 4096 \<longrightarrow> fget ?c (h_mem h) (SlotStatus t) = 0"
  have t: "valid_slot ?t" using e(5) by (simp add: has_slot_def)
  obtain w :: uint32 where w: "fget ?c (h_mem h) (SlotOwner 4096) \<noteq> unat w" by (metis unat_1 unat_0 zero_neq_one)
  obtain m where m: "SetStripe (h_mem h) ?c ?t StripeStatusBusy (Sequence s ! 0) (Sequence s ! 1) w = Some m"
    "fget ?c m (SlotStatus ?t) = unat StripeStatusBusy" "GetStripeHeader m ?c ?t = Some (Sequence s ! 0, Sequence s ! 1)"
    "fget ?c m (SlotOwner ?t) = unat w"
    "\<forall>f. field_valid f \<longrightarrow> f \<notin> {SlotStatus ?t, SlotHeader ?t, SlotOwner ?t} \<longrightarrow> fget ?c m f = fget ?c (h_mem h) f"
    "same_elsewhere (h_mem h) m (ctl_stripe ?c)"
    by (rule SetStripe_spec[OF hub_okD(3)[OF e(1)] t])
  let ?h = "h\<lparr>h_mem := m\<rparr>"
  have h: "hub_ok ex_os [0..<256] ?h" using e(1) by (simp add: hub_ok_mem)
  have own: "owned_by (unat w) ?h u \<longleftrightarrow> u = ?t" for u
  proof (cases "u = ?t")
    case True
    then show ?thesis using t m(2,4) by (simp add: owned_by_def StripeStatusBusy_def)
  next
    case False
    have "fget ?c m (SlotStatus u) = fget ?c (h_mem h) (SlotStatus u)" "fget ?c m (SlotOwner u) = fget ?c (h_mem h) (SlotOwner u)" if "valid_slot u"
      using m(5) False that by auto
    then show ?thesis using idle False w by (cases "u = 4096") (auto simp: owned_by_def)
  qed
  have so: "slot_of [0..<256] ?h ?t as s"
    using hub_stripe_frame[OF e(1-3) m(6)] e(3,4) m(3) by (simp add: slot_of_def del: upt_rec_numeral)
  then obtain h' where "CleanupResources ?h (int (unat w)) = Some h'"
    "\<forall>f. field_valid f \<longrightarrow> fget (h_ctrl h') (h_mem h') f =
         (if \<exists>t. f = SlotStatus t \<and> owned_by (unat w) ?h t \<and> t \<noteq> 4096 then 0 else fget (h_ctrl ?h) (h_mem ?h) f)"
    using CleanupResources_reclaims[OF h, of "unat w" "\<lambda>_. as" "\<lambda>_. s"] own by auto
  moreover have "?t = 4096 \<or> fget (h_ctrl h') (h_mem h') (SlotStatus ?t) = 0" using calculation(2) t own by auto
  ultimately show ?thesis using own by blast
qed

end
