(* ===== verification/Hub_Nodes.thy ===== *)
theory Hub_Nodes
  imports Hub_Cleanup
begin

text \<open>
  The nodes of the hub: their IDs, and the chunks each of them is told about when it is dialled and
  when the bus grows.
\<close>

subsection \<open>Node IDs\<close>

text \<open>The IDs in use: bits 1 to 63 of the first word of the bitmap.\<close>

definition id_used :: "hub \<Rightarrow> nat \<Rightarrow> bool" where
  "id_used h i \<longleftrightarrow> bit (h_nodeIDs h ! 0) i"

lemma alloc_id_loop_spec:
  assumes "ids \<noteq> []" "\<forall>i\<in>set is. i < 64"
  shows "alloc_id_loop ids is = map_option (\<lambda>i. (i, ids[0 := ids ! 0 OR push_bit i 1])) (List.find (\<lambda>i. \<not> bit (ids ! 0) i) is)"
  using assms(2)
proof (induction "is")
  case (Cons i js)
  then have i: "i div 64 = 0" "i mod 64 = i" by simp_all
  have "ids ! 0 AND push_bit i 1 = 0 \<longleftrightarrow> \<not> bit (ids ! 0) i"
    by (simp add: bit_iff_and_push_bit_not_eq_0)
  then show ?case using Cons by (simp add: i Let_def)
qed simp

lemma clear_set_bit: "\<not> bit (w :: uint64) i \<Longrightarrow> (w OR push_bit i 1) AND NOT (push_bit i 1) = w"
  by (rule bit_word_eqI) (auto simp: bit_simps)

lemma alloc_sets_bit:
  assumes "h_nodeIDs h \<noteq> []" "allocNodeID h = (Inr i, h0)"
  shows "id_used h0 (nat i)" "\<not> id_used h (nat i)"
proof -
  let ?ids = "h_nodeIDs h"
  have loop: "alloc_id_loop ?ids [1..<MaxNodes] =
      map_option (\<lambda>i. (i, ?ids[0 := ?ids ! 0 OR push_bit i 1])) (List.find (\<lambda>i. \<not> bit (?ids ! 0) i) [1..<MaxNodes])"
    by (rule alloc_id_loop_spec[OF assms(1)]) (auto simp: MaxNodes_def simp del: upt_rec_numeral)
  then obtain k where k: "List.find (\<lambda>i. \<not> bit (?ids ! 0) i) [1..<MaxNodes] = Some k" "i = int k"
      "h0 = h\<lparr>h_nodeIDs := ?ids[0 := ?ids ! 0 OR push_bit k 1]\<rparr>"
    using assms(2) by (auto simp: allocNodeID_def split: option.splits)
  have "k \<in> set [1..<MaxNodes]" "\<not> bit (?ids ! 0) k" using k(1) by (auto simp: find_Some_iff simp del: upt_rec_numeral)
  then show "id_used h0 (nat i)" "\<not> id_used h (nat i)" using k(2,3) assms(1) by (simp_all add: id_used_def bit_simps MaxNodes_def)
qed

text \<open>C40: \<open>allocNodeID\<close> gives the smallest free ID from 1 to 63 and marks exactly that one, or fails when there
  is none; \<open>freeNodeID\<close> undoes it, so that an ID is not given to two nodes at a time and none is lost.\<close>

theorem allocNodeID_correct:
  assumes "h_nodeIDs h \<noteq> []"
  shows "case allocNodeID h of
      (Inr i, h') \<Rightarrow> 1 \<le> i \<and> i < 64 \<and> \<not> id_used h (nat i) \<and> (\<forall>j. 1 \<le> j \<longrightarrow> j < nat i \<longrightarrow> id_used h j)
        \<and> (\<forall>j<64. id_used h' j \<longleftrightarrow> id_used h j \<or> j = nat i) \<and> freeNodeID h' i = Some h
    | (Inl err, h') \<Rightarrow> err = MaxNodesReached \<and> h' = h \<and> (\<forall>j. 1 \<le> j \<longrightarrow> j < 64 \<longrightarrow> id_used h j)"
proof -
  let ?ids = "h_nodeIDs h"
  have M: "MaxNodes = 64" by (simp add: MaxNodes_def)
  have loop: "alloc_id_loop ?ids [1..<64] = map_option (\<lambda>i. (i, ?ids[0 := ?ids ! 0 OR push_bit i 1])) (List.find (\<lambda>i. \<not> bit (?ids ! 0) i) [1..<64])"
    by (rule alloc_id_loop_spec[OF assms]) auto
  show ?thesis
  proof (cases "List.find (\<lambda>i. \<not> bit (?ids ! 0) i) [1..<64]")
    case None
    then have "\<forall>j. 1 \<le> j \<longrightarrow> j < 64 \<longrightarrow> id_used h j" unfolding find_None_iff id_used_def by auto
    then show ?thesis using loop None unfolding allocNodeID_def M by simp
  next
    case (Some i)
    let ?h = "h\<lparr>h_nodeIDs := ?ids[0 := ?ids ! 0 OR push_bit i 1]\<rparr>"
    obtain k where k: "k < length [1..<64]" "\<not> bit (?ids ! 0) ([1..<64] ! k)" "i = [1..<64] ! k" "\<forall>j<k. \<not> \<not> bit (?ids ! 0) ([1..<64] ! j)"
      using Some unfolding find_Some_iff by blast
    have i: "i = 1 + k" "k < 63" using k(1,3) by simp_all
    have low: "id_used h j" if "1 \<le> j" "j < i" for j
      using k(4)[rule_format, of "j - 1"] that i by (simp add: id_used_def)
    have al: "allocNodeID h = (Inr (int i), ?h)" using loop Some unfolding allocNodeID_def M by simp
    have "freeNodeID ?h (int i) = Some h"
    proof -
      have "int i sdiv 64 = 0" "int i smod 64 = int i" using i by (simp_all add: signed_divide_int_def signed_modulo_int_def)
      then show ?thesis using assms k(2,3) clear_set_bit[of "?ids ! 0" i] by (simp add: freeNodeID_def Let_def go_nth_def)
    qed
    moreover have "\<forall>j<64. id_used ?h j \<longleftrightarrow> id_used h j \<or> j = i" using assms i by (auto simp: id_used_def bit_simps)
    ultimately show ?thesis using al low k(2,3) i by (simp add: id_used_def)
  qed
qed

theorem allocNodeID_correct_witness:
  "\<exists>h k'. NewHub ex_os (Inr 5) [] ex_kernel (\<lambda>_ _. 0) ex_efds = Some (Inr h, k')
    \<and> (\<exists>h'. allocNodeID h = (Inr 1, h') \<and> freeNodeID h' 1 = Some h)"
proof (rule ex_hub)
  fix h k'
  assume h: "NewHub ex_os (Inr 5) [] ex_kernel (\<lambda>_ _. 0) ex_efds = Some (Inr h, k')" "list_all (\<lambda>w. w = 0) (h_nodeIDs h)" "length (h_nodeIDs h) = 64"
  have ne: "h_nodeIDs h \<noteq> []" using h(3) by auto
  then have free: "\<not> id_used h j" for j using h(2) by (cases "h_nodeIDs h") (simp_all add: id_used_def)
  obtain r h' where r: "allocNodeID h = (r, h')" by (cases "allocNodeID h")
  have "\<exists>i. r = Inr i" using allocNodeID_correct[OF ne] free[of 1] r by (cases r) auto
  then obtain i where i: "r = Inr i" ..
  have "i = 1" using allocNodeID_correct[OF ne] free[of 1] unfolding r i by (cases "i = 1") auto
  then show ?thesis using allocNodeID_correct[OF ne] h(1) r i by auto
qed

subsection \<open>Chunks a node is told about\<close>

text \<open>The descriptors of chunks that have been sent to a node; the first two of the handshake are event
  counters.\<close>

definition announced :: "NodeInfo \<Rightarrow> int list" where
  "announced n = drop 2 (concat (map snd (ni_conn n)))"

lemma chunk_fds_range:
  assumes "bus_ok b" "j \<le> length (chunks b)"
  shows "i \<le> j \<Longrightarrow> chunk_fds b [i..<j] = Some (map ck_Fd (drop i (take j (chunks b))))"
proof (induction "j - i" arbitrary: i)
  case (Suc k)
  then have i: "i < j" "k = j - Suc i" by simp_all
  have "i < 64" using i(1) assms bus_okD(1)[OF assms(1)] by (simp add: chunks_ok_def MaxChunks_def)
  then have "sint (NOT (NOT (of_nat i :: int16))) = int i" using sint_small[of i] by simp
  then have "GetChunk b (NOT (of_nat i)) = Some (chunks b ! i)" using i(1) assms(2) by (simp add: GetChunk_def)
  moreover have "drop i (take j (chunks b)) = chunks b ! i # drop (Suc i) (take j (chunks b))"
    using i(1) assms(2) by (simp add: Cons_nth_drop_Suc[symmetric])
  moreover have "chunk_fds b [Suc i..<j] = Some (map ck_Fd (drop (Suc i) (take j (chunks b))))"
    using Suc.hyps(1)[OF i(2)] i(1) by simp
  ultimately show ?case using i(1) by (simp add: upt_conv_Cons)
qed simp

text \<open>Which of the chunks sent one by one, starting with write number \<open>k\<close>, arrive: those whose write succeeds.\<close>

fun delivered :: "(nat \<Rightarrow> nat option) \<Rightarrow> nat \<Rightarrow> int list \<Rightarrow> int list" where
  "delivered sends k [] = []"
| "delivered sends k (fd # fds) = (if sends k = None then [fd] else []) @ delivered sends (Suc k) fds"

definition all_sent :: "NodeInfo \<Rightarrow> bool" where
  "all_sent n \<longleftrightarrow> (\<forall>k < ni_sends n. ni_send_err n k = None)"

text \<open>Every node none of whose writes has failed has been told about the chunks of the bus, each once and in
  their order.\<close>

definition nodes_informed :: "hub \<Rightarrow> bool" where
  "nodes_informed h \<longleftrightarrow> (\<forall>(name, n) \<in> set (h_nodes h). 2 \<le> length (concat (map snd (ni_conn n)))
     \<and> (all_sent n \<longrightarrow> announced n = map ck_Fd (chunks (h_bus h))))"

definition syncChunks :: "NodeInfo \<Rightarrow> chunk list \<Rightarrow> NodeInfo" where
  "syncChunks n cs = foldl (\<lambda>n c. syncChunk n [ck_Fd c]) n cs"

lemma syncChunks_announced:
  assumes "2 \<le> length (concat (map snd (ni_conn n)))"
  shows "announced (syncChunks n cs) = announced n @ delivered (ni_send_err n) (ni_sends n) (map ck_Fd cs)
    \<and> 2 \<le> length (concat (map snd (ni_conn (syncChunks n cs)))) \<and> ni_sends (syncChunks n cs) = ni_sends n + length cs
    \<and> ni_send_err (syncChunks n cs) = ni_send_err n"
  using assms
proof (induction cs arbitrary: n)
  case (Cons c cs)
  let ?n = "syncChunk n [ck_Fd c]"
  have n: "2 \<le> length (concat (map snd (ni_conn ?n)))" "ni_sends ?n = Suc (ni_sends n)" "ni_send_err ?n = ni_send_err n"
    "announced ?n = announced n @ (if ni_send_err n (ni_sends n) = None then [ck_Fd c] else [])"
    using Cons.prems by (auto simp: syncChunk_def conn_send_def SendMsgWithFDs_def announced_def split: option.splits)
  from Cons.IH[OF n(1)] n(2-4) show ?case by (simp add: syncChunks_def)
qed (simp add: syncChunks_def)

lemma delivered_all: "\<forall>j < length fds. sends (k + j) = None \<Longrightarrow> delivered sends k fds = fds"
proof (induction fds arbitrary: k)
  case (Cons fd fds)
  have "sends (Suc k + j) = None" if "j < length fds" for j using Cons.prems[rule_format, of "Suc j"] that by simp
  then show ?case using Cons.IH[of "Suc k"] Cons.prems[rule_format, of 0] by simp
qed simp

lemma put_bus_nodes:
  assumes "appended b = appended (h_bus h) @ new"
  shows "h_nodes (put_bus h b) = map (\<lambda>(name, n). (name, syncChunks n new)) (h_nodes h)"
proof -
  have "h_nodes (foldl AppendedChunkBroacast g cs) = map (\<lambda>(name, n). (name, syncChunks n cs)) (h_nodes g)" for g cs
    by (induction cs arbitrary: g) (auto simp: AppendedChunkBroacast_def syncChunks_def)
  then show ?thesis by (simp add: put_bus_def assms)
qed

lemma put_bus_informed:
  assumes "nodes_informed h" "grows (h_bus h) b"
  shows "nodes_informed (put_bus h b)"
proof -
  obtain new where new: "chunks b = chunks (h_bus h) @ new" "appended b = appended (h_bus h) @ new" using assms(2) by (auto simp: grows_def)
  have "2 \<le> length (concat (map snd (ni_conn (syncChunks n new))))
      \<and> (all_sent (syncChunks n new) \<longrightarrow> announced (syncChunks n new) = map ck_Fd (chunks b))" if n: "(name, n) \<in> set (h_nodes h)" for name n
  proof -
    have 2: "2 \<le> length (concat (map snd (ni_conn n)))" "all_sent n \<longrightarrow> announced n = map ck_Fd (chunks (h_bus h))"
      using assms(1) n by (auto simp: nodes_informed_def)
    note sy = syncChunks_announced[OF 2(1), of new]
    have "announced (syncChunks n new) = map ck_Fd (chunks b)" if "all_sent (syncChunks n new)"
    proof -
      have "all_sent n" "\<forall>j < length new. ni_send_err n (ni_sends n + j) = None" using that sy by (auto simp: all_sent_def)
      then show ?thesis using sy 2(2) delivered_all[of "map ck_Fd new"] by (simp add: new)
    qed
    with sy show ?thesis by blast
  qed
  then show ?thesis unfolding nodes_informed_def put_bus_nodes[OF new(2)] put_bus_simps(1) by fastforce
qed

lemma bus_count: "bus_ok b \<Longrightarrow> chunkCount b = length (chunks b)"
  by (simp add: bus_ok_def)

text \<open>The node that the handshake has been sent to.\<close>

definition dialled :: "hub \<Rightarrow> int \<Rightarrow> int \<Rightarrow> (nat \<Rightarrow> nat option) \<Rightarrow> NodeInfo" where
  "dialled h i fd sends = \<lparr>ni_nodeID = i,
     ni_conn = [(HandshakeMessage i, fd # ev_fd (h_respEv h) # map ck_Fd (chunks (h_bus h)))],
     ni_send_err = sends, ni_sends = 1, ni_nodeEv = \<lparr>ev_fd = fd\<rparr>, ni_closed = False\<rparr>"

lemma Dial_send_ok:
  assumes ok: "bus_ok (h_bus h)" and id: "allocNodeID h = (Inr i, h0)"
  obtains h1 where "Dial_send None (Inr fd) sends h = Some (case sends 0 of
        None \<Rightarrow> Inr (length (chunks (h_bus h)), dialled h i fd sends) | Some e \<Rightarrow> Inl (Errno e), h1)"
    "h_nodes h1 = h_nodes h" "chunks (h_bus h1) = chunks (h_bus h)"
proof -
  have h0: "h_bus h0 = h_bus h" "h_nodes h0 = h_nodes h" "h_respEv h0 = h_respEv h" "h_efds h0 = h_efds h"
    using id by (auto simp: allocNodeID_def split: option.splits)
  let ?b = "(h_bus h)\<lparr>kern := (kern (h_bus h))\<lparr>open_fds := insert fd (open_fds (kern (h_bus h)))\<rparr>\<rparr>"
  have b: "bus_ok ?b" using ok by (simp add: bus_ok_def)
  have "chunk_fds ?b [0..<length (chunks ?b)] = Some (map ck_Fd (drop 0 (take (length (chunks ?b)) (chunks ?b))))"
    by (rule chunk_fds_range[OF b]) simp_all
  then have "chunk_fds ?b [0..<length (chunks (h_bus h))] = Some (map ck_Fd (chunks (h_bus h)))" by simp
  then show ?thesis
    using id h0 bus_count[OF ok] b
    by (intro that[of "h0\<lparr>h_bus := ?b, h_efds := set_counter (h_efds h) fd 0\<rparr>"])
      (simp_all add: Dial_send_def NewEventfd_def conn_send_def SendMsgWithFDs_def dialled_def split: option.splits)
qed

lemma Dial_register_cases:
  assumes ok: "bus_ok (h_bus h)" and ch: "chunks (h_bus h) = old @ new" and n: "announced n = map ck_Fd old"
    "2 \<le> length (concat (map snd (ni_conn n)))"
  obtains (failed) e where "new \<noteq> []" "ni_send_err n (ni_sends n) = Some e"
      "Dial_register h name (length old) n = Some (Some (Errno e), h)"
  | (registered) n' where "new = [] \<or> ni_send_err n (ni_sends n) = None"
      "Dial_register h name (length old) n = Some (None, set_node h name n')" "announced n' = map ck_Fd (chunks (h_bus h))"
      "2 \<le> length (concat (map snd (ni_conn n')))" "ni_nodeID n' = ni_nodeID n" "ni_send_err n' = ni_send_err n"
      "ni_sends n' = ni_sends n + (if new = [] then 0 else 1)"
proof -
  have cnt: "chunkCount (h_bus h) = length old + length new" using bus_count[OF ok] ch by simp
  have "chunk_fds (h_bus h) [length old..<length old + length new] = Some (map ck_Fd new)"
    using chunk_fds_range[OF ok, of "length old + length new" "length old"] ch by simp
  then have reg: "Dial_register h name (length old) n = (if new = [] then Some (None, set_node h name n) else
      (case conn_send n NewChunkMessage (map ck_Fd new) of (Some e, n) \<Rightarrow> Some (Some e, h) | (None, n) \<Rightarrow> Some (None, set_node h name n)))"
    using cnt by (auto simp: Dial_register_def Let_def split: prod.splits option.splits)
  show ?thesis
  proof (cases "new = []")
    case True
    then show ?thesis using registered[of n] reg n ch by simp
  next
    case False
    then show ?thesis using failed registered[of "snd (conn_send n NewChunkMessage (map ck_Fd new))"] reg n ch
      by (cases "ni_send_err n (ni_sends n)") (simp_all add: conn_send_def SendMsgWithFDs_def announced_def)
  qed
qed

lemma registered_node:
  assumes inf: "nodes_informed h" and n: "announced n = map ck_Fd (chunks (h_bus h))" "2 \<le> length (concat (map snd (ni_conn n)))"
  shows "map_of (h_nodes (set_node h name n)) name = Some n" "nodes_informed (set_node h name n)"
    "\<forall>b' new. grows (h_bus h) b' \<longrightarrow> chunks b' = chunks (h_bus h) @ new \<longrightarrow> nodes_informed (put_bus (set_node h name n) b')
       \<and> (\<exists>n'. map_of (h_nodes (put_bus (set_node h name n) b')) name = Some n'
            \<and> announced n' = map ck_Fd (chunks (h_bus h)) @ delivered (ni_send_err n) (ni_sends n) (map ck_Fd new))"
proof -
  show "map_of (h_nodes (set_node h name n)) name = Some n" by (simp add: set_node_def)
  show inf': "nodes_informed (set_node h name n)" using inf n by (auto simp: nodes_informed_def set_node_def)
  show "\<forall>b' new. grows (h_bus h) b' \<longrightarrow> chunks b' = chunks (h_bus h) @ new \<longrightarrow> nodes_informed (put_bus (set_node h name n) b')
       \<and> (\<exists>n'. map_of (h_nodes (put_bus (set_node h name n) b')) name = Some n'
            \<and> announced n' = map ck_Fd (chunks (h_bus h)) @ delivered (ni_send_err n) (ni_sends n) (map ck_Fd new))"
  proof (intro allI impI conjI)
    fix b' new assume g: "grows (h_bus h) b'" "chunks b' = chunks (h_bus h) @ new"
    have bus: "h_bus (set_node h name n) = h_bus h" by (simp add: set_node_def)
    then show "nodes_informed (put_bus (set_node h name n) b')" using put_bus_informed[OF inf'] g(1) by simp
    have "appended b' = appended (h_bus (set_node h name n)) @ new" using g unfolding bus by (auto simp: grows_def)
    from put_bus_nodes[OF this] have "map_of (h_nodes (put_bus (set_node h name n) b')) name = Some (syncChunks n new)"
      by (simp add: set_node_def)
    then show "\<exists>n'. map_of (h_nodes (put_bus (set_node h name n) b')) name = Some n'
        \<and> announced n' = map ck_Fd (chunks (h_bus h)) @ delivered (ni_send_err n) (ni_sends n) (map ck_Fd new)"
      using syncChunks_announced[OF n(2), of new] n(1) by simp
  qed
qed

text \<open>C8: What a node is told about the chunks. The handshake carries the descriptors of the chunks there are at that
  time; the registration, under the lock, adds those of the chunks appended since; and every chunk
  appended later is broadcast to the registered nodes. Each of these writes may fail. When the handshake
  or the announcement at registration fails, \<open>Dial\<close> returns the error and the node is not registered.
  A registered node has been sent the descriptors of all chunks of the hub, once and in order, also
  when the bus has grown while it was dialled, and this stays so for every node as long as its writes
  succeed, which is what makes chunk numbers mean the same on both sides. A failed broadcast is ignored:
  the node stays registered and gets exactly the later chunks whose own write succeeds, so that it misses
  a chunk and numbers the following ones differently.\<close>

theorem dial_informs_node:
  assumes ok: "bus_ok (h_bus h)" and inf: "nodes_informed h" and id: "allocNodeID h = (Inr i, h0)"
  shows "case sends 0 of
      Some e \<Rightarrow> (\<exists>h1. Dial_send None (Inr fd) sends h = Some (Inl (Errno e), h1) \<and> h_nodes h1 = h_nodes h)
    | None \<Rightarrow> (\<exists>cnt n h1. Dial_send None (Inr fd) sends h = Some (Inr (cnt, n), h1) \<and> ni_nodeID n = i \<and> h_nodes h1 = h_nodes h
        \<and> (\<forall>b. grows (h_bus h1) b \<longrightarrow> bus_ok b \<longrightarrow>
            (if chunks b \<noteq> chunks (h_bus h1) \<and> sends 1 \<noteq> None
             then Dial_register (put_bus h1 b) name cnt n = Some (Some (Errno (the (sends 1))), put_bus h1 b)
             else \<exists>h2 n2. Dial_register (put_bus h1 b) name cnt n = Some (None, h2)
               \<and> map_of (h_nodes h2) name = Some n2 \<and> ni_nodeID n2 = i \<and> announced n2 = map ck_Fd (chunks b) \<and> nodes_informed h2
               \<and> (\<forall>b' new. grows b b' \<longrightarrow> chunks b' = chunks b @ new \<longrightarrow> nodes_informed (put_bus h2 b')
                    \<and> (\<exists>n3. map_of (h_nodes (put_bus h2 b')) name = Some n3
                         \<and> announced n3 = map ck_Fd (chunks b) @ delivered sends (ni_sends n2) (map ck_Fd new))))))"
proof -
  obtain h1 where sd: "Dial_send None (Inr fd) sends h = Some (case sends 0 of
        None \<Rightarrow> Inr (length (chunks (h_bus h)), dialled h i fd sends) | Some e \<Rightarrow> Inl (Errno e), h1)"
    "h_nodes h1 = h_nodes h" "chunks (h_bus h1) = chunks (h_bus h)"
    by (rule Dial_send_ok[OF ok id])
  have inf1: "nodes_informed h1" using inf sd by (simp add: nodes_informed_def)
  have d: "announced (dialled h i fd sends) = map ck_Fd (chunks (h_bus h))" "2 \<le> length (concat (map snd (ni_conn (dialled h i fd sends))))"
    "ni_nodeID (dialled h i fd sends) = i" "ni_send_err (dialled h i fd sends) = sends" "ni_sends (dialled h i fd sends) = 1"
    by (simp_all add: dialled_def announced_def)
  have all: "if chunks b \<noteq> chunks (h_bus h1) \<and> sends 1 \<noteq> None
      then Dial_register (put_bus h1 b) name (length (chunks (h_bus h))) (dialled h i fd sends) = Some (Some (Errno (the (sends 1))), put_bus h1 b)
      else \<exists>h2 n2. Dial_register (put_bus h1 b) name (length (chunks (h_bus h))) (dialled h i fd sends) = Some (None, h2)
        \<and> map_of (h_nodes h2) name = Some n2 \<and> ni_nodeID n2 = i \<and> announced n2 = map ck_Fd (chunks b) \<and> nodes_informed h2
        \<and> (\<forall>b' new. grows b b' \<longrightarrow> chunks b' = chunks b @ new \<longrightarrow> nodes_informed (put_bus h2 b')
             \<and> (\<exists>n3. map_of (h_nodes (put_bus h2 b')) name = Some n3
                  \<and> announced n3 = map ck_Fd (chunks b) @ delivered sends (ni_sends n2) (map ck_Fd new)))"
    if b: "grows (h_bus h1) b" "bus_ok b" for b
  proof -
    obtain late where late: "chunks b = chunks (h_bus h) @ late" using b(1) sd(3) by (auto simp: grows_def)
    have ok1: "bus_ok (h_bus (put_bus h1 b))" "chunks (h_bus (put_bus h1 b)) = chunks (h_bus h) @ late" using b(2) late by simp_all
    show ?thesis
      using ok1 d(1,2)
    proof (cases rule: Dial_register_cases[where name = name])
      case (failed e)
      then show ?thesis using d late sd(3) by simp
    next
      case (registered n')
      note reg = registered_node[OF put_bus_informed[OF inf1 b(1)] registered(3,4), unfolded put_bus_simps(1) registered(6) d(4), of name]
      show ?thesis using registered d late sd(3) reg by auto
    qed
  qed
  show ?thesis
  proof (cases "sends 0")
    case None
    then have "Dial_send None (Inr fd) sends h = Some (Inr (length (chunks (h_bus h)), dialled h i fd sends), h1)" using sd(1) by simp
    then show ?thesis unfolding None option.case using d(3) sd(2) all
      by (intro exI[of _ "length (chunks (h_bus h))"] exI[of _ "dialled h i fd sends"] exI[of _ h1] conjI allI impI) assumption+
  next
    case (Some e)
    then show ?thesis using sd(1,2) by simp
  qed
qed

theorem dial_informs_node_witness:
  "\<exists>h k' cnt n h1. NewHub ex_os (Inr 5) [] ex_kernel (\<lambda>_ _. 0) ex_efds = Some (Inr h, k')
    \<and> Dial_send None (Inr 7) (\<lambda>_. None) h = Some (Inr (cnt, n), h1) \<and> ni_nodeID n = 1
    \<and> (\<exists>h2. Dial_send None (Inr 7) (\<lambda>_. Some 32) h = Some (Inl (Errno 32), h2))"
proof (rule ex_hub)
  fix h k'
  assume h: "NewHub ex_os (Inr 5) [] ex_kernel (\<lambda>_ _. 0) ex_efds = Some (Inr h, k')" "hub_ok ex_os [0..<256] h" "h_nodes h = []"
    "list_all (\<lambda>w. w = 0) (h_nodeIDs h)" "length (h_nodeIDs h) = 64"
  have ne: "h_nodeIDs h \<noteq> []" using h(5) by auto
  then have "h_nodeIDs h ! 0 = 0" using h(4) by (cases "h_nodeIDs h") simp_all
  then have "alloc_id_loop (h_nodeIDs h) (1 # [2..<64]) = Some (1, (h_nodeIDs h)[0 := 2])" by (simp add: Let_def)
  moreover have "[1..<MaxNodes] = 1 # [2..<64]" unfolding MaxNodes_def by (subst upt_conv_Cons) (simp_all add: numeral_2_eq_2 del: upt_rec_numeral)
  ultimately have id: "allocNodeID h = (Inr 1, h\<lparr>h_nodeIDs := (h_nodeIDs h)[0 := 2]\<rparr>)" by (simp add: allocNodeID_def)
  have inf: "nodes_informed h" using h(3) by (simp add: nodes_informed_def)
  note dial = dial_informs_node[OF hub_okD(1)[OF h(2)] inf id, where fd = 7 and name = "''n''"]
  obtain cnt n h1 where "Dial_send None (Inr 7) (\<lambda>_. None) h = Some (Inr (cnt, n), h1)" "ni_nodeID n = 1"
    using dial[of "\<lambda>_. None", unfolded option.case] by blast
  moreover obtain h2 where "Dial_send None (Inr 7) (\<lambda>_. Some 32) h = Some (Inl (Errno 32), h2)"
    using dial[of "\<lambda>_. Some 32", unfolded option.case] by blast
  ultimately show ?thesis using h(1) by blast
qed

text \<open>A failed \<open>Dial\<close> does not give the node ID back.\<close>

lemma Dial_failed_keeps_id:
  assumes "h_nodeIDs h \<noteq> []" "allocNodeID h = (Inr i, h0)"
  shows "Dial_send None (Inl e) sends h = Some (Inl (EventfdFailed e), h0) \<and> id_used h0 (nat i) \<and> \<not> id_used h (nat i)"
  using alloc_sets_bit[OF assms] assms(2) by (simp add: Dial_send_def NewEventfd_def)

end
