(* ===== verification/Spec2Isabelle.thy ===== *)
theory Spec2Isabelle
  imports Viewer_Spec Bus_Concurrent MPSC_Queue Hub_Nodes
begin

text \<open>
  Verification of mmfg, a message fabric in which a hub and up to 63 nodes exchange requests through
  shared memory. All Go packages with logic of their own are modelled.

  \<^bold>\<open>The program.\<close> The hub creates shared-memory chunks of 4 MB, each divided into 1024 blocks of 4 KB, and
  allocates the blocks with a bitmap (the bus, \<^verbatim>\<open>go/shm/bus.go\<close>). A stripe (\<^verbatim>\<open>stripe.go\<close>) is a list of blocks
  used as one byte array; its first block is a header (\<^verbatim>\<open>protocol.go\<close>) with the data length, the
  number of blocks and the sequence of chunk and block numbers. One stripe of 1 MB is the control region
  (\<^verbatim>\<open>control.go\<close>, \<^verbatim>\<open>layout.go\<close>): a response queue, a request queue per node, and a registry of 4096
  slots, each naming the header block of a stripe that is being worked on. A connection of the hub
  (\<^verbatim>\<open>go/hub/conn.go\<close>) owns a stripe; \<open>Next\<close> puts it into a slot, pushes the slot number to the queue of a
  node and waits. The node (\<^verbatim>\<open>go/node/node.go\<close>) pops the number, rebuilds the stripe from its header, runs the
  handler and pushes the number to the response queue, where the hub's dispatch loop (\<^verbatim>\<open>go/hub/hub.go\<close>) finds
  it and wakes the caller. Chunks and event counters travel as descriptors over a Unix socket
  (\<^verbatim>\<open>go/sync\<close>, \<^verbatim>\<open>internal/netutil\<close>). A node cannot allocate; it asks the hub to expand a stripe.

  \<^bold>\<open>Theories, their state and what they show.\<close>

  \<^descr> \<open>Prelude\<close>: integer types, the error values, Go's indexing and 64-bit arithmetic, and generic lemmas.
  \<^descr> \<open>Layout\<close> (\<^verbatim>\<open>layout.go\<close>): constants and offsets; the words of the control region are aligned, lie inside one
    block each and are pairwise disjoint.
  \<^descr> \<open>Chunk_Memory\<close> (\<^verbatim>\<open>chunk.go\<close>): the shared memory as a function from region and offset to bytes, slices,
    little-endian loads and stores, chunks over a descriptor table; creation and closing leak nothing.
  \<^descr> \<open>Protocol\<close> (\<^verbatim>\<open>protocol.go\<close>): header encoding; round trip when the sequence fits, and what happens when not.
  \<^descr> \<open>Stripe_IO\<close>, \<open>Stripe_Spec\<close> (\<^verbatim>\<open>stripe.go\<close>): reads, writes and truncation over a stripe, shown to act on the
    byte array its blocks form (\<open>data_region\<close>, \<open>contents\<close>; the locale \<open>byte_store\<close> has the laws), with capacity and
    end-of-data behaviour.
  \<^descr> \<open>Stripe_Viewer\<close>, \<open>Viewer_Spec\<close> (\<^verbatim>\<open>stripe.go\<close>): zero-copy views and searches; \<open>Index\<close> is substring search,
    \<open>SetByteAt\<close> is a write to the stripe.
  \<^descr> \<open>Bus_Alloc\<close>, \<open>Bus_Spec\<close>, \<open>Bus_Blocks\<close>, \<open>Bus_Stripes\<close>, \<open>Bus_System\<close>, \<open>Bus_Theorems\<close> (\<^verbatim>\<open>bus.go\<close>): the allocator.
    The locale \<open>block_allocator\<close> is what stripes need of it. Allocation returns for every count \<open>make\<close> accepts, is correct,
    succeeds when the blocks can be had, and in every reachable state of the bus live stripes share no block, the
    used blocks are exactly theirs, and writing one keeps the others. A failed allocation leaves the chunks it appended.
  \<^descr> \<open>Bus_Concurrent\<close> (\<^verbatim>\<open>bus.go\<close>): the allocator under interleaving, one step per atomic operation, with the
    read/write lock and the snapshots goroutines work on: no block is claimed twice.
  \<^descr> \<open>Control_Region\<close>, \<open>Control_Spec\<close>, \<open>Control_Theorems\<close> (\<^verbatim>\<open>control.go\<close>): queues and registry on the bytes of the
    region. The locale \<open>word_store\<close> has the laws of the region's words, \<open>bounded_fifo\<close> those of a queue, and both are
    interpreted on the region; a queue refines a bounded FIFO under every sequence of pushes and pops, refusals
    included; slots are handed out once; the registry is read back as written and nothing else is written.
  \<^descr> \<open>MPSC_Queue\<close> (\<^verbatim>\<open>control.go\<close>): a queue with concurrent producers, step by step: messages are popped
    completely, once, in claim order; the consumer waits only for a producer between claim and store.
  \<^descr> \<open>Messages\<close> (\<^verbatim>\<open>message.go\<close>, \<^verbatim>\<open>eventfd.go\<close>, \<^verbatim>\<open>netutil.go\<close>): messages, event counters, descriptor passing; which
    descriptors \<open>ReceiveMsgWithFDs\<close> loses.
  \<^descr> \<open>Node_Session\<close>, \<open>Node_Conn\<close> (\<^verbatim>\<open>node.go\<close>): the node. The handshake delivers what was sent or keeps nothing (of a
    packet that is not empty); over the life of a connection nothing is leaked but the descriptors of a
    message that \<open>ReceiveMsgWithFDs\<close> loses, which ends the connection.
  \<^descr> \<open>Hub_State\<close> (\<^verbatim>\<open>hub.go\<close>), \<open>Hub_Conn\<close> (\<^verbatim>\<open>conn.go\<close>): the hub and its connections.
  \<^descr> \<open>Stripe_Sharing\<close>, \<open>Stripe_Handover\<close>: the locale \<open>sequence_loader\<close> for loops that turn a sequence into blocks, interpreted for the hub's and
    the node's loops; the stripe one side rebuilds is the stripe of the other.
  \<^descr> \<open>Conn_Write\<close>, \<open>Hub_Start\<close>, \<open>Conn_Stream\<close>, \<open>Conn_Lifecycle\<close>: the invariant of the hub (\<open>hub_ok\<close>), that a new
    hub satisfies it, and a connection as a byte stream from \<open>Request\<close> to \<open>Close\<close>.
  \<^descr> \<open>Request_Send\<close>, \<open>Node_Serve\<close>, \<open>Request_Roundtrip\<close>: a request from the hub to a node and back.
  \<^descr> \<open>Node_Write\<close>, \<open>Expand_Handover\<close>: writes in a handler and expansion requests.
  \<^descr> \<open>Hub_Cleanup\<close>, \<open>Hub_Nodes\<close>: the resources of a dead node, node IDs, and the chunks nodes are told about, with
    sends that may fail one by one.

  \<^bold>\<open>How the code is modelled.\<close> Structs are records and operations are functions that take and return the state.
  An \<open>option\<close> result is \<open>None\<close> where the code does not return: a Go panic, or waiting for ever. Loops are structural or
  have a termination proof; loops that may spin (\<open>Push\<close>, \<open>Pop\<close>, the retry loops, the copy loop, the drain loop of a
  node, the expansion loop) are partial functions. That they return is proved for all but the
  expansion loop, which is shown never to succeed beyond the capacity it starts with. Integers have
  their width where they can wrap: 32-bit ring counters, slot numbers and data lengths,
  16-bit chunk and block numbers, 64-bit offsets. Fuel is not used.
  Results of system calls are parameters, one for each call. Named hypotheses state documented behaviour: \<open>os_fresh\<close> and
  \<open>mmaps_fresh\<close> (a mapping is not at a place that is mapped already), \<open>os_succeeds\<close> (the calls succeed), \<open>eventfd_kernel\<close>
  (reads and writes of event counters, eventfd(2)), \<open>rights_complete\<close> (control messages that parse name
  the descriptors that came); \<open>ex_os\<close>, \<open>ex_efds\<close> and the packets of the witnesses satisfy them. \<open>make\<close> panics for
  negative counts and above the address space of the Go runtime on linux/amd64 (\<open>MaxMakeBlocks\<close>).
  The unbuffered channels of expansion requests hand over an answer only when somebody receives; a send to
  a channel that was left behind does not return.
  Operations run without interference except in \<open>Bus_Concurrent\<close> and \<open>MPSC_Queue\<close>; where the code releases a lock in the middle
  (\<open>Dial\<close>, \<open>Next\<close>) it is modelled in parts. Queue counters are assumed not to wrap within a statement; the effect of the wrap is
  a theorem of its own (\<open>Push_overwrites_at_wrap\<close>). An event counter has the same
  name in both processes.

  \<^bold>\<open>Not modelled.\<close> The CPU pause of the spin loops, log output, the accept loop of \<open>Listen\<close> and \<open>Serve\<close>, closing of sockets,
  the pool that recycles result channels, the examples, tests and benchmarks, and the Rust implementation of the node.

  \<^bold>\<open>To do.\<close> The hub and the nodes as one transition system with several requests in flight; the error
  answers of expansion requests; a dead node that has already answered a request (its slot
  still names it as owner, so that its blocks are freed twice).
\<close>

end
